(* ===== verification/Prelude.thy ===== *)
theory Prelude
  imports Main "HOL-Library.Word" "HOL-Library.Monad_Syntax"
begin

unbundle bit_operations_syntax

text \<open>
  Shared vocabulary of the development: the machine integer types of the C sources, the
  conversions C performs between them, sums over the entries of a finite map (used for every
  "the global counter equals the sum of the per-object counters" invariant), and generic facts
  about lists that the component theories rely on.

  The collection \<open>c_conv\<close> gathers the facts that evaluate C integer conversions;
  \<open>ledger\<close> gathers the update laws of map sums.
\<close>

named_theorems c_conv \<open>facts that evaluate C integer conversions\<close>
named_theorems ledger \<open>how a sum over a finite map changes when one entry changes\<close>

type_synonym u8 = "8 word"
type_synonym u32 = "32 word"
type_synonym u64 = "64 word"

lemma unat_u32_less: "unat (w :: u32) < 4294967296"
  by (rule order_less_le_trans [OF unsigned_less]) simp

lemma unat_u64_less: "unat (w :: u64) < 18446744073709551616"
  by (rule order_less_le_trans [OF unsigned_less]) simp

section \<open>C integer conversions\<close>

text \<open>
  Where an \<^verbatim>\<open>int\<close> meets a \<^verbatim>\<open>uint64_t\<close> in an expression, C
  converts the \<^verbatim>\<open>int\<close> to \<^verbatim>\<open>uint64_t\<close> (modulo \<open>2 ^ 64\<close>); storing
  a \<^verbatim>\<open>uint64_t\<close> in an \<^verbatim>\<open>int\<close> keeps the low 32 bits, read as two's
  complement.
\<close>

definition u64_of_int :: "int \<Rightarrow> u64" where
  "u64_of_int i = word_of_int i"

definition int_of_u64 :: "u64 \<Rightarrow> int" where
  "int_of_u64 w = sint (ucast w :: u32)"

lemma uint_u64_of_int [c_conv]:
  assumes "0 \<le> i" and "i < 2 ^ 64"
  shows "uint (u64_of_int i) = i"
  using assms by (simp add: u64_of_int_def uint_word_of_int)

lemma unat_u64_of_int [c_conv]:
  assumes "0 \<le> i" and "i < 2 ^ 64"
  shows "unat (u64_of_int i) = nat i"
  using uint_u64_of_int [OF assms] by (metis nat_uint_eq)

lemma sint_small:
  assumes "unat (v::u32) < 2 ^ 31"
  shows "sint v = int (unat v)"
proof -
  have "uint v < 2 ^ 31"
    using assms by (metis of_nat_less_numeral_power_cancel_iff of_nat_unat)
  moreover have "- (2 ^ 31) \<le> uint v"
    by (rule order_trans [OF _ uint_ge_0]) simp
  ultimately have "signed_take_bit 31 (uint v) = uint v"
    by (intro signed_take_bit_int_eq_self)
  then show ?thesis by (simp add: sint_uint)
qed

lemma int_of_u64_small [c_conv]:
  assumes "unat w < 2 ^ 31"
  shows "int_of_u64 w = int (unat w)"
proof -
  have "unat (ucast w :: u32) = unat w"
    using assms by (simp add: unsigned_ucast_eq take_bit_nat_eq_self)
  with assms show ?thesis
    by (simp add: int_of_u64_def sint_small)
qed

text \<open>The value of an \<^verbatim>\<open>int\<close>, 32 bits wide, after an arithmetic operation whose result is \<open>i\<close>: an overflow wraps
  around.\<close>

definition i32 :: "int \<Rightarrow> int" where
  "i32 i = signed_take_bit 31 i"

lemma i32_id [c_conv]: "- (2 ^ 31) \<le> i \<Longrightarrow> i < 2 ^ 31 \<Longrightarrow> i32 i = i"
  unfolding i32_def by (rule signed_take_bit_int_eq_self)

section \<open>Sums over the entries of a finite map\<close>

definition msum :: "('s \<Rightarrow> int) \<Rightarrow> ('k \<rightharpoonup> 's) \<Rightarrow> int" where
  "msum f m = (\<Sum>k\<in>dom m. f (the (m k)))"

lemma msum_empty [simp]: "msum f Map.empty = 0"
  by (simp add: msum_def)

lemma msum_insert [ledger]:
  assumes "finite (dom m)" and "m k = None"
  shows "msum f (m(k \<mapsto> s)) = msum f m + f s"
proof -
  have k: "k \<notin> dom m" using assms(2) by auto
  have "(\<Sum>j\<in>dom m. f (the ((m(k \<mapsto> s)) j))) = (\<Sum>j\<in>dom m. f (the (m j)))"
    using k by (intro sum.cong) auto
  with k assms(1) show ?thesis by (simp add: msum_def)
qed

lemma msum_delete [ledger]:
  assumes "finite (dom m)" and "m k = Some s"
  shows "msum f (m(k := None)) = msum f m - f s"
proof -
  have k: "k \<in> dom m" using assms(2) by auto
  have "msum f m = f (the (m k)) + (\<Sum>j\<in>dom m - {k}. f (the (m j)))"
    unfolding msum_def using assms(1) k by (rule sum.remove)
  moreover have "(\<Sum>j\<in>dom m - {k}. f (the ((m(k := None)) j)))
      = (\<Sum>j\<in>dom m - {k}. f (the (m j)))"
    by (intro sum.cong) auto
  ultimately show ?thesis using assms(2) by (simp add: msum_def)
qed

lemma msum_update [ledger]:
  assumes "finite (dom m)" and "m k = Some s"
  shows "msum f (m(k \<mapsto> t)) = msum f m - f s + f t"
proof -
  have "msum f ((m(k := None))(k \<mapsto> t)) = msum f (m(k := None)) + f t"
    using assms(1) by (intro msum_insert) auto
  then show ?thesis using assms by (simp add: msum_delete)
qed

lemma msum_cong_on:
  assumes "\<And>k s. m k = Some s \<Longrightarrow> f s = g s"
  shows "msum f m = msum g m"
  unfolding msum_def using assms by (intro sum.cong) auto

lemma msum_bounds:
  assumes "finite (dom m)" and "\<And>k s. m k = Some s \<Longrightarrow> lo \<le> f s \<and> f s \<le> hi"
  shows "lo * int (card (dom m)) \<le> msum f m \<and> msum f m \<le> hi * int (card (dom m))"
proof
  show "lo * int (card (dom m)) \<le> msum f m"
    unfolding msum_def using assms(2) sum_bounded_below [of "dom m" lo "\<lambda>k. f (the (m k))"]
    by (force simp: mult.commute)
  show "msum f m \<le> hi * int (card (dom m))"
    unfolding msum_def using assms(2) sum_bounded_above [of "dom m" "\<lambda>k. f (the (m k))" hi]
    by (force simp: mult.commute)
qed

lemma msum_nonneg:
  assumes "\<And>k s. m k = Some s \<Longrightarrow> 0 \<le> f s"
  shows "0 \<le> msum f m"
  unfolding msum_def using assms by (intro sum_nonneg) auto

lemma msum_member_le:
  assumes "finite (dom m)" and "m k = Some s" and "\<And>k s. m k = Some s \<Longrightarrow> 0 \<le> f s"
  shows "f s \<le> msum f m"
proof -
  have "0 \<le> msum f (m(k := None))" using assms(3) by (intro msum_nonneg) (auto split: if_splits)
  with msum_delete [OF assms(1,2), of f] show ?thesis by simp
qed

section \<open>Lists\<close>

lemma card_filter_upt: "card {i. i < n \<and> P i} = length (filter P [0..<n])"
proof -
  have "{i. i < n \<and> P i} = set (filter P [0..<n])" by auto
  then show ?thesis using distinct_card [of "filter P [0..<n]"] by simp
qed

lemma filter_upt_Least:
  assumes "filter P [a..<b] = i # js"
  shows "a \<le> i \<and> i < b \<and> P i \<and> (\<forall>j. a \<le> j \<longrightarrow> j < i \<longrightarrow> \<not> P j)"
  using assms
proof (induction "b - a" arbitrary: a)
  case 0
  then show ?case by simp
next
  case (Suc d)
  then have ab: "a < b" by simp
  then have u: "[a..<b] = a # [Suc a..<b]" by (rule upt_conv_Cons)
  show ?case
  proof (cases "P a")
    case True
    with Suc.prems u have "i = a" by simp
    with True ab show ?thesis by auto
  next
    case False
    with Suc.prems u have "filter P [Suc a..<b] = i # js" by simp
    with Suc.hyps(1) [of "Suc a"] Suc.hyps(2)
    have "Suc a \<le> i \<and> i < b \<and> P i \<and> (\<forall>j. Suc a \<le> j \<longrightarrow> j < i \<longrightarrow> \<not> P j)" by simp
    with False show ?thesis by (metis Suc_leD Suc_leI le_antisym not_less_eq_eq)
  qed
qed

lemma sum_list_update_nth:
  "i < length xs \<Longrightarrow> sum_list (xs[i := (v::int)]) = sum_list xs - xs ! i + v"
  by (induction xs arbitrary: i) (auto split: nat.splits)

end
