(* ===== verification/Stddef.thy ===== *)
theory Stddef
  imports Prelude
begin

text \<open>
  The arithmetic helpers of \<^verbatim>\<open>inc/base/stddef.h\<close>: power-of-two test, alignment,
  rounding division and the sequence-number comparisons that survive wrap-around of a
  \<^verbatim>\<open>uint32_t\<close>.
\<close>

section \<open>Definitions\<close>

definition is_power_of_two :: "'a::len word \<Rightarrow> bool" where
  "is_power_of_two x \<longleftrightarrow> x \<noteq> 0 \<and> x AND (x - 1) = 0"

text \<open>\<^verbatim>\<open>align_up\<close> and \<^verbatim>\<open>align_down\<close> assert that the alignment is a power of two; a
  failed assertion is \<open>None\<close>.\<close>

definition align_up :: "'a::len word \<Rightarrow> 'a word \<Rightarrow> 'a word option" where
  "align_up x align =
     (if is_power_of_two align then Some (((x - 1) OR (align - 1)) + 1) else None)"

definition align_down :: "'a::len word \<Rightarrow> 'a word \<Rightarrow> 'a word option" where
  "align_down x align =
     (if is_power_of_two align then Some (x AND NOT (align - 1)) else None)"

definition div_up :: "nat \<Rightarrow> nat \<Rightarrow> nat" where
  "div_up x d = (x + d - 1) div d"

definition wraps_lt :: "u32 \<Rightarrow> u32 \<Rightarrow> bool" where
  "wraps_lt a b \<longleftrightarrow> sint (a - b) < 0"

definition wraps_lte :: "u32 \<Rightarrow> u32 \<Rightarrow> bool" where
  "wraps_lte a b \<longleftrightarrow> sint (a - b) \<le> 0"

definition wraps_gt :: "u32 \<Rightarrow> u32 \<Rightarrow> bool" where
  "wraps_gt a b \<longleftrightarrow> sint (b - a) < 0"

definition wraps_gte :: "u32 \<Rightarrow> u32 \<Rightarrow> bool" where
  "wraps_gte a b \<longleftrightarrow> sint (b - a) \<le> 0"

section \<open>Powers of two\<close>

lemma nat_and_pred_zero:
  assumes "(x::nat) \<noteq> 0" and "x AND (x - 1) = 0"
  shows "\<exists>k. x = 2 ^ k"
  using assms
proof (induction x rule: less_induct)
  case (less x)
  show ?case
  proof (cases "even x")
    case True
    then obtain y where y: "x = 2 * y" by blast
    with less.prems have y0: "y \<noteq> 0" "y < x" by auto
    have "x AND (x - 1) = 2 * (y AND (y - 1))"
    proof -
      have "x - 1 = 1 + 2 * (y - 1)" using y y0 by simp
      then show ?thesis using y by (subst and_nat_rec) simp
    qed
    with less.prems have "y AND (y - 1) = 0" by simp
    with less.IH [of y] y0 obtain k where "y = 2 ^ k" by blast
    with y have "x = 2 ^ Suc k" by simp
    then show ?thesis by blast
  next
    case False
    then obtain y where y: "x = 1 + 2 * y" by (metis oddE add.commute)
    then have "x AND (x - 1) = 2 * (y AND y)"
      by (subst and_nat_rec) simp
    with less.prems have "y = 0" by simp
    with y have "x = 2 ^ 0" by simp
    then show ?thesis by blast
  qed
qed

lemma is_power_of_two_iff:
  "is_power_of_two (x :: 'a::len word) \<longleftrightarrow> (\<exists>k < LENGTH('a). x = 2 ^ k)"
proof
  assume p: "is_power_of_two x"
  then have x0: "x \<noteq> 0" and "unat (x AND (x - 1)) = 0" by (auto simp: is_power_of_two_def)
  then have "unat x AND (unat x - 1) = 0"
    by (simp add: unsigned_and_eq unat_minus_one)
  moreover have "unat x \<noteq> 0" using x0 by (simp add: unat_eq_0)
  ultimately obtain k where k: "unat x = 2 ^ k" using nat_and_pred_zero by blast
  have "(2::nat) ^ k < 2 ^ LENGTH('a)" using k unsigned_less [of x] by metis
  then have "k < LENGTH('a)" by simp
  moreover have "x = 2 ^ k"
  proof -
    have "of_nat (unat x) = (of_nat (2 ^ k) :: 'a word)" using k by simp
    then show ?thesis by simp
  qed
  ultimately show "\<exists>k < LENGTH('a). x = 2 ^ k" by blast
next
  assume "\<exists>k < LENGTH('a). x = 2 ^ k"
  then obtain k where k: "k < LENGTH('a)" "x = 2 ^ k" by blast
  have "x - 1 = mask k" using k by (simp add: mask_eq_decr_exp)
  moreover have "2 ^ k AND mask k = (0 :: 'a word)"
    by (rule bit_word_eqI) (auto simp: bit_and_iff bit_mask_iff bit_exp_iff)
  moreover have "bit x k" using k by (simp add: bit_exp_iff)
  then have "x \<noteq> 0" by auto
  ultimately show "is_power_of_two x" using k by (simp add: is_power_of_two_def)
qed

section \<open>Alignment\<close>

lemma and_not_mask: "x AND NOT (mask k) = x - take_bit k (x :: 'a::len word)"
proof -
  have "x - take_bit k x = x AND NOT (take_bit k x)"
    by (rule disjunctive_diff_eq_and_not, rule bit_word_eqI)
      (auto simp: bit_and_iff bit_not_iff bit_take_bit_iff)
  moreover have "x AND NOT (take_bit k x) = x AND NOT (mask k)"
    by (rule bit_word_eqI) (auto simp: bit_and_iff bit_not_iff bit_take_bit_iff bit_mask_iff)
  ultimately show ?thesis by simp
qed

lemma unat_and_not_mask:
  "unat (x AND NOT (mask k) :: 'a::len word) = unat x div 2 ^ k * 2 ^ k"
proof -
  have t: "unat (take_bit k x) = unat x mod 2 ^ k"
    unfolding unsigned_take_bit_eq by (simp add: take_bit_eq_mod)
  then have "take_bit k x \<le> x" by (simp add: word_le_nat_alt)
  then have "unat (x - take_bit k x) = unat x - unat x mod 2 ^ k"
    using t by (simp add: unat_sub)
  then show ?thesis by (simp add: and_not_mask minus_mod_eq_div_mult)
qed

lemma or_mask: "x OR mask k = (x AND NOT (mask k)) + (mask k :: 'a::len word)"
  by (metis (no_types, lifting) and_eq_not_not_or bit.disj_conj_distrib2
    bit.double_compl disjunctive_add_eq_or or.commute word_and_not word_ao_absorbs(2))

lemma align_down_exp:
  assumes "k < LENGTH('a)"
  shows "\<exists>r. align_down (x :: 'a::len word) (2 ^ k) = Some r \<and> unat r = unat x div 2 ^ k * 2 ^ k"
proof -
  have "is_power_of_two (2 ^ k :: 'a word)" using assms is_power_of_two_iff by blast
  moreover have "2 ^ k - 1 = (mask k :: 'a word)" by (simp add: mask_eq_decr_exp)
  ultimately show ?thesis by (simp add: align_down_def unat_and_not_mask)
qed

lemma align_up_exp:
  assumes k: "k < LENGTH('a)" and room: "div_up (unat x) (2 ^ k) * 2 ^ k < 2 ^ LENGTH('a)"
  shows "\<exists>r. align_up (x :: 'a::len word) (2 ^ k) = Some r
      \<and> unat r = div_up (unat x) (2 ^ k) * 2 ^ k"
proof -
  have p: "is_power_of_two (2 ^ k :: 'a word)" using k is_power_of_two_iff by blast
  have m: "2 ^ k - 1 = (mask k :: 'a word)" by (simp add: mask_eq_decr_exp)
  define y where "y = x - 1"
  have "(y OR mask k) + 1 = (y AND NOT (mask k)) + 2 ^ k"
    unfolding or_mask by (simp add: mask_eq_decr_exp)
  then have r: "align_up x (2 ^ k) = Some ((y AND NOT (mask k)) + 2 ^ k)"
    using p m by (simp add: align_up_def y_def)
  show ?thesis
  proof (cases "x = 0")
    case True
    have "align_up x (2 ^ k) = Some 0" using True p m by (simp add: align_up_def)
    with True show ?thesis by (simp add: div_up_def)
  next
    case False
    then have uy: "unat y = unat x - 1" "0 < unat x"
      by (auto simp: y_def unat_minus_one unat_gt_0)
    have d: "div_up (unat x) (2 ^ k) = (unat x - 1) div 2 ^ k + 1"
    proof -
      have "unat x + 2 ^ k - 1 = (unat x - 1) + 2 ^ k" using uy(2) by simp
      then show ?thesis by (simp add: div_up_def div_add_self2)
    qed
    have "unat (of_nat (2 ^ k) :: 'a word) = 2 ^ k"
      unfolding unsigned_of_nat using k by (simp add: take_bit_nat_eq_self)
    then have e: "unat (2 ^ k :: 'a word) = 2 ^ k" by simp
    have "unat (y AND NOT (mask k)) + unat (2 ^ k :: 'a word) = div_up (unat x) (2 ^ k) * 2 ^ k"
      using uy d e by (simp add: unat_and_not_mask algebra_simps)
    moreover from this room have "unat ((y AND NOT (mask k)) + 2 ^ k)
        = unat (y AND NOT (mask k)) + unat (2 ^ k :: 'a word)"
      by (simp add: unat_add_lem [THEN iffD1])
    ultimately show ?thesis using r by simp
  qed
qed

section \<open>Comparison of wrapping sequence numbers\<close>

lemma sint_neg_small:
  assumes "0 < d" and "d < 2 ^ 31"
  shows "sint (- (of_nat d :: u32)) = - int d"
proof -
  have "unat (of_nat d :: u32) = d" using assms by (simp add: unsigned_of_nat take_bit_nat_eq_self)
  then have "sint (of_nat d :: u32) = int d" using assms by (simp add: sint_small)
  then show ?thesis
    using assms by (simp add: sint_word_minus signed_take_bit_int_eq_self)
qed

lemma sint_pos_small:
  assumes "d < 2 ^ 31"
  shows "sint (of_nat d :: u32) = int d"
  using assms by (simp add: sint_small unsigned_of_nat take_bit_nat_eq_self)

lemma wraps_swap:
  "wraps_gt a b = wraps_lt b a" "wraps_gte a b = wraps_lte b a"
  by (simp_all add: wraps_gt_def wraps_lt_def wraps_gte_def wraps_lte_def)

lemma wraps_window:
  assumes "d < 2 ^ 31"
  shows "wraps_lt a (a + of_nat d) = (0 < d)" and "wraps_lte a (a + of_nat d)"
    and "\<not> wraps_lt (a + of_nat d) a" and "wraps_lte (a + of_nat d) a = (d = 0)"
  using assms sint_neg_small [of d] sint_pos_small [OF assms]
  by (cases "d = 0"; simp add: wraps_lt_def wraps_lte_def)+

end
