(* ===== verification/Bitmap.thy ===== *)
theory Bitmap
  imports Stddef
begin

text \<open>
  The bit arrays of \<^verbatim>\<open>inc/base/bitmap.h\<close> and \<^verbatim>\<open>base/bitmap.c\<close>. A bitmap is the
  array of \<^verbatim>\<open>unsigned long\<close> words the C code indexes; positions are the
  non-negative \<^verbatim>\<open>int\<close> arguments. Indexing past the array is undefined in C, so the
  laws below carry the bound \<open>pos < 64 * length bits\<close>.

  The interface \<open>bit_array\<close> states what a client of the bitmap may rely on, in terms of
  the set of positions that are set; it is interpreted on the word-level operations, and the
  RPC servers use the resulting facts for their slot tables.
\<close>

type_synonym bitmap = "u64 list"

section \<open>Compiler builtins\<close>

text \<open>\<^verbatim>\<open>__builtin_ffsl\<close>: one plus the index of the least significant set bit, 0 for 0;
  \<^verbatim>\<open>__builtin_popcountl\<close>: the number of set bits.\<close>

definition ffsl :: "u64 \<Rightarrow> nat" where
  "ffsl w = (case filter (bit w) [0..<64] of [] \<Rightarrow> 0 | i # _ \<Rightarrow> Suc i)"

definition popcountl :: "u64 \<Rightarrow> nat" where
  "popcountl w = length (filter (bit w) [0..<64])"

section \<open>Operations\<close>

definition BITMAP_LONG_SIZE :: "nat \<Rightarrow> nat" where
  "BITMAP_LONG_SIZE nbits = div_up nbits 64"

definition BITMAP_POS_IDX :: "nat \<Rightarrow> nat" where
  "BITMAP_POS_IDX pos = pos div 64"

definition BITMAP_POS_SHIFT :: "nat \<Rightarrow> nat" where
  "BITMAP_POS_SHIFT pos = pos mod 64"

definition bitmap_set :: "bitmap \<Rightarrow> nat \<Rightarrow> bitmap" where
  "bitmap_set bits pos =
     bits[BITMAP_POS_IDX pos := bits ! BITMAP_POS_IDX pos OR push_bit (BITMAP_POS_SHIFT pos) 1]"

definition bitmap_clear :: "bitmap \<Rightarrow> nat \<Rightarrow> bitmap" where
  "bitmap_clear bits pos =
     bits[BITMAP_POS_IDX pos :=
            bits ! BITMAP_POS_IDX pos AND NOT (push_bit (BITMAP_POS_SHIFT pos) 1)]"

definition bitmap_test :: "bitmap \<Rightarrow> nat \<Rightarrow> bool" where
  "bitmap_test bits pos \<longleftrightarrow>
     bits ! BITMAP_POS_IDX pos AND push_bit (BITMAP_POS_SHIFT pos) 1 \<noteq> 0"

definition bitmap_popcount :: "bitmap \<Rightarrow> nat \<Rightarrow> nat" where
  "bitmap_popcount bits nbits = sum_list (map (\<lambda>i. popcountl (bits ! i)) [0..<BITMAP_LONG_SIZE nbits])"

text \<open>The word-wise loops write \<^verbatim>\<open>dst[0 .. BITMAP_LONG_SIZE(nbits))\<close> and leave the rest
  of \<^verbatim>\<open>dst\<close> alone.\<close>

definition bitmap_map2 :: "(u64 \<Rightarrow> u64 \<Rightarrow> u64) \<Rightarrow> bitmap \<Rightarrow> bitmap \<Rightarrow> bitmap \<Rightarrow> nat \<Rightarrow> bitmap" where
  "bitmap_map2 f dst src1 src2 nbits =
     map (\<lambda>i. if i < BITMAP_LONG_SIZE nbits then f (src1 ! i) (src2 ! i) else dst ! i)
       [0..<length dst]"

definition bitmap_and :: "bitmap \<Rightarrow> bitmap \<Rightarrow> bitmap \<Rightarrow> nat \<Rightarrow> bitmap" where
  "bitmap_and dst src1 src2 nbits = bitmap_map2 (AND) dst src1 src2 nbits"

definition bitmap_or :: "bitmap \<Rightarrow> bitmap \<Rightarrow> bitmap \<Rightarrow> nat \<Rightarrow> bitmap" where
  "bitmap_or dst src1 src2 nbits = bitmap_map2 (OR) dst src1 src2 nbits"

definition bitmap_xor :: "bitmap \<Rightarrow> bitmap \<Rightarrow> bitmap \<Rightarrow> nat \<Rightarrow> bitmap" where
  "bitmap_xor dst src1 src2 nbits = bitmap_map2 (XOR) dst src1 src2 nbits"

text \<open>The atomic variants perform the same update in one atomic instruction; the ones that
  return the old value are modelled with it.\<close>

definition bitmap_atomic_set :: "bitmap \<Rightarrow> nat \<Rightarrow> bitmap" where
  "bitmap_atomic_set bits pos =
     bits[BITMAP_POS_IDX pos := bits ! BITMAP_POS_IDX pos OR push_bit (BITMAP_POS_SHIFT pos) 1]"

definition bitmap_atomic_test_and_set :: "bitmap \<Rightarrow> nat \<Rightarrow> bool \<times> bitmap" where
  "bitmap_atomic_test_and_set bits pos =
     (let b = push_bit (BITMAP_POS_SHIFT pos) 1; old = bits ! BITMAP_POS_IDX pos
      in (old AND b \<noteq> 0, bits[BITMAP_POS_IDX pos := old OR b]))"

definition bitmap_atomic_clear :: "bitmap \<Rightarrow> nat \<Rightarrow> bitmap" where
  "bitmap_atomic_clear bits pos =
     bits[BITMAP_POS_IDX pos :=
            bits ! BITMAP_POS_IDX pos AND NOT (push_bit (BITMAP_POS_SHIFT pos) 1)]"

definition bitmap_atomic_test :: "bitmap \<Rightarrow> nat \<Rightarrow> bool" where
  "bitmap_atomic_test bits pos \<longleftrightarrow>
     bits ! BITMAP_POS_IDX pos AND push_bit (BITMAP_POS_SHIFT pos) 1 \<noteq> 0"

definition bitmap_atomic_or :: "bitmap \<Rightarrow> bitmap \<Rightarrow> nat \<Rightarrow> bitmap" where
  "bitmap_atomic_or dst src nbits = bitmap_map2 (OR) dst dst src nbits"

definition bitmap_init :: "nat \<Rightarrow> bool \<Rightarrow> bitmap" where
  "bitmap_init nbits state = replicate (BITMAP_LONG_SIZE nbits) (if state then NOT 0 else 0)"

text \<open>The scan of \<^verbatim>\<open>bitmap_find_next\<close>: one word per iteration, the first one masked
  below the starting position.\<close>

function bitmap_find_next_loop :: "bitmap \<Rightarrow> nat \<Rightarrow> nat \<Rightarrow> u64 \<Rightarrow> bool \<Rightarrow> nat" where
  "bitmap_find_next_loop bits nbits idx m invert =
     (if idx < nbits
      then let val = bits ! BITMAP_POS_IDX idx;
               val = (if invert then NOT val else val) AND m
           in if val \<noteq> 0 then min (idx + ffsl val - 1) nbits
              else bitmap_find_next_loop bits nbits (idx + 64) (NOT 0) invert
      else nbits)"
  by pat_completeness auto
termination
  by (relation "measure (\<lambda>(bits, nbits, idx, m, invert). nbits - idx)") auto

declare bitmap_find_next_loop.simps [simp del]

definition bitmap_find_next :: "bitmap \<Rightarrow> nat \<Rightarrow> nat \<Rightarrow> bool \<Rightarrow> nat" where
  "bitmap_find_next bits nbits pos invert =
     bitmap_find_next_loop bits nbits (pos div 64 * 64)
       (NOT (push_bit (BITMAP_POS_SHIFT pos) 1 - 1)) invert"

definition bitmap_find_next_cleared :: "bitmap \<Rightarrow> nat \<Rightarrow> nat \<Rightarrow> nat" where
  "bitmap_find_next_cleared bits nbits pos = bitmap_find_next bits nbits pos True"

definition bitmap_find_next_set :: "bitmap \<Rightarrow> nat \<Rightarrow> nat \<Rightarrow> nat" where
  "bitmap_find_next_set bits nbits pos = bitmap_find_next bits nbits pos False"

text \<open>The positions a \<^verbatim>\<open>bitmap_for_each_set\<close> loop visits, in order. The loop is bounded
  by the distance to \<^verbatim>\<open>nbits\<close>, which every iteration shortens.\<close>

fun bitmap_each_from :: "nat \<Rightarrow> bitmap \<Rightarrow> nat \<Rightarrow> nat \<Rightarrow> nat list" where
  "bitmap_each_from 0 bits nbits pos = []"
| "bitmap_each_from (Suc fuel) bits nbits pos =
     (let p = bitmap_find_next_set bits nbits pos
      in if p < nbits then p # bitmap_each_from fuel bits nbits (p + 1) else [])"

definition bitmap_for_each_set :: "bitmap \<Rightarrow> nat \<Rightarrow> nat list" where
  "bitmap_for_each_set bits nbits = bitmap_each_from nbits bits nbits 0"

section \<open>Words as bit sets\<close>

lemma popcountl_card: "popcountl w = card {i. i < 64 \<and> bit w i}"
  by (simp add: popcountl_def card_filter_upt)

lemma ffsl_zero: "ffsl w = 0 \<longleftrightarrow> w = 0"
proof
  assume "ffsl w = 0"
  then have "filter (bit w) [0..<64] = []" by (auto simp: ffsl_def split: list.splits)
  then have "\<forall>i < 64. \<not> bit w i" by (auto simp: filter_empty_conv)
  then show "w = 0" by (intro bit_word_eqI) auto
next
  assume "w = 0"
  then show "ffsl w = 0" by (simp add: ffsl_def)
qed

lemma ffsl_least:
  assumes "w \<noteq> 0"
  shows "0 < ffsl w" and "ffsl w \<le> 64" and "bit w (ffsl w - 1)"
    and "\<And>j. j < ffsl w - 1 \<Longrightarrow> \<not> bit w j"
proof -
  from assms have "ffsl w \<noteq> 0" by (simp add: ffsl_zero)
  then obtain i js where f: "filter (bit w) [0..<64] = i # js"
    by (auto simp: ffsl_def split: list.splits)
  then have e: "ffsl w = Suc i" by (simp add: ffsl_def)
  from filter_upt_Least [OF f] e
  show "0 < ffsl w" and "ffsl w \<le> 64" and "bit w (ffsl w - 1)"
    and "\<And>j. j < ffsl w - 1 \<Longrightarrow> \<not> bit w j" by auto
qed

section \<open>Bitmaps as sets of positions\<close>

text \<open>The abstraction: the positions of the array that are set.\<close>

definition bm_set :: "bitmap \<Rightarrow> nat set" where
  "bm_set bits = {p. p < 64 * length bits \<and> bit (bits ! (p div 64)) (p mod 64)}"

lemmas bitmap_pos = BITMAP_POS_IDX_def BITMAP_POS_SHIFT_def

lemma finite_bm_set [simp]: "finite (bm_set bits)"
  by (rule finite_subset [of _ "{..< 64 * length bits}"]) (auto simp: bm_set_def)

lemma bitmap_test_bit: "bitmap_test bits pos \<longleftrightarrow> bit (bits ! (pos div 64)) (pos mod 64)"
  by (simp add: bitmap_test_def bitmap_pos bit_iff_and_push_bit_not_eq_0)

lemma bitmap_test_bm_set:
  "pos < 64 * length bits \<Longrightarrow> bitmap_test bits pos \<longleftrightarrow> pos \<in> bm_set bits"
  by (simp add: bitmap_test_bit bm_set_def)

lemma bit_or_single: "bit (w OR 2 ^ n) i \<longleftrightarrow> bit w i \<or> (i = n \<and> n < 64)" for w :: u64
  by (auto simp: bit_or_iff bit_exp_iff)

lemma bit_and_not_single: "bit (w AND NOT (2 ^ n)) i \<longleftrightarrow> bit w i \<and> i \<noteq> n" for w :: u64
  by (auto simp: bit_and_iff bit_not_iff bit_exp_iff dest: bit_imp_le_length)

lemma pos_eq_iff: "p div 64 = q div 64 \<Longrightarrow> p mod 64 = q mod 64 \<longleftrightarrow> p = q" for p q :: nat
  by (metis div_mult_mod_eq)

lemma bm_set_bitmap_set:
  assumes "pos < 64 * length bits"
  shows "bm_set (bitmap_set bits pos) = insert pos (bm_set bits)"
proof -
  have i: "pos div 64 < length bits" using assms by (simp add: less_mult_imp_div_less mult.commute)
  show ?thesis
  proof (rule set_eqI)
    fix p
    show "p \<in> bm_set (bitmap_set bits pos) \<longleftrightarrow> p \<in> insert pos (bm_set bits)"
      using i assms
      by (cases "p div 64 = pos div 64")
        (auto simp: bm_set_def bitmap_set_def bitmap_pos bit_or_single pos_eq_iff)
  qed
qed

lemma bm_set_bitmap_clear:
  assumes "pos < 64 * length bits"
  shows "bm_set (bitmap_clear bits pos) = bm_set bits - {pos}"
proof -
  have i: "pos div 64 < length bits" using assms by (simp add: less_mult_imp_div_less mult.commute)
  show ?thesis
  proof (rule set_eqI)
    fix p
    show "p \<in> bm_set (bitmap_clear bits pos) \<longleftrightarrow> p \<in> bm_set bits - {pos}"
      using i assms
      by (cases "p div 64 = pos div 64")
        (auto simp: bm_set_def bitmap_clear_def bitmap_pos bit_and_not_single pos_eq_iff)
  qed
qed

lemma length_bitmap_ops [simp]:
  "length (bitmap_set bits pos) = length bits" "length (bitmap_clear bits pos) = length bits"
  by (simp_all add: bitmap_set_def bitmap_clear_def)

lemma bitmap_atomic_simps:
  "bitmap_atomic_set = bitmap_set" "bitmap_atomic_clear = bitmap_clear"
  "bitmap_atomic_test = bitmap_test"
  "bitmap_atomic_test_and_set bits pos = (bitmap_test bits pos, bitmap_set bits pos)"
  by (simp_all add: fun_eq_iff bitmap_atomic_set_def bitmap_set_def bitmap_atomic_clear_def
      bitmap_clear_def bitmap_atomic_test_def bitmap_test_def bitmap_atomic_test_and_set_def Let_def)

lemma BITMAP_LONG_SIZE_mult [simp]: "BITMAP_LONG_SIZE (64 * n) = n"
  by (simp add: BITMAP_LONG_SIZE_def div_up_def)

lemma filter_bits_word:
  "length (filter (\<lambda>p. bit (bits ! (p div 64)) (p mod 64)) [64 * n..<64 * n + 64])
     = popcountl (bits ! n)" for bits :: bitmap
proof -
  have "[64 * n..<64 * n + 64] = map (\<lambda>i. 64 * n + i) [0..<64]"
    by (simp add: map_add_upt add.commute)
  moreover have "filter (\<lambda>i. bit (bits ! ((64 * n + i) div 64)) ((64 * n + i) mod 64)) [0..<64]
      = filter (bit (bits ! n)) [0..<64]"
    by (rule filter_cong) auto
  ultimately show ?thesis by (simp add: popcountl_def filter_map comp_def)
qed

lemma filter_bits_all:
  "length (filter (\<lambda>p. bit (bits ! (p div 64)) (p mod 64)) [0..<64 * n])
     = sum_list (map (\<lambda>i. popcountl (bits ! i)) [0..<n])" for bits :: bitmap
proof (induction n)
  case 0
  then show ?case by simp
next
  case (Suc n)
  have "[0..<64 * Suc n] = [0..<64 * n] @ [64 * n..<64 * n + 64]"
    using upt_add_eq_append [of 0 "64 * n" 64] by (simp add: algebra_simps)
  then show ?case using Suc filter_bits_word [of bits n] by simp
qed

lemma bitmap_popcount_card:
  assumes "length bits = BITMAP_LONG_SIZE nbits"
  shows "bitmap_popcount bits nbits = card (bm_set bits)"
proof -
  have "card (bm_set bits)
      = length (filter (\<lambda>p. bit (bits ! (p div 64)) (p mod 64)) [0..<64 * length bits])"
    unfolding bm_set_def by (rule card_filter_upt)
  then show ?thesis using assms by (simp add: bitmap_popcount_def filter_bits_all)
qed

section \<open>The scan\<close>

text \<open>What a search for the first position from \<open>a\<close> below \<open>n\<close> that satisfies \<open>P\<close> returns,
  with \<open>n\<close> for none.\<close>

definition first_from :: "(nat \<Rightarrow> bool) \<Rightarrow> nat \<Rightarrow> nat \<Rightarrow> nat \<Rightarrow> bool" where
  "first_from P a n r \<longleftrightarrow>
     r \<le> n \<and> (r < n \<longrightarrow> a \<le> r \<and> P r) \<and> (\<forall>j. a \<le> j \<longrightarrow> j < r \<longrightarrow> \<not> P j)"

lemma first_from_unique:
  "first_from P a n r \<Longrightarrow> first_from P a n r' \<Longrightarrow> r = r'"
  unfolding first_from_def by (metis le_neq_implies_less linorder_neqE_nat order_less_le_trans)

lemma first_from_extend:
  assumes "first_from P b n r" and "a \<le> b" and "\<And>j. a \<le> j \<Longrightarrow> j < b \<Longrightarrow> \<not> P j"
  shows "first_from P a n r"
  using assms unfolding first_from_def by (meson le_trans not_le)

lemma bit_scan_word:
  "bit ((if invert then NOT w else w) AND NOT (mask s)) i \<longleftrightarrow>
     i < 64 \<and> s \<le> i \<and> (bit w i \<noteq> invert)" for w :: u64
  by (auto simp: bit_and_iff bit_not_iff bit_mask_iff dest: bit_imp_le_length)

lemma bitmap_find_next_loop_first:
  assumes "s < 64"
  shows "first_from (\<lambda>j. bitmap_test bits j \<noteq> invert) (64 * k + s) nbits
     (bitmap_find_next_loop bits nbits (64 * k) (NOT (mask s)) invert)"
  using assms
proof (induction "nbits - 64 * k" arbitrary: k s rule: less_induct)
  case less
  let ?P = "\<lambda>j. bitmap_test bits j \<noteq> invert"
  define val where "val = (if invert then NOT (bits ! k) else bits ! k) AND NOT (mask s)"
  have b: "bit val i \<longleftrightarrow> i < 64 \<and> s \<le> i \<and> ?P (64 * k + i)" for i
    unfolding val_def bit_scan_word by (auto simp: bitmap_test_bit)
  note unfold = bitmap_find_next_loop.simps [of bits nbits "64 * k" "NOT (mask s)" invert]
  show ?case
  proof (cases "64 * k < nbits")
    case False
    then show ?thesis by (auto simp: unfold first_from_def)
  next
    case inside: True
    show ?thesis
    proof (cases "val = 0")
      case True
      have eq: "bitmap_find_next_loop bits nbits (64 * k) (NOT (mask s)) invert
          = bitmap_find_next_loop bits nbits (64 * Suc k) (NOT (mask 0)) invert"
        using inside True by (subst unfold) (simp add: Let_def bitmap_pos val_def add.commute)
      have none: "\<not> ?P j" if lo: "64 * k + s \<le> j" and hi: "j < 64 * Suc k" for j
      proof -
        obtain i where i: "j = 64 * k + i" using lo le_Suc_ex [of "64 * k" j] by auto
        with lo hi have "i < 64" "s \<le> i" by auto
        with b [of i] True i show ?thesis by simp
      qed
      have next_word: "first_from ?P (64 * Suc k + 0) nbits
          (bitmap_find_next_loop bits nbits (64 * Suc k) (NOT (mask 0)) invert)"
        using less(1) [of "Suc k" 0] inside by simp
      show ?thesis
        unfolding eq by (rule first_from_extend [OF next_word]) (use none less.prems in auto)
    next
      case False
      let ?i = "ffsl val - 1"
      note f = ffsl_least [OF False]
      have r: "bitmap_find_next_loop bits nbits (64 * k) (NOT (mask s)) invert
          = min (64 * k + ?i) nbits"
        using inside False f(1) by (simp add: unfold Let_def bitmap_pos val_def)
      have hit: "s \<le> ?i" "?P (64 * k + ?i)" using f(3) b [of ?i] by simp_all
      have "\<not> ?P j" if lo: "64 * k + s \<le> j" and hi: "j < 64 * k + ?i" for j
      proof -
        obtain i where i: "j = 64 * k + i" using lo le_Suc_ex [of "64 * k" j] by auto
        with lo hi have "i < ?i" "s \<le> i" by auto
        with f(4) [of i] f(2) b [of i] i show ?thesis by auto
      qed
      with hit r show ?thesis unfolding first_from_def by auto
    qed
  qed
qed

lemma bitmap_find_next_first:
  "first_from (\<lambda>j. bitmap_test bits j \<noteq> invert) pos nbits (bitmap_find_next bits nbits pos invert)"
proof -
  have "64 * (pos div 64) + pos mod 64 = pos" by simp
  moreover have "push_bit (pos mod 64) 1 - 1 = (mask (pos mod 64) :: u64)"
    by (simp add: mask_eq_decr_exp)
  ultimately show ?thesis
    using bitmap_find_next_loop_first [of "pos mod 64" bits invert "pos div 64" nbits]
    by (simp add: bitmap_find_next_def bitmap_pos mult.commute)
qed

lemma bitmap_each_from_filter:
  "nbits - pos \<le> fuel \<Longrightarrow>
     bitmap_each_from fuel bits nbits pos = filter (bitmap_test bits) [pos..<nbits]"
proof (induction fuel arbitrary: pos)
  case 0
  then show ?case by simp
next
  case (Suc fuel)
  define p where "p = bitmap_find_next_set bits nbits pos"
  have f: "first_from (bitmap_test bits) pos nbits p"
    using bitmap_find_next_first [of bits False pos nbits]
    by (simp add: p_def bitmap_find_next_set_def)
  show ?case
  proof (cases "p < nbits")
    case True
    with f have pp: "pos \<le> p" "bitmap_test bits p" "\<forall>j. pos \<le> j \<longrightarrow> j < p \<longrightarrow> \<not> bitmap_test bits j"
      by (auto simp: first_from_def)
    have "[pos..<nbits] = [pos..<p] @ p # [p + 1..<nbits]"
      using True pp(1) by (metis Suc_eq_plus1 le_add_diff_inverse less_imp_le upt_add_eq_append
          upt_conv_Cons)
    moreover have "filter (bitmap_test bits) [pos..<p] = []"
      using pp(3) by (auto simp: filter_empty_conv)
    moreover have "bitmap_each_from fuel bits nbits (p + 1)
        = filter (bitmap_test bits) [p + 1..<nbits]"
      using Suc True pp(1) by (intro Suc.IH) simp
    ultimately show ?thesis
      using True pp(2) by (simp add: p_def [symmetric] Let_def)
  next
    case False
    with f have "p = nbits" "\<forall>j. pos \<le> j \<longrightarrow> j < nbits \<longrightarrow> \<not> bitmap_test bits j"
      by (auto simp: first_from_def)
    then have "filter (bitmap_test bits) [pos..<nbits] = []"
      by (auto simp: filter_empty_conv)
    with False show ?thesis by (simp add: p_def [symmetric] Let_def)
  qed
qed

lemma bitmap_for_each_set_filter:
  "bitmap_for_each_set bits nbits = filter (bitmap_test bits) [0..<nbits]"
  by (simp add: bitmap_for_each_set_def bitmap_each_from_filter)

section \<open>The interface clients rely on\<close>

locale bit_array =
  fixes bset :: "'b \<Rightarrow> nat \<Rightarrow> 'b"
    and bclear :: "'b \<Rightarrow> nat \<Rightarrow> 'b"
    and btest :: "'b \<Rightarrow> nat \<Rightarrow> bool"
    and bcount :: "'b \<Rightarrow> nat"
    and bits_of :: "'b \<Rightarrow> nat set"
    and ok :: "'b \<Rightarrow> bool"
    and cap :: nat
  assumes sub: "ok b \<Longrightarrow> bits_of b \<subseteq> {..<cap}"
    and test: "ok b \<Longrightarrow> p < cap \<Longrightarrow> btest b p \<longleftrightarrow> p \<in> bits_of b"
    and set: "ok b \<Longrightarrow> p < cap \<Longrightarrow> bits_of (bset b p) = insert p (bits_of b)"
    and clear: "ok b \<Longrightarrow> p < cap \<Longrightarrow> bits_of (bclear b p) = bits_of b - {p}"
    and count: "ok b \<Longrightarrow> bcount b = card (bits_of b)"
    and ok_set: "ok b \<Longrightarrow> p < cap \<Longrightarrow> ok (bset b p)"
    and ok_clear: "ok b \<Longrightarrow> p < cap \<Longrightarrow> ok (bclear b p)"
begin

lemma finite_bits: "ok b \<Longrightarrow> finite (bits_of b)"
  using sub finite_subset by blast

lemma count_set:
  "ok b \<Longrightarrow> p < cap \<Longrightarrow> bcount (bset b p) = (if btest b p then bcount b else Suc (bcount b))"
  by (simp add: count ok_set set test finite_bits insert_absorb)

lemma count_clear:
  "ok b \<Longrightarrow> p < cap \<Longrightarrow> bcount (bclear b p) = (if btest b p then bcount b - 1 else bcount b)"
  by (simp add: count ok_clear clear test finite_bits)

lemma count_full: "ok b \<Longrightarrow> bcount b = cap \<longleftrightarrow> bits_of b = {..<cap}"
  using sub by (metis card_lessThan card_subset_eq count finite_lessThan)

lemma count_zero: "ok b \<Longrightarrow> bcount b = 0 \<longleftrightarrow> bits_of b = {}"
  by (simp add: count finite_bits)

lemma count_le: "ok b \<Longrightarrow> bcount b \<le> cap"
  using sub by (metis card_lessThan card_mono count finite_lessThan)

lemma set_clear_roundtrip:
  "ok b \<Longrightarrow> p < cap \<Longrightarrow> \<not> btest b p \<Longrightarrow> bits_of (bclear (bset b p) p) = bits_of b"
  by (simp add: clear ok_set set test)

end

interpretation bm: bit_array bitmap_set bitmap_clear bitmap_test
  "\<lambda>b. bitmap_popcount b (64 * n)" bm_set "\<lambda>b. length b = n" "64 * n" for n
proof unfold_locales
  fix b :: bitmap and p
  assume l: "length b = n"
  show "bm_set b \<subseteq> {..<64 * n}" using l by (auto simp: bm_set_def)
  show "bitmap_popcount b (64 * n) = card (bm_set b)" using l by (simp add: bitmap_popcount_card)
  assume p: "p < 64 * n"
  show "bitmap_test b p \<longleftrightarrow> p \<in> bm_set b" using l p by (simp add: bitmap_test_bm_set)
  show "bm_set (bitmap_set b p) = insert p (bm_set b)" using l p by (simp add: bm_set_bitmap_set)
  show "bm_set (bitmap_clear b p) = bm_set b - {p}" using l p by (simp add: bm_set_bitmap_clear)
  show "length (bitmap_set b p) = n" "length (bitmap_clear b p) = n" using l by simp_all
qed

lemma bm_set_init:
  "bm_set (bitmap_init (64 * n) state) = (if state then {..<64 * n} else {})"
proof -
  have "p div 64 < n" if "p < 64 * n" for p
    using that by (simp add: less_mult_imp_div_less mult.commute)
  then show ?thesis by (auto simp: bm_set_def bitmap_init_def)
qed

lemma length_bitmap_init [simp]: "length (bitmap_init (64 * n) state) = n"
  by (simp add: bitmap_init_def)

end
