(* ===== verification/List_Head.thy ===== *)
theory List_Head
  imports Prelude
begin

text \<open>
  The intrusive circular doubly-linked lists of \<^verbatim>\<open>inc/base/list.h\<close> and
  \<^verbatim>\<open>base/list.c\<close>, on an explicit heap: a \<^verbatim>\<open>struct list_node\<close> is an address
  with a \<^verbatim>\<open>next\<close> and a \<^verbatim>\<open>prev\<close> field, and a \<^verbatim>\<open>struct list_head\<close> is
  the address of its embedded node. Every assignment of the C code is one heap update, in the
  order of the source, so aliasing (a one-element list, where the neighbour of a node is the head
  itself) is part of the model.

  \<open>is_list\<close> relates a head to the sequence of nodes it holds. The interface
  \<open>intrusive_list\<close> collects the laws; it is interpreted on the pointer code, and justifies
  modelling the wait queues and drained-session queues of the other components as HOL lists.
\<close>

type_synonym addr = nat

record lheap =
  nxt :: "addr \<Rightarrow> addr"
  prv :: "addr \<Rightarrow> addr"

section \<open>Operations\<close>

definition set_next :: "addr \<Rightarrow> addr \<Rightarrow> lheap \<Rightarrow> lheap" where
  "set_next a v H = H\<lparr>nxt := (nxt H)(a := v)\<rparr>"

definition set_prev :: "addr \<Rightarrow> addr \<Rightarrow> lheap \<Rightarrow> lheap" where
  "set_prev a v H = H\<lparr>prv := (prv H)(a := v)\<rparr>"

definition list_head_init :: "addr \<Rightarrow> lheap \<Rightarrow> lheap" where
  "list_head_init h H = (let H = set_prev h h H in set_next h h H)"

definition list_add :: "addr \<Rightarrow> addr \<Rightarrow> lheap \<Rightarrow> lheap" where
  "list_add h n H =
     (let H = set_next n (nxt H h) H;
          H = set_prev n h H;
          H = set_prev (nxt H h) n H
      in set_next h n H)"

definition list_add_tail :: "addr \<Rightarrow> addr \<Rightarrow> lheap \<Rightarrow> lheap" where
  "list_add_tail h n H =
     (let H = set_next n h H;
          H = set_prev n (prv H h) H;
          H = set_next (prv H h) n H
      in set_prev h n H)"

definition list_add_between :: "addr \<Rightarrow> addr \<Rightarrow> addr \<Rightarrow> lheap \<Rightarrow> lheap" where
  "list_add_between prev n next H =
     (let H = set_next prev n H;
          H = set_prev n prev H;
          H = set_next n next H
      in set_prev next n H)"

definition list_add_after :: "addr \<Rightarrow> addr \<Rightarrow> lheap \<Rightarrow> lheap" where
  "list_add_after prev n H = list_add_between prev n (nxt H prev) H"

definition list_add_before :: "addr \<Rightarrow> addr \<Rightarrow> lheap \<Rightarrow> lheap" where
  "list_add_before next n H = list_add_between (prv H next) n next H"

definition list_empty :: "addr \<Rightarrow> lheap \<Rightarrow> bool" where
  "list_empty h H \<longleftrightarrow> nxt H h = h"

definition list_del :: "addr \<Rightarrow> lheap \<Rightarrow> lheap" where
  "list_del n H =
     (let H = set_prev (nxt H n) (prv H n) H
      in set_next (prv H n) (nxt H n) H)"

text \<open>The entry macros subtract a fixed member offset from the node address; the model keeps
  the node address itself. \<open>None\<close> is the NULL result.\<close>

definition list_top :: "addr \<Rightarrow> lheap \<Rightarrow> addr option" where
  "list_top h H = (if list_empty h H then None else Some (nxt H h))"

definition list_pop :: "addr \<Rightarrow> lheap \<Rightarrow> addr option \<times> lheap" where
  "list_pop h H =
     (if list_empty h H then (None, H)
      else let n = nxt H h in (Some n, list_del n H))"

definition list_tail :: "addr \<Rightarrow> lheap \<Rightarrow> addr option" where
  "list_tail h H = (if list_empty h H then None else Some (prv H h))"

definition list_append_list :: "addr \<Rightarrow> addr \<Rightarrow> lheap \<Rightarrow> lheap" where
  "list_append_list to from H =
     (let from_tail = prv H from;
          to_tail = prv H to;
          H = set_prev to from_tail H;
          H = set_next from_tail to H;
          H = set_next to_tail from H;
          H = set_prev from to_tail H;
          H = list_del from H
      in list_head_init from H)"

text \<open>The consistency walk of \<^verbatim>\<open>list_check_node\<close>. A corrupted heap may have a
  \<^verbatim>\<open>next\<close> cycle that misses the start, so the walk takes fuel: \<open>None\<close> is "does not
  return", \<open>Some False\<close> the NULL result.\<close>

fun list_check_walk :: "nat \<Rightarrow> lheap \<Rightarrow> addr \<Rightarrow> addr \<Rightarrow> addr \<Rightarrow> bool option" where
  "list_check_walk 0 H node p n = None"
| "list_check_walk (Suc fuel) H node p n =
     (if n \<noteq> node
      then (if prv H n \<noteq> p then Some False else list_check_walk fuel H node n (nxt H n))
      else Some (prv H node = p))"

definition list_check_node :: "nat \<Rightarrow> lheap \<Rightarrow> addr \<Rightarrow> bool option" where
  "list_check_node fuel H node = list_check_walk fuel H node node (nxt H node)"

section \<open>Chains of nodes\<close>

text \<open>Consecutive addresses are linked in both directions.\<close>

fun linked :: "lheap \<Rightarrow> addr list \<Rightarrow> bool" where
  "linked H (a # b # r) = (nxt H a = b \<and> prv H b = a \<and> linked H (b # r))"
| "linked H _ = True"

text \<open>The head \<open>h\<close> heads a list whose nodes are \<open>xs\<close>, in order.\<close>

definition is_list :: "lheap \<Rightarrow> addr \<Rightarrow> addr list \<Rightarrow> bool" where
  "is_list H h xs \<longleftrightarrow> distinct (h # xs) \<and> linked H (h # xs @ [h])"

lemma linked_append:
  "linked H (as @ x # bs) \<longleftrightarrow> linked H (as @ [x]) \<and> linked H (x # bs)"
proof (induction as)
  case Nil
  then show ?case by simp
next
  case (Cons a as)
  then show ?case by (cases as) auto
qed

lemma linked_cong:
  assumes "\<And>a. a \<in> set (butlast xs) \<Longrightarrow> nxt H a = nxt H' a"
    and "\<And>a. a \<in> set (tl xs) \<Longrightarrow> prv H a = prv H' a"
  shows "linked H xs = linked H' xs"
  using assms
proof (induction xs rule: induct_list012)
  case (3 a b r)
  have "linked H (b # r) = linked H' (b # r)"
    by (rule "3.IH"(2)) (rule "3.prems", simp, rule "3.prems", simp add: list.set_sel(2))
  with "3.prems"(1) [of a] "3.prems"(2) [of b] show ?case by simp
qed simp_all

lemma is_list_nxt_head: "is_list H h xs \<Longrightarrow> nxt H h = hd (xs @ [h])"
  by (cases xs) (auto simp: is_list_def)

lemma is_list_prv_head: "is_list H h xs \<Longrightarrow> prv H h = last (h # xs)"
proof -
  assume l: "is_list H h xs"
  obtain bs p where p: "h # xs = bs @ [p]" by (metis rev_exhaust list.discI)
  have "linked H ((h # xs) @ [h])" using l by (simp add: is_list_def)
  then have "linked H (bs @ p # [h])" by (simp add: p)
  then have "linked H (p # [h])" using linked_append by blast
  with p show ?thesis by simp
qed

lemma is_list_update:
  assumes l: "is_list H h xs"
    and n: "\<And>a. a \<in> set (h # xs) \<Longrightarrow> nxt H' a = nxt H a"
    and p: "\<And>a. a \<in> set (h # xs) \<Longrightarrow> prv H' a = prv H a"
  shows "is_list H' h xs"
proof -
  have "linked H (h # xs @ [h]) = linked H' (h # xs @ [h])"
  proof (rule linked_cong)
    fix a
    assume "a \<in> set (butlast (h # xs @ [h]))"
    then have "a \<in> set (h # xs)" by (simp add: butlast_append split: if_splits)
    then show "nxt H a = nxt H' a" using n by simp
  next
    fix a
    assume "a \<in> set (tl (h # xs @ [h]))"
    then have "a \<in> set (h # xs)" by auto
    then show "prv H a = prv H' a" using p by simp
  qed
  with l show ?thesis by (simp add: is_list_def)
qed

section \<open>The operations on chains\<close>

lemmas lheap_simps = set_next_def set_prev_def Let_def

lemma is_list_init: "is_list (list_head_init h H) h []"
  by (simp add: is_list_def list_head_init_def lheap_simps)

lemma is_list_empty: "is_list H h xs \<Longrightarrow> list_empty h H \<longleftrightarrow> xs = []"
  by (cases xs) (auto simp: list_empty_def is_list_def)

lemma is_list_add:
  assumes l: "is_list H h xs" and n: "n \<notin> set (h # xs)"
  shows "is_list (list_add h n H) h (n # xs)"
proof -
  define q where "q = nxt H h"
  obtain rs where q: "xs @ [h] = q # rs"
    using is_list_nxt_head [OF l] by (cases "xs @ [h]") (auto simp: q_def)
  define H' where "H' = list_add h n H"
  have d: "distinct (h # xs)" "linked H (xs @ [h])"
    using l q by (auto simp: is_list_def)
  have rs: "q \<notin> set rs" "n \<notin> set rs" "q \<noteq> n"
    using d(1) n q by (cases xs; auto)+
  have H': "nxt H' = (nxt H)(n := q, h := n)" "prv H' = (prv H)(n := h, q := n)"
    using n rs by (simp_all add: H'_def list_add_def lheap_simps q_def)
  have "linked H (q # rs) = linked H' (q # rs)"
  proof (rule linked_cong)
    fix a
    assume "a \<in> set (butlast (q # rs))"
    then have "a \<in> set xs" by (simp flip: q)
    then show "nxt H a = nxt H' a" using d n by (auto simp: H')
  next
    fix a
    assume "a \<in> set (tl (q # rs))"
    then show "prv H a = prv H' a" using rs by (auto simp: H')
  qed
  moreover have "nxt H' h = n" "prv H' n = h" "nxt H' n = q" "prv H' q = n"
    using rs n by (auto simp: H')
  ultimately have "linked H' (h # n # q # rs)" using d q by simp
  then show ?thesis using n d by (auto simp: is_list_def H'_def q [symmetric])
qed

lemma is_list_add_tail:
  assumes l: "is_list H h xs" and n: "n \<notin> set (h # xs)"
  shows "is_list (list_add_tail h n H) h (xs @ [n])"
proof -
  define p where "p = prv H h"
  obtain bs where p: "h # xs = bs @ [p]"
    using is_list_prv_head [OF l] by (metis append_butlast_last_id list.discI p_def)
  define H' where "H' = list_add_tail h n H"
  have dl: "distinct (h # xs)" using l by (simp add: is_list_def)
  then have d: "distinct (bs @ [p])" "h \<notin> set xs" by (simp only: p, simp)
  have "n \<notin> set (bs @ [p])" using n unfolding p by simp
  with n have b: "n \<notin> set bs" "n \<noteq> p" "n \<noteq> h" by auto
  have H': "nxt H' = (nxt H)(n := h, p := n)" "prv H' = (prv H)(n := p, h := n)"
    using b by (simp_all add: H'_def list_add_tail_def lheap_simps p_def fun_upd_twist)
  have "linked H ((h # xs) @ [h])" using l by (simp add: is_list_def)
  then have "linked H (bs @ p # [h])" by (simp only: p append.assoc append.simps)
  then have "linked H (bs @ [p])" using linked_append by blast
  moreover have "linked H (bs @ [p]) = linked H' (bs @ [p])"
  proof (rule linked_cong)
    fix a
    assume "a \<in> set (butlast (bs @ [p]))"
    then show "nxt H a = nxt H' a" using d b by (auto simp: H')
  next
    fix a
    assume "a \<in> set (tl (bs @ [p]))"
    then have "a \<in> set (tl (h # xs))" by (simp only: p)
    then have "a \<in> set xs" by simp
    then show "prv H a = prv H' a" using d n by (auto simp: H')
  qed
  moreover have "linked H' (p # [n, h])" using b by (simp add: H')
  ultimately have "linked H' (bs @ p # [n, h])" using linked_append by blast
  then have "linked H' ((h # xs) @ [n, h])" by (simp only: p append.assoc append.simps)
  then show ?thesis using n l by (auto simp: is_list_def H'_def)
qed

lemma is_list_del:
  assumes l: "is_list H h (as @ n # bs)"
  shows "is_list (list_del n H) h (as @ bs)"
proof -
  define a where "a = last (h # as)"
  define b where "b = hd (bs @ [h])"
  obtain as' where a: "h # as = as' @ [a]" by (metis a_def append_butlast_last_id list.discI)
  obtain bs' where b: "bs @ [h] = b # bs'" by (cases "bs @ [h]") (auto simp: b_def)
  define H' where "H' = list_del n H"
  have d: "distinct (h # as @ n # bs)" using l by (simp add: is_list_def)
  have "linked H ((h # as) @ n # (bs @ [h]))" using l by (simp add: is_list_def)
  then have "linked H (as' @ a # n # b # bs')" by (simp only: a b append.assoc append.simps)
  then have lk: "linked H (as' @ [a])" "linked H (b # bs')"
    and ends: "nxt H a = n" "prv H n = a" "nxt H n = b" "prv H b = n"
    using linked_append [of H as' a "n # b # bs'"] by simp_all
  have ab: "a \<in> set (h # as)" "b \<in> set (bs @ [h])"
    unfolding a_def b_def by (rule last_in_set, simp) (rule hd_in_set, simp)
  with d have nb: "n \<noteq> b" "b \<notin> set as" "a \<notin> set bs" by auto
  have "distinct (h # as)" "distinct (bs @ [h])" using d by auto
  then have da: "a \<notin> set as'" "b \<notin> set bs'" unfolding a b by simp_all
  note da = da nb(2,3)
  have H': "nxt H' = (nxt H)(a := b)" "prv H' = (prv H)(b := a)"
    using ends nb by (simp_all add: H'_def list_del_def lheap_simps)
  have "linked H (as' @ [a]) = linked H' (as' @ [a])"
  proof (rule linked_cong)
    fix x
    assume "x \<in> set (butlast (as' @ [a]))"
    then show "nxt H x = nxt H' x" using da by (auto simp: H')
  next
    fix x
    assume "x \<in> set (tl (as' @ [a]))"
    then have "x \<in> set (tl (h # as))" by (simp only: a)
    then have "x \<in> set as" by simp
    then show "prv H x = prv H' x" using da by (auto simp: H')
  qed
  moreover have "linked H (b # bs') = linked H' (b # bs')"
  proof (rule linked_cong)
    fix x
    assume "x \<in> set (butlast (b # bs'))"
    then have "x \<in> set (butlast (bs @ [h]))" by (simp only: b)
    then have "x \<in> set bs" by simp
    then show "nxt H x = nxt H' x" using da by (auto simp: H')
  next
    fix x
    assume "x \<in> set (tl (b # bs'))"
    then show "prv H x = prv H' x" using da by (auto simp: H')
  qed
  ultimately have "linked H' (as' @ a # b # bs')"
    using lk linked_append [of H' as' a "b # bs'"] by (simp add: H')
  then have "linked H' ((h # as) @ bs @ [h])" by (simp only: a b append.assoc append.simps)
  then show ?thesis using d by (auto simp: is_list_def H'_def)
qed

lemma is_list_pop:
  "is_list H h xs \<Longrightarrow>
     (case xs of [] \<Rightarrow> list_pop h H = (None, H)
      | x # ys \<Rightarrow> fst (list_pop h H) = Some x \<and> is_list (snd (list_pop h H)) h ys)"
proof (cases xs)
  case Nil
  assume "is_list H h xs"
  with Nil show ?thesis by (simp add: list_pop_def is_list_empty)
next
  case (Cons x ys)
  assume l: "is_list H h xs"
  with Cons have "\<not> list_empty h H" "nxt H h = x"
    by (auto simp: is_list_empty is_list_nxt_head)
  moreover have "is_list (list_del x H) h ([] @ ys)"
    using l Cons by (intro is_list_del) simp
  ultimately show ?thesis using Cons by (simp add: list_pop_def Let_def)
qed

lemma is_list_top: "is_list H h xs \<Longrightarrow> list_top h H = (case xs of [] \<Rightarrow> None | x # _ \<Rightarrow> Some x)"
  by (auto simp: list_top_def is_list_empty is_list_nxt_head split: list.splits)

lemma is_list_tail: "is_list H h xs \<Longrightarrow> list_tail h H = (if xs = [] then None else Some (last xs))"
  by (auto simp: list_tail_def is_list_empty is_list_prv_head)

text \<open>An operation on one list leaves every list on other nodes as it was.\<close>

lemma is_list_set_frame:
  assumes "is_list H g ys" and "a \<notin> set (g # ys)"
  shows "is_list (set_next a v H) g ys" and "is_list (set_prev a v H) g ys"
  using assms by (auto intro!: is_list_update [OF assms(1)] simp: lheap_simps)

lemma is_list_ends:
  assumes "is_list H h xs"
  shows "nxt H h \<in> set (h # xs)" and "prv H h \<in> set (h # xs)"
  using is_list_nxt_head [OF assms] is_list_prv_head [OF assms]
  by (cases xs; auto split: if_splits)+

lemma is_list_add_tail_frame:
  assumes "is_list H h xs" and "is_list H g ys" and "set (h # xs) \<inter> set (g # ys) = {}"
    and "n \<notin> set (g # ys)"
  shows "is_list (list_add_tail h n H) g ys"
proof -
  have "prv H h \<notin> set (g # ys)" "h \<notin> set (g # ys)"
    using is_list_ends [OF assms(1)] assms(3) by auto
  with assms(2,4) show ?thesis
    unfolding list_add_tail_def Let_def
    by (intro is_list_set_frame) (auto simp: set_next_def set_prev_def)
qed

lemma is_list_add_frame:
  assumes "is_list H h xs" and "is_list H g ys" and "set (h # xs) \<inter> set (g # ys) = {}"
    and "n \<notin> set (g # ys)"
  shows "is_list (list_add h n H) g ys"
proof -
  have "nxt H h \<notin> set (g # ys)" "h \<notin> set (g # ys)"
    using is_list_ends [OF assms(1)] assms(3) by auto
  with assms(2,4) show ?thesis
    unfolding list_add_def Let_def
    by (intro is_list_set_frame) (auto simp: set_next_def set_prev_def)
qed

lemma is_list_node_ends:
  assumes "is_list H h (as @ n # bs)"
  shows "prv H n = last (h # as)" and "nxt H n = hd (bs @ [h])"
proof -
  obtain as' where a: "h # as = as' @ [last (h # as)]"
    by (metis append_butlast_last_id list.discI)
  obtain b bs' where b: "bs @ [h] = b # bs'" by (cases "bs @ [h]") auto
  have "linked H ((h # as) @ n # (bs @ [h]))" using assms by (simp add: is_list_def)
  then have "linked H (as' @ last (h # as) # n # b # bs')"
    by (subst (asm) a, subst (asm) b) simp
  then have "prv H n = last (h # as) \<and> nxt H n = b"
    using linked_append [of H as' "last (h # as)" "n # b # bs'"] by simp
  then show "prv H n = last (h # as)" and "nxt H n = hd (bs @ [h])" using b by auto
qed

lemma is_list_del_frame:
  assumes "is_list H h (as @ n # bs)" and "is_list H g ys"
    and "set (h # as @ n # bs) \<inter> set (g # ys) = {}"
  shows "is_list (list_del n H) g ys"
proof -
  have "prv H n \<in> set (h # as)" "nxt H n \<in> set (bs @ [h])"
    using is_list_node_ends [OF assms(1)] last_in_set [of "h # as"] hd_in_set [of "bs @ [h]"]
    by auto
  then have "prv H n \<notin> set (g # ys)" "nxt H n \<notin> set (g # ys)" using assms(3) by auto
  with assms(2) show ?thesis
    unfolding list_del_def Let_def
    by (intro is_list_set_frame) (auto simp: set_next_def set_prev_def)
qed

lemma is_list_append_list:
  assumes t: "is_list H to xs" and f: "is_list H from ys"
    and dj: "set (to # xs) \<inter> set (from # ys) = {}"
  shows "is_list (list_append_list to from H) to (xs @ ys)"
    and "is_list (list_append_list to from H) from []"
proof -
  define p where "p = prv H to"
  define q where "q = prv H from"
  obtain as' where p: "to # xs = as' @ [p]"
    using is_list_prv_head [OF t] by (metis append_butlast_last_id list.discI p_def)
  obtain bs' where q: "from # ys = bs' @ [q]"
    using is_list_prv_head [OF f] by (metis append_butlast_last_id list.discI q_def)
  define H1 where "H1 = set_prev from p (set_next p from (set_next q to (set_prev to q H)))"
  have dt: "distinct (to # xs)" "distinct (from # ys)" using t f by (auto simp: is_list_def)
  then have d: "distinct (as' @ [p])" "distinct (bs' @ [q])" unfolding p q by auto
  have "set (as' @ [p]) \<inter> set (bs' @ [q]) = {}" using dj unfolding p q .
  then have cross: "p \<notin> set bs'" "q \<notin> set as'" "p \<noteq> q" by auto
  have H1: "nxt H1 = (nxt H)(q := to, p := from)" "prv H1 = (prv H)(to := q, from := p)"
    by (simp_all add: H1_def lheap_simps)
  have "linked H ((to # xs) @ [to])" "linked H ((from # ys) @ [from])"
    using t f by (simp_all add: is_list_def)
  then have "linked H (as' @ p # [to])" "linked H (bs' @ q # [from])"
    by (simp_all only: p q append.assoc append.simps)
  then have "linked H (as' @ [p])" "linked H (bs' @ [q])" using linked_append by blast+
  moreover have "linked H (as' @ [p]) = linked H1 (as' @ [p])"
  proof (rule linked_cong)
    fix a
    assume "a \<in> set (butlast (as' @ [p]))"
    then show "nxt H a = nxt H1 a" using d cross by (auto simp: H1)
  next
    fix a
    assume "a \<in> set (tl (as' @ [p]))"
    then have "a \<in> set (tl (to # xs))" by (simp only: p)
    then show "prv H a = prv H1 a" using dt dj by (auto simp: H1)
  qed
  moreover have "linked H (bs' @ [q]) = linked H1 (bs' @ [q])"
  proof (rule linked_cong)
    fix a
    assume "a \<in> set (butlast (bs' @ [q]))"
    then show "nxt H a = nxt H1 a" using d cross by (auto simp: H1)
  next
    fix a
    assume "a \<in> set (tl (bs' @ [q]))"
    then have "a \<in> set (tl (from # ys))" by (simp only: q)
    then show "prv H a = prv H1 a" using dt dj by (auto simp: H1)
  qed
  ultimately have l1: "linked H1 (as' @ [p])" "linked H1 (bs' @ [q])" by auto
  have "to \<noteq> from" using dj by auto
  then have ends: "nxt H1 p = from" "prv H1 from = p" "nxt H1 q = to" "prv H1 to = q"
    using cross by (simp_all add: H1)
  have "linked H1 (q # [to])" using ends by simp
  then have "linked H1 (bs' @ q # [to])" using l1(2) linked_append by blast
  then have "linked H1 ((from # ys) @ [to])" by (simp only: q append.assoc append.simps)
  then have "linked H1 (p # from # ys @ [to])" using ends by simp
  then have "linked H1 (as' @ p # from # ys @ [to])" using l1(1) linked_append by blast
  then have "linked H1 ((to # xs) @ from # ys @ [to])" by (simp only: p append.assoc append.simps)
  then have "is_list H1 to (xs @ from # ys)" using dt dj by (auto simp: is_list_def)
  then have del: "is_list (list_del from H1) to (xs @ ys)" by (rule is_list_del)
  have eq: "list_append_list to from H = list_head_init from (list_del from H1)"
    by (simp add: list_append_list_def Let_def H1_def p_def q_def)
  show "is_list (list_append_list to from H) from []" by (simp add: eq is_list_init)
  have "from \<notin> set (to # xs @ ys)" using dt dj by auto
  with del show "is_list (list_append_list to from H) to (xs @ ys)"
    unfolding eq list_head_init_def Let_def by (intro is_list_set_frame) auto
qed

section \<open>The consistency check\<close>

lemma list_check_walk_linked:
  assumes "linked H (p # xs @ [node])" and "node \<notin> set xs" and "length xs < fuel"
  shows "list_check_walk fuel H node p (hd (xs @ [node])) = Some True"
  using assms
proof (induction xs arbitrary: p fuel)
  case Nil
  then show ?case by (cases fuel) auto
next
  case (Cons x xs)
  then obtain f where f: "fuel = Suc f" "length xs < f" by (cases fuel) auto
  from Cons.prems have "linked H (x # xs @ [node])" by simp
  moreover from this have "nxt H x = hd (xs @ [node])" by (cases xs) auto
  ultimately show ?case using Cons f by auto
qed

lemma list_check_node_complete:
  assumes "is_list H h xs" and "length xs < fuel"
  shows "list_check_node fuel H h = Some True"
  using list_check_walk_linked [of H h xs h fuel] is_list_nxt_head [OF assms(1)] assms
  by (auto simp: list_check_node_def is_list_def)

text \<open>A walk that answers yes has seen every link of the cycle in both directions.\<close>

lemma list_check_walk_sound:
  assumes "list_check_walk fuel H node p n = Some True" and "nxt H p = n"
  shows "\<exists>xs. node \<notin> set xs \<and> linked H (p # xs @ [node])"
  using assms
proof (induction fuel arbitrary: p n)
  case 0
  then show ?case by simp
next
  case (Suc fuel)
  show ?case
  proof (cases "n = node")
    case True
    with Suc.prems have "linked H (p # [] @ [node])" by simp
    then show ?thesis by (metis empty_iff list.set(1))
  next
    case False
    with Suc.prems have "prv H n = p" and w: "list_check_walk fuel H node n (nxt H n) = Some True"
      by (auto split: if_splits)
    from Suc.IH [OF w refl] obtain xs where "node \<notin> set xs" "linked H (n # xs @ [node])" by blast
    with False Suc.prems(2) \<open>prv H n = p\<close>
    have "node \<notin> set (n # xs)" "linked H (p # (n # xs) @ [node])" by auto
    then show ?thesis by blast
  qed
qed

section \<open>The interface clients rely on\<close>

locale intrusive_list =
  fixes rep :: "'h \<Rightarrow> addr \<Rightarrow> addr list \<Rightarrow> bool"
    and init :: "addr \<Rightarrow> 'h \<Rightarrow> 'h"
    and add :: "addr \<Rightarrow> addr \<Rightarrow> 'h \<Rightarrow> 'h"
    and add_tail :: "addr \<Rightarrow> addr \<Rightarrow> 'h \<Rightarrow> 'h"
    and del :: "addr \<Rightarrow> 'h \<Rightarrow> 'h"
    and pop :: "addr \<Rightarrow> 'h \<Rightarrow> addr option \<times> 'h"
    and top :: "addr \<Rightarrow> 'h \<Rightarrow> addr option"
    and is_empty :: "addr \<Rightarrow> 'h \<Rightarrow> bool"
    and splice :: "addr \<Rightarrow> addr \<Rightarrow> 'h \<Rightarrow> 'h"
  assumes rep_init: "rep (init h H) h []"
    and rep_distinct: "rep H h xs \<Longrightarrow> distinct (h # xs)"
    and rep_add: "rep H h xs \<Longrightarrow> n \<notin> set (h # xs) \<Longrightarrow> rep (add h n H) h (n # xs)"
    and rep_add_tail: "rep H h xs \<Longrightarrow> n \<notin> set (h # xs) \<Longrightarrow> rep (add_tail h n H) h (xs @ [n])"
    and rep_del: "rep H h (as @ n # bs) \<Longrightarrow> rep (del n H) h (as @ bs)"
    and pop_Nil: "rep H h [] \<Longrightarrow> pop h H = (None, H)"
    and pop_Cons: "rep H h (x # xs) \<Longrightarrow> fst (pop h H) = Some x \<and> rep (snd (pop h H)) h xs"
    and top_rep: "rep H h xs \<Longrightarrow> top h H = (case xs of [] \<Rightarrow> None | x # _ \<Rightarrow> Some x)"
    and empty_rep: "rep H h xs \<Longrightarrow> is_empty h H \<longleftrightarrow> xs = []"
    and rep_splice: "rep H to xs \<Longrightarrow> rep H from ys \<Longrightarrow> set (to # xs) \<inter> set (from # ys) = {} \<Longrightarrow>
          rep (splice to from H) to (xs @ ys) \<and> rep (splice to from H) from []"
begin

text \<open>Nodes queued with \<open>add_tail\<close> leave with \<open>pop\<close> in arrival order; \<open>pops\<close> is the
  loop that pops until NULL.\<close>

fun pops :: "nat \<Rightarrow> addr \<Rightarrow> 'h \<Rightarrow> addr list \<times> 'h" where
  "pops 0 h H = ([], H)"
| "pops (Suc k) h H =
     (case pop h H of (None, H') \<Rightarrow> ([], H')
      | (Some x, H') \<Rightarrow> (let (ys, H'') = pops k h H' in (x # ys, H'')))"

lemma pops_all:
  "rep H h xs \<Longrightarrow> length xs < k \<Longrightarrow> \<exists>H'. pops k h H = (xs, H') \<and> rep H' h []"
proof (induction xs arbitrary: k H)
  case Nil
  then show ?case by (cases k) (auto simp: pop_Nil)
next
  case (Cons x xs)
  then obtain j where j: "k = Suc j" "length xs < j" by (cases k) auto
  obtain r H1 where r: "pop h H = (r, H1)" by force
  from pop_Cons [OF Cons.prems(1)] r have "r = Some x" "rep H1 h xs" by auto
  with Cons.IH [OF this(2) j(2)] r j(1) show ?case by auto
qed

lemma add_tail_all:
  "rep H h xs \<Longrightarrow> distinct (ns @ h # xs) \<Longrightarrow> rep (fold (add_tail h) ns H) h (xs @ ns)"
proof (induction ns arbitrary: xs H)
  case Nil
  then show ?case by simp
next
  case (Cons n ns)
  then have "rep (add_tail h n H) h (xs @ [n])" by (intro rep_add_tail) auto
  from Cons.IH [OF this] Cons.prems(2) show ?case by auto
qed

lemma fifo:
  assumes "rep H h []" and "distinct (h # ns)"
  shows "\<exists>H'. pops (Suc (length ns)) h (fold (add_tail h) ns H) = (ns, H') \<and> rep H' h []"
  using add_tail_all [OF assms(1), of ns] assms(2) pops_all [of _ h ns "Suc (length ns)"] by auto

lemma broadcast_order:
  assumes "rep H to []" and "rep H from ys" and "to \<notin> set (from # ys)"
  shows "\<exists>H'. pops (Suc (length ys)) to (splice to from H) = (ys, H')"
  using rep_splice [OF assms(1,2)] assms(3) pops_all [of _ to ys "Suc (length ys)"] by auto

end

interpretation lh: intrusive_list is_list list_head_init list_add list_add_tail list_del
  list_pop list_top list_empty list_append_list
proof unfold_locales
  show "is_list H h [] \<Longrightarrow> list_pop h H = (None, H)" for H h
    using is_list_pop [of H h "[]"] by simp
  show "is_list H h (x # xs) \<Longrightarrow> fst (list_pop h H) = Some x \<and> is_list (snd (list_pop h H)) h xs"
    for H h x xs
    using is_list_pop [of H h "x # xs"] by simp
  show "is_list H h xs \<Longrightarrow> distinct (h # xs)" for H h xs by (simp add: is_list_def)
  show "is_list (list_append_list to from H) to (xs @ ys) \<and> is_list (list_append_list to from H) from []"
    if "is_list H to xs" "is_list H from ys" "set (to # xs) \<inter> set (from # ys) = {}"
    for H to xs "from" ys
    using is_list_append_list [OF that] by blast
qed (auto intro: is_list_init is_list_add is_list_add_tail is_list_del
    simp: is_list_top is_list_empty)

end
