(* ===== verification/Dbl.thy ===== *)
theory Dbl
  imports Complex_Main Prelude
begin

text \<open>
  The C \<^verbatim>\<open>double\<close>s of the controllers. Finite values are exact reals (rounding is not
  modelled); the special values of IEEE 754 are kept, because the controllers divide by measured
  quantities that can be zero: \<open>0 / 0\<close> is not-a-number, every comparison with which is false,
  and not-a-number propagates through arithmetic.
\<close>

datatype dbl = Fin real | PInf | NInf | NaN

fun dbl_neg :: "dbl \<Rightarrow> dbl" where
  "dbl_neg (Fin a) = Fin (- a)"
| "dbl_neg PInf = NInf"
| "dbl_neg NInf = PInf"
| "dbl_neg NaN = NaN"

fun dbl_add :: "dbl \<Rightarrow> dbl \<Rightarrow> dbl" where
  "dbl_add (Fin a) (Fin b) = Fin (a + b)"
| "dbl_add NaN _ = NaN"
| "dbl_add _ NaN = NaN"
| "dbl_add PInf NInf = NaN"
| "dbl_add NInf PInf = NaN"
| "dbl_add PInf _ = PInf"
| "dbl_add NInf _ = NInf"
| "dbl_add _ PInf = PInf"
| "dbl_add _ NInf = NInf"

definition dbl_sub :: "dbl \<Rightarrow> dbl \<Rightarrow> dbl" where
  "dbl_sub a b = dbl_add a (dbl_neg b)"

definition dbl_inf_sgn :: "real \<Rightarrow> dbl" where
  "dbl_inf_sgn s = (if s > 0 then PInf else if s < 0 then NInf else NaN)"

fun dbl_sgn :: "dbl \<Rightarrow> real" where
  "dbl_sgn (Fin a) = sgn a"
| "dbl_sgn PInf = 1"
| "dbl_sgn NInf = -1"
| "dbl_sgn NaN = 0"

fun dbl_mul :: "dbl \<Rightarrow> dbl \<Rightarrow> dbl" where
  "dbl_mul (Fin a) (Fin b) = Fin (a * b)"
| "dbl_mul a b = dbl_inf_sgn (dbl_sgn a * dbl_sgn b)"

text \<open>The zeros the controllers divide by are non-negative counters, so a zero divisor is
  \<open>+0\<close>.\<close>

fun dbl_div :: "dbl \<Rightarrow> dbl \<Rightarrow> dbl" where
  "dbl_div (Fin a) (Fin b) = (if b = 0 then dbl_inf_sgn a else Fin (a / b))"
| "dbl_div NaN _ = NaN"
| "dbl_div _ NaN = NaN"
| "dbl_div (Fin a) _ = Fin 0"
| "dbl_div PInf (Fin b) = (if b < 0 then NInf else PInf)"
| "dbl_div NInf (Fin b) = (if b < 0 then PInf else NInf)"
| "dbl_div _ _ = NaN"

fun dbl_lt :: "dbl \<Rightarrow> dbl \<Rightarrow> bool" where
  "dbl_lt (Fin a) (Fin b) = (a < b)"
| "dbl_lt NaN _ = False"
| "dbl_lt _ NaN = False"
| "dbl_lt NInf NInf = False"
| "dbl_lt NInf _ = True"
| "dbl_lt PInf _ = False"
| "dbl_lt _ PInf = True"
| "dbl_lt _ _ = False"

text \<open>\<^verbatim>\<open>std::min(a, b)\<close> is \<^verbatim>\<open>(b < a) ? b : a\<close>.\<close>

definition dbl_min :: "dbl \<Rightarrow> dbl \<Rightarrow> dbl" where
  "dbl_min a b = (if dbl_lt b a then b else a)"

definition dbl_of_u64 :: "u64 \<Rightarrow> dbl" where
  "dbl_of_u64 w = Fin (real (unat w))"

definition dbl_of_u32 :: "u32 \<Rightarrow> dbl" where
  "dbl_of_u32 w = Fin (real (unat w))"

fun dbl_sqrt :: "dbl \<Rightarrow> dbl" where
  "dbl_sqrt (Fin a) = (if a < 0 then NaN else Fin (sqrt a))"
| "dbl_sqrt PInf = PInf"
| "dbl_sqrt _ = NaN"

fun dbl_exp :: "dbl \<Rightarrow> dbl" where
  "dbl_exp (Fin a) = Fin (exp a)"
| "dbl_exp PInf = PInf"
| "dbl_exp NInf = Fin 0"
| "dbl_exp NaN = NaN"

lemma dbl_nan_simps [simp]:
  "dbl_add NaN a = NaN" "dbl_add a NaN = NaN" "dbl_mul NaN a = NaN" "dbl_mul a NaN = NaN"
  "dbl_sub NaN a = NaN" "dbl_sub a NaN = NaN" "dbl_div NaN a = NaN" "dbl_div a NaN = NaN"
  "\<not> dbl_lt NaN a" "\<not> dbl_lt a NaN"
  by (cases a; simp add: dbl_sub_def dbl_inf_sgn_def)+

lemma dbl_lt_irrefl [simp]: "\<not> dbl_lt a a"
  by (cases a) auto

lemma dbl_lt_trans: "dbl_lt a b \<Longrightarrow> dbl_lt b c \<Longrightarrow> dbl_lt a c"
  by (cases a; cases b; cases c) auto

lemma dbl_lt_asym: "dbl_lt a b \<Longrightarrow> \<not> dbl_lt b a"
  using dbl_lt_trans dbl_lt_irrefl by blast

lemma dbl_not_lt_trans:
  "b \<noteq> NaN \<Longrightarrow> \<not> dbl_lt b a \<Longrightarrow> \<not> dbl_lt c b \<Longrightarrow> \<not> dbl_lt c a"
  by (cases a; cases b; cases c) auto

end
