(* ===== verification/Mem_Semaphore.thy ===== *)
theory Mem_Semaphore
  imports Dbl List_Head
begin

text \<open>
  The memory semaphore of \<^verbatim>\<open>m-semaphore/\<close>: a counting semaphore whose capacity is adjusted
  while it is in use. Both implementations of the interface \<^verbatim>\<open>MemSemaphoreImpl\<close>
  (\<^verbatim>\<open>m_semaphore_mab_eg_impl.cpp\<close>, epsilon greedy, and
  \<^verbatim>\<open>m_semaphore_mab_ts_impl.cpp\<close>, Thompson sampling) have the same text for
  \<^verbatim>\<open>TryWait\<close>, \<^verbatim>\<open>Wait\<close> and \<^verbatim>\<open>Post\<close> and differ in
  \<^verbatim>\<open>UpdateCapacity\<close>; the operations therefore take the capacity update as an argument, and
  the locale \<open>capacity_policy\<close> states what they rely on.

  All operations run under \<^verbatim>\<open>m_spin\<close>, so each is one atomic step. Readings of the clock,
  of the time-stamp counter, of the memory-access counter and of \<^verbatim>\<open>rand()\<close> are inputs.
\<close>

record waiter =
  w_th :: nat
  w_enque_tsc :: u64

text \<open>The fields both implementations share; \<open>m_policy\<close> holds the fields of one of them.\<close>

record 'p msem =
  m_cap :: u32
  m_count :: u32
  m_max_cap :: u32
  m_max_membw :: dbl
  m_last_bytes :: u64
  m_last_time :: u64
  m_waiters :: "waiter list"
  m_num_waiters :: u64
  m_oldest_tsc :: u64
  m_policy :: 'p

datatype msem_event = ThreadReady nat | AccQdel nat u64

definition UINT64_MAX :: u64 where
  "UINT64_MAX = NOT 0"

definition CTL_DELAY_US :: u64 where
  "CTL_DELAY_US = 500"

section \<open>Operations\<close>

text \<open>The oldest waiter's enqueue time, as \<^verbatim>\<open>Wait\<close> and \<^verbatim>\<open>Post\<close> recompute it after
  a pop.\<close>

definition msem_oldest :: "waiter list \<Rightarrow> u64" where
  "msem_oldest ws = (case ws of [] \<Rightarrow> UINT64_MAX | w # _ \<Rightarrow> w_enque_tsc w)"

text \<open>Pop the head of the queue, account its delay and make it ready.\<close>

definition msem_wake :: "u64 \<Rightarrow> waiter \<Rightarrow> waiter list \<Rightarrow> 'p msem \<Rightarrow> msem_event list \<times> 'p msem" where
  "msem_wake now w ws m =
     ([AccQdel (w_th w) (now - w_enque_tsc w), ThreadReady (w_th w)],
      m\<lparr>m_waiters := ws, m_num_waiters := m_num_waiters m - 1, m_oldest_tsc := msem_oldest ws\<rparr>)"

definition msem_TryWait :: "('p msem \<Rightarrow> 'p msem) \<Rightarrow> 'p msem \<Rightarrow> bool \<times> 'p msem" where
  "msem_TryWait upd m =
     (let m = upd m
      in if m_count m < m_cap m then (True, m\<lparr>m_count := m_count m + 1\<rparr>) else (False, m))"

text \<open>The loop of \<^verbatim>\<open>Wait\<close> that serves older waiters first; \<open>tsc i\<close> is the \<open>i\<close>-th
  reading of the time-stamp counter.\<close>

function msem_serve :: "(nat \<Rightarrow> u64) \<Rightarrow> nat \<Rightarrow> 'p msem \<Rightarrow> msem_event list \<times> 'p msem" where
  "msem_serve tsc i m =
     (case m_waiters m of
        [] \<Rightarrow> ([], m)
      | w # ws \<Rightarrow>
          if m_count m < m_cap m
          then let (ev, m) = msem_wake (tsc i) w ws m;
                   (evs, m) = msem_serve tsc (Suc i) (m\<lparr>m_count := m_count m + 1\<rparr>)
               in (ev @ evs, m)
          else ([], m))"
  by pat_completeness auto
termination
  by (relation "measure (\<lambda>(tsc, i, m). length (m_waiters m))") (auto simp: msem_wake_def)

declare msem_serve.simps [simp del]

text \<open>\<^verbatim>\<open>Wait\<close> returns at once (\<open>True\<close>) or parks the calling thread (\<open>False\<close>).\<close>

definition msem_Wait ::
  "('p msem \<Rightarrow> 'p msem) \<Rightarrow> (nat \<Rightarrow> u64) \<Rightarrow> u64 \<Rightarrow> nat \<Rightarrow> 'p msem \<Rightarrow> bool \<times> msem_event list \<times> 'p msem"
where
  "msem_Wait upd tsc enq_tsc self m =
     (let m = upd m;
          (evs, m) = msem_serve tsc 0 m
      in if m_count m < m_cap m then (True, evs, m\<lparr>m_count := m_count m + 1\<rparr>)
         else let is_first = (m_waiters m = []);
                  m = m\<lparr>m_waiters := m_waiters m @ [\<lparr>w_th = self, w_enque_tsc = enq_tsc\<rparr>],
                        m_num_waiters := m_num_waiters m + 1\<rparr>;
                  m = (if is_first then m\<lparr>m_oldest_tsc := enq_tsc\<rparr> else m)
              in (False, evs, m))"

definition msem_Post :: "('p msem \<Rightarrow> 'p msem) \<Rightarrow> u64 \<Rightarrow> 'p msem \<Rightarrow> msem_event list \<times> 'p msem" where
  "msem_Post upd now m =
     (let m = upd m
      in case m_waiters m of
           [] \<Rightarrow> ([], m\<lparr>m_count := m_count m - 1\<rparr>)
         | w # ws \<Rightarrow>
             if m_count m > m_cap m then ([], m\<lparr>m_count := m_count m - 1\<rparr>)
             else msem_wake now w ws m)"

definition msem_QueueDelayTsc :: "u64 \<Rightarrow> 'p msem \<Rightarrow> u64" where
  "msem_QueueDelayTsc cur_tsc m =
     (if cur_tsc < m_oldest_tsc m then 0 else cur_tsc - m_oldest_tsc m)"

definition msem_QueueLength :: "'p msem \<Rightarrow> u64" where
  "msem_QueueLength m = m_num_waiters m"

definition msem_GetCapacity :: "'p msem \<Rightarrow> u32" where
  "msem_GetCapacity m = m_cap m"

section \<open>Well-formed semaphores\<close>

text \<open>The capacity is between one and the core limit, the count never exceeds the core limit,
  the queue statistics describe the queue, and while threads wait some thread holds the
  semaphore (so a \<^verbatim>\<open>Post\<close> is still to come).\<close>

definition msem_inv :: "'p msem \<Rightarrow> bool" where
  "msem_inv m \<longleftrightarrow>
     1 \<le> m_cap m \<and> m_cap m \<le> m_max_cap m \<and> m_count m \<le> m_max_cap m \<and>
     length (m_waiters m) < 2 ^ 64 \<and> m_num_waiters m = of_nat (length (m_waiters m)) \<and>
     m_oldest_tsc m = msem_oldest (m_waiters m) \<and>
     (m_waiters m \<noteq> [] \<longrightarrow> m_count m \<noteq> 0)"

fun ready_threads :: "msem_event list \<Rightarrow> nat list" where
  "ready_threads [] = []"
| "ready_threads (ThreadReady t # evs) = t # ready_threads evs"
| "ready_threads (AccQdel t d # evs) = ready_threads evs"

lemma ready_threads_append [simp]: "ready_threads (xs @ ys) = ready_threads xs @ ready_threads ys"
  by (induction xs rule: ready_threads.induct) auto

lemma ready_threads_wake [simp]: "ready_threads (fst (msem_wake now w ws m)) = [w_th w]"
  by (simp add: msem_wake_def)

text \<open>The loop of \<^verbatim>\<open>Wait\<close> hands the semaphore to a prefix of the queue, in order, and
  stops only when the queue is empty or the capacity is used up.\<close>

definition served :: "nat \<Rightarrow> 'p msem \<Rightarrow> 'p msem \<Rightarrow> bool" where
  "served k m m' \<longleftrightarrow>
     m' = m\<lparr>m_waiters := drop k (m_waiters m), m_count := m_count m + of_nat k,
            m_num_waiters := m_num_waiters m - of_nat k,
            m_oldest_tsc := (if k = 0 then m_oldest_tsc m else msem_oldest (drop k (m_waiters m)))\<rparr>"

lemma served_0 [simp]: "served 0 m m' \<longleftrightarrow> m' = m"
  by (auto simp: served_def)

lemma served_Suc:
  assumes "m_waiters m = w # ws"
    and "served k ((snd (msem_wake now w ws m))\<lparr>m_count := m_count m + 1\<rparr>) m'"
  shows "served (Suc k) m m'"
  using assms by (simp add: served_def msem_wake_def algebra_simps)

lemma msem_serve_spec:
  assumes "msem_serve tsc i m = (evs, m')"
  shows "\<exists>k \<le> length (m_waiters m). served k m m'
     \<and> unat (m_count m') = unat (m_count m) + k
     \<and> (k = 0 \<or> unat (m_count m') \<le> unat (m_cap m))
     \<and> ready_threads evs = map w_th (take k (m_waiters m))
     \<and> (m_waiters m' = [] \<or> \<not> m_count m' < m_cap m')"
  using assms
proof (induction tsc i m arbitrary: evs rule: msem_serve.induct)
  case (1 tsc i m)
  show ?case
  proof (cases "m_waiters m")
    case Nil
    with "1.prems" show ?thesis by (auto simp: msem_serve.simps [of tsc i m])
  next
    case (Cons w ws)
    show ?thesis
    proof (cases "m_count m < m_cap m")
      case False
      with Cons "1.prems" show ?thesis by (auto simp: msem_serve.simps [of tsc i m])
    next
      case True
      define y where "y = snd (msem_wake (tsc i) w ws m)"
      define m1 where "m1 = y\<lparr>m_count := m_count y + 1\<rparr>"
      have wk: "(fst (msem_wake (tsc i) w ws m), y) = msem_wake (tsc i) w ws m"
        by (simp add: y_def)
      have m1: "m_waiters m1 = ws" "m_cap m1 = m_cap m" "m_count m1 = m_count m + 1"
        by (simp_all add: m1_def y_def msem_wake_def)
      have u: "unat (m_count m1) = Suc (unat (m_count m))"
        "unat (m_count m1) \<le> unat (m_cap m)"
      proof -
        have "unat (m_count m) < unat (m_cap m)" using True by (simp add: word_less_nat_alt)
        moreover have "unat (m_cap m) < 2 ^ 32" using unsigned_less [of "m_cap m"] by simp
        ultimately show "unat (m_count m1) = Suc (unat (m_count m))"
          "unat (m_count m1) \<le> unat (m_cap m)"
          by (simp_all add: m1 unat_word_ariths)
      qed
      obtain evs2 where r: "msem_serve tsc (Suc i) m1 = (evs2, m')"
        and e: "evs = fst (msem_wake (tsc i) w ws m) @ evs2"
        using "1.prems" Cons True
        by (auto simp: msem_serve.simps [of tsc i m] m1_def y_def split: prod.splits)
      obtain k where k: "k \<le> length ws" "served k m1 m'"
        "unat (m_count m') = unat (m_count m1) + k"
        "k = 0 \<or> unat (m_count m') \<le> unat (m_cap m)"
        "ready_threads evs2 = map w_th (take k ws)"
        "m_waiters m' = [] \<or> \<not> m_count m' < m_cap m'"
        using "1.IH" [OF Cons True refl wk r [unfolded m1_def]] m1
        by (auto simp flip: m1_def)
      show ?thesis
        using k u e Cons served_Suc [OF Cons, of k "tsc i" m']
        by (intro exI [of _ "Suc k"]) (auto simp: m1_def y_def msem_wake_def)
    qed
  qed
qed

section \<open>Threads using the semaphore\<close>

text \<open>The semaphore together with the set of threads that currently hold it. A thread that
  neither holds the semaphore nor waits for it may call \<^verbatim>\<open>TryWait\<close> or
  \<^verbatim>\<open>Wait\<close>; a holder may call \<^verbatim>\<open>Post\<close>. Threads made ready by a call hold the
  semaphore from then on.\<close>

record 'p sem_sys =
  sem :: "'p msem"
  holders :: "nat set"

abbreviation waiting :: "'p msem \<Rightarrow> nat list" where
  "waiting m \<equiv> map w_th (m_waiters m)"

inductive msem_step :: "('e \<Rightarrow> 'p msem \<Rightarrow> 'p msem) \<Rightarrow> 'p sem_sys \<Rightarrow> 'p sem_sys \<Rightarrow> bool"
  for upd :: "'e \<Rightarrow> 'p msem \<Rightarrow> 'p msem" where
  try_ok: "t \<notin> holders s \<Longrightarrow> t \<notin> set (waiting (sem s)) \<Longrightarrow>
     msem_TryWait (upd e) (sem s) = (True, m) \<Longrightarrow>
     msem_step upd s (s\<lparr>sem := m, holders := insert t (holders s)\<rparr>)"
| try_fail: "msem_TryWait (upd e) (sem s) = (False, m) \<Longrightarrow> msem_step upd s (s\<lparr>sem := m\<rparr>)"
| wait_acquired: "t \<notin> holders s \<Longrightarrow> t \<notin> set (waiting (sem s)) \<Longrightarrow>
     msem_Wait (upd e) tsc enq t (sem s) = (True, evs, m) \<Longrightarrow>
     msem_step upd s (s\<lparr>sem := m, holders := insert t (holders s \<union> set (ready_threads evs))\<rparr>)"
| wait_parked: "t \<notin> holders s \<Longrightarrow> t \<notin> set (waiting (sem s)) \<Longrightarrow>
     Suc (length (m_waiters (sem s))) < 2 ^ 64 \<Longrightarrow>
     msem_Wait (upd e) tsc enq t (sem s) = (False, evs, m) \<Longrightarrow>
     msem_step upd s (s\<lparr>sem := m, holders := holders s \<union> set (ready_threads evs)\<rparr>)"
| post: "t \<in> holders s \<Longrightarrow> msem_Post (upd e) now (sem s) = (evs, m) \<Longrightarrow>
     msem_step upd s (s\<lparr>sem := m, holders := (holders s - {t}) \<union> set (ready_threads evs)\<rparr>)"

text \<open>The count is the number of holders, nobody waits twice or waits while holding.\<close>

definition sem_sys_inv :: "'p sem_sys \<Rightarrow> bool" where
  "sem_sys_inv s \<longleftrightarrow>
     msem_inv (sem s) \<and> finite (holders s) \<and> card (holders s) = unat (m_count (sem s)) \<and>
     distinct (waiting (sem s)) \<and> set (waiting (sem s)) \<inter> holders s = {}"

lemma msem_inv_count_pos:
  "msem_inv m \<Longrightarrow> m_waiters m \<noteq> [] \<Longrightarrow> 0 < unat (m_count m)"
  by (simp add: msem_inv_def unat_gt_0)

lemma msem_inv_served:
  assumes i: "msem_inv m" and s: "served k m m'" and k: "k \<le> length (m_waiters m)"
    and u: "unat (m_count m') = unat (m_count m) + k"
    and c: "k = 0 \<or> unat (m_count m') \<le> unat (m_cap m)"
  shows "msem_inv m'"
proof (cases k)
  case 0
  with s i show ?thesis by simp
next
  case (Suc j)
  have "unat (m_count m') \<le> unat (m_max_cap m)"
    using c Suc i by (auto simp: msem_inv_def word_le_nat_alt)
  moreover have "m_count m' \<noteq> 0" using u Suc by (metis add_is_0 nat.distinct(1) unat_0)
  moreover have "of_nat (length (m_waiters m)) - of_nat k = (of_nat (length (m_waiters m) - k) :: u64)"
    using k by simp
  ultimately show ?thesis
    using i s k Suc by (auto simp: msem_inv_def served_def word_le_nat_alt)
qed

lemma msem_inv_acquire:
  assumes "msem_inv m" and "m_count m < m_cap m"
  shows "msem_inv (m\<lparr>m_count := m_count m + 1\<rparr>)"
    and "unat (m_count m + 1) = Suc (unat (m_count m))"
proof -
  have "unat (m_count m) < unat (m_cap m)" "unat (m_cap m) \<le> unat (m_max_cap m)"
    using assms by (auto simp: msem_inv_def word_less_nat_alt word_le_nat_alt)
  moreover have "unat (m_cap m) < 2 ^ 32" using unsigned_less [of "m_cap m"] by simp
  ultimately show u: "unat (m_count m + 1) = Suc (unat (m_count m))"
    by (simp add: unat_word_ariths)
  then have "m_count m + 1 \<noteq> 0" by (metis nat.distinct(1) unat_0)
  with u \<open>unat (m_count m) < unat (m_cap m)\<close> \<open>unat (m_cap m) \<le> unat (m_max_cap m)\<close> assms
  show "msem_inv (m\<lparr>m_count := m_count m + 1\<rparr>)"
    by (simp add: msem_inv_def word_le_nat_alt)
qed

lemma msem_inv_park:
  assumes "msem_inv m" and "\<not> m_count m < m_cap m" and "Suc (length (m_waiters m)) < 2 ^ 64"
  shows "msem_inv
     (let m' = m\<lparr>m_waiters := m_waiters m @ [w], m_num_waiters := m_num_waiters m + 1\<rparr>
      in if m_waiters m = [] then m'\<lparr>m_oldest_tsc := w_enque_tsc w\<rparr> else m')"
proof -
  have "m_count m \<noteq> 0" using assms(1,2) by (auto simp: msem_inv_def word_less_nat_alt word_le_nat_alt)
  with assms show ?thesis
    by (cases "m_waiters m") (auto simp: msem_inv_def msem_oldest_def Let_def)
qed

lemma msem_inv_wake:
  assumes i: "msem_inv m" and w: "m_waiters m = w # ws"
  shows "msem_inv (snd (msem_wake now w ws m))"
  using msem_inv_count_pos [OF i] i w
  by (auto simp: msem_inv_def msem_wake_def)

text \<open>The operations touch the capacity and the policy state only through the update.\<close>

lemma msem_ops_policy:
  "m_policy (snd (msem_TryWait u m)) = m_policy (u m)" "m_cap (snd (msem_TryWait u m)) = m_cap (u m)"
  "m_policy (snd (snd (msem_Wait u tsc enq t m))) = m_policy (u m)"
  "m_cap (snd (snd (msem_Wait u tsc enq t m))) = m_cap (u m)"
  "m_policy (snd (msem_Post u now m)) = m_policy (u m)" "m_cap (snd (msem_Post u now m)) = m_cap (u m)"
proof -
  obtain evs m' where s: "msem_serve tsc 0 (u m) = (evs, m')" by force
  then obtain k where "served k (u m) m'" using msem_serve_spec by blast
  then have "m_policy m' = m_policy (u m)" "m_cap m' = m_cap (u m)" by (simp_all add: served_def)
  with s show "m_policy (snd (snd (msem_Wait u tsc enq t m))) = m_policy (u m)"
    "m_cap (snd (snd (msem_Wait u tsc enq t m))) = m_cap (u m)"
    by (simp_all add: msem_Wait_def Let_def)
qed (simp_all add: msem_TryWait_def msem_Post_def msem_wake_def Let_def split: list.splits)

lemma msem_step_policy:
  assumes "msem_step upd s s'"
  shows "\<exists>e. m_policy (sem s') = m_policy (upd e (sem s)) \<and> m_cap (sem s') = m_cap (upd e (sem s))"
  using assms
proof (induction rule: msem_step.induct)
  case (try_ok t s e m)
  then show ?case using msem_ops_policy(1,2) [of "upd e" "sem s"] by auto
next
  case (try_fail e s m)
  then show ?case using msem_ops_policy(1,2) [of "upd e" "sem s"] by auto
next
  case (wait_acquired t s e tsc enq evs m)
  then show ?case using msem_ops_policy(3,4) [of "upd e" tsc enq t "sem s"] by auto
next
  case (wait_parked t s e tsc enq evs m)
  then show ?case using msem_ops_policy(3,4) [of "upd e" tsc enq t "sem s"] by auto
next
  case (post t s e now evs m)
  then show ?case using msem_ops_policy(5,6) [of "upd e" now "sem s"] by auto
qed

section \<open>What the operations rely on: a capacity policy\<close>

locale capacity_policy =
  fixes upd :: "'e \<Rightarrow> 'p msem \<Rightarrow> 'p msem"
  assumes cap_range: "1 \<le> m_cap m \<Longrightarrow> m_cap m \<le> m_max_cap m \<Longrightarrow>
        1 \<le> m_cap (upd e m) \<and> m_cap (upd e m) \<le> m_max_cap m"
    and frame: "m_count (upd e m) = m_count m" "m_max_cap (upd e m) = m_max_cap m"
        "m_waiters (upd e m) = m_waiters m" "m_num_waiters (upd e m) = m_num_waiters m"
        "m_oldest_tsc (upd e m) = m_oldest_tsc m"
begin

lemma upd_inv: "msem_inv m \<Longrightarrow> msem_inv (upd e m)"
  using cap_range by (simp add: msem_inv_def frame)

lemma TryWait_inv:
  assumes "msem_inv m" and "msem_TryWait (upd e) m = (b, m')"
  shows "msem_inv m'" and "m_waiters m' = m_waiters m"
    and "unat (m_count m') = (if b then Suc (unat (m_count m)) else unat (m_count m))"
  using assms msem_inv_acquire [OF upd_inv [OF assms(1)], of e] upd_inv [OF assms(1), of e]
  by (auto simp: msem_TryWait_def Let_def frame split: if_splits)

lemma Wait_exact:
  assumes i: "msem_inv m" and w: "msem_Wait (upd e) tsc enq t m = (b, evs, m')"
    and room: "b \<or> Suc (length (m_waiters m)) < 2 ^ 64"
  shows "\<exists>k \<le> length (m_waiters m).
     msem_inv m' \<and> ready_threads evs = take k (waiting m)
     \<and> unat (m_count m') = unat (m_count m) + k + (if b then 1 else 0)
     \<and> waiting m' = drop k (waiting m) @ (if b then [] else [t])
     \<and> (b \<longrightarrow> k = length (m_waiters m))
     \<and> m_cap m' = m_cap (upd e m)
     \<and> k = min (length (m_waiters m)) (unat (m_cap (upd e m)) - unat (m_count m))
     \<and> (b \<longleftrightarrow> unat (m_count m) + length (m_waiters m) < unat (m_cap (upd e m)))"
proof -
  obtain ev1 m1 where s: "msem_serve tsc 0 (upd e m) = (ev1, m1)" by force
  obtain k where k: "k \<le> length (m_waiters m)" "served k (upd e m) m1"
    "unat (m_count m1) = unat (m_count m) + k"
    "k = 0 \<or> unat (m_count m1) \<le> unat (m_cap (upd e m))"
    "ready_threads ev1 = map w_th (take k (m_waiters m))"
    "m_waiters m1 = [] \<or> \<not> m_count m1 < m_cap m1"
    using msem_serve_spec [OF s] by (auto simp: frame)
  have i1: "msem_inv m1"
    using msem_inv_served [OF upd_inv [OF i] k(2)] k by (simp add: frame)
  have w1: "m_waiters m1 = drop k (m_waiters m)" using k(2) by (simp add: served_def frame)
  have c1: "m_cap m1 = m_cap (upd e m)" using k(2) by (simp add: served_def)
  have lt: "m_count m1 < m_cap m1 \<longleftrightarrow> unat (m_count m) + k < unat (m_cap (upd e m))"
    using k(3) c1 by (simp add: word_less_nat_alt)
  have kmin: "k = min (length (m_waiters m)) (unat (m_cap (upd e m)) - unat (m_count m))"
    using k(1,3,4,6) w1 lt by auto
  show ?thesis
  proof (cases "m_count m1 < m_cap m1")
    case True
    with w s have "b" "evs = ev1" "m' = m1\<lparr>m_count := m_count m1 + 1\<rparr>"
      by (auto simp: msem_Wait_def Let_def)
    moreover have "k = length (m_waiters m)" using k(1,6) w1 True by simp
    ultimately show ?thesis
      using msem_inv_acquire [OF i1 True] k w1 c1 kmin lt True by (intro exI [of _ k]) (auto simp: take_map)
  next
    case False
    let ?w = "\<lparr>w_th = t, w_enque_tsc = enq\<rparr>"
    from w s False have b: "\<not> b" "evs = ev1"
      and m': "m' = (let m' = m1\<lparr>m_waiters := m_waiters m1 @ [?w], m_num_waiters := m_num_waiters m1 + 1\<rparr>
        in if m_waiters m1 = [] then m'\<lparr>m_oldest_tsc := w_enque_tsc ?w\<rparr> else m')"
      by (auto simp: msem_Wait_def Let_def)
    have "Suc (length (m_waiters m1)) < 2 ^ 64" using room b w1 by simp
    note inv' = msem_inv_park [OF i1 False this, of ?w]
    have "m_waiters m' = m_waiters m1 @ [?w]" "m_count m' = m_count m1" "m_cap m' = m_cap (upd e m)"
      using c1 by (auto simp: m' Let_def)
    moreover have "\<not> unat (m_count m) + length (m_waiters m) < unat (m_cap (upd e m))"
      using False lt k(1) by linarith
    ultimately show ?thesis using inv' b k w1 kmin
      by (intro exI [of _ k]) (auto simp: m' take_map drop_map)
  qed
qed

lemma Wait_spec:
  assumes "msem_inv m" and "msem_Wait (upd e) tsc enq t m = (b, evs, m')"
    and "b \<or> Suc (length (m_waiters m)) < 2 ^ 64"
  shows "\<exists>k \<le> length (m_waiters m).
     msem_inv m' \<and> ready_threads evs = take k (waiting m)
     \<and> unat (m_count m') = unat (m_count m) + k + (if b then 1 else 0)
     \<and> waiting m' = drop k (waiting m) @ (if b then [] else [t])
     \<and> (b \<longrightarrow> k = length (m_waiters m))"
  using Wait_exact [OF assms] by blast

lemma Post_spec:
  assumes i: "msem_inv m" and p: "msem_Post (upd e) now m = (evs, m')"
    and held: "m_count m \<noteq> 0"
  shows "msem_inv m'
     \<and> (ready_threads evs = [] \<and> waiting m' = waiting m \<and> Suc (unat (m_count m')) = unat (m_count m)
        \<or> (\<exists>t ts. waiting m = t # ts \<and> ready_threads evs = [t] \<and> waiting m' = ts
              \<and> m_count m' = m_count m))"
proof -
  let ?u = "upd e m"
  have iu: "msem_inv ?u" using i by (rule upd_inv)
  have dec: "Suc (unat (m_count m - 1)) = unat (m_count m)"
    using held by (simp add: unat_minus_one unat_gt_0)
  have bound: "m_count m - 1 \<le> m_max_cap m"
    using i dec by (simp add: msem_inv_def word_le_nat_alt)
  show ?thesis
  proof (cases "m_waiters m")
    case Nil
    with p have "evs = []" "m' = ?u\<lparr>m_count := m_count m - 1\<rparr>"
      by (auto simp: msem_Post_def Let_def frame)
    with Nil iu dec bound show ?thesis by (simp add: msem_inv_def frame)
  next
    case (Cons w ws)
    show ?thesis
    proof (cases "m_count m > m_cap ?u")
      case True
      with p Cons have e: "evs = []" "m' = ?u\<lparr>m_count := m_count m - 1\<rparr>"
        by (auto simp: msem_Post_def Let_def frame)
      have "1 \<le> m_cap ?u" using iu by (simp add: msem_inv_def)
      then have "m_count m - 1 \<noteq> 0" using True dec by (auto simp: word_less_nat_alt word_le_nat_alt)
      with e iu dec bound Cons show ?thesis by (simp add: msem_inv_def frame)
    next
      case False
      with p Cons have "(evs, m') = msem_wake now w ws ?u"
        by (auto simp: msem_Post_def Let_def frame)
      moreover have "msem_inv (snd (msem_wake now w ws ?u))"
        using iu Cons by (intro msem_inv_wake) (simp_all add: frame)
      ultimately have "msem_inv m'" "ready_threads evs = [w_th w]" "m_waiters m' = ws"
        "m_count m' = m_count m"
        by (auto simp: msem_wake_def frame)
      with Cons show ?thesis by simp
    qed
  qed
qed

lemma card_holders_Un:
  assumes "finite A" and "distinct ts" and "set ts \<inter> A = {}"
  shows "card (A \<union> set ts) = card A + length ts"
  using assms by (simp add: card_Un_disjoint distinct_card inf_commute)

lemma step_inv:
  assumes "msem_step upd s s'" and "sem_sys_inv s"
  shows "sem_sys_inv s'"
  using assms
proof (induction rule: msem_step.induct)
  case (try_ok t s e m)
  then have "msem_inv m" "m_waiters m = m_waiters (sem s)"
    "unat (m_count m) = Suc (unat (m_count (sem s)))"
    using TryWait_inv [of "sem s" e True m] by (auto simp: sem_sys_inv_def)
  with try_ok show ?case by (auto simp: sem_sys_inv_def)
next
  case (try_fail e s m)
  then have "msem_inv m" "m_waiters m = m_waiters (sem s)"
    "unat (m_count m) = unat (m_count (sem s))"
    using TryWait_inv [of "sem s" e False m] by (auto simp: sem_sys_inv_def)
  with try_fail show ?case by (auto simp: sem_sys_inv_def)
next
  case (wait_acquired t s e tsc enq evs m)
  let ?ws = "waiting (sem s)"
  from Wait_spec [OF _ wait_acquired.hyps(3)] wait_acquired.prems
  have m: "msem_inv m" "ready_threads evs = ?ws" "waiting m = []"
    "unat (m_count m) = unat (m_count (sem s)) + length ?ws + 1"
    by (auto simp: sem_sys_inv_def)
  have "card (holders s \<union> set ?ws) = card (holders s) + length ?ws"
    using wait_acquired.prems by (intro card_holders_Un) (auto simp: sem_sys_inv_def)
  with m wait_acquired show ?case by (auto simp: sem_sys_inv_def)
next
  case (wait_parked t s e tsc enq evs m)
  let ?ws = "waiting (sem s)"
  from Wait_spec [OF _ wait_parked.hyps(4)] wait_parked.hyps(3) wait_parked.prems
  obtain k where m: "msem_inv m" "ready_threads evs = take k ?ws" "k \<le> length ?ws"
    "unat (m_count m) = unat (m_count (sem s)) + k" "waiting m = drop k ?ws @ [t]"
    by (auto simp: sem_sys_inv_def)
  have d: "distinct ?ws" using wait_parked.prems by (simp add: sem_sys_inv_def)
  then have "set (take k ?ws) \<inter> set (drop k ?ws) = {}"
    by (simp add: set_take_disj_set_drop_if_distinct)
  note d = d this
  note sub = set_take_subset [of k ?ws] set_drop_subset [of k ?ws]
  have "card (holders s \<union> set (take k ?ws)) = card (holders s) + length (take k ?ws)"
    using wait_parked.prems d sub by (intro card_holders_Un) (auto simp: sem_sys_inv_def)
  with m d sub wait_parked show ?case by (auto simp: sem_sys_inv_def)
next
  case (post t s e now evs m)
  have "0 < card (holders s)" using post by (auto simp: sem_sys_inv_def card_gt_0_iff)
  then have held: "m_count (sem s) \<noteq> 0" using post.prems by (auto simp: sem_sys_inv_def)
  have c: "card (holders s - {t}) = unat (m_count (sem s)) - 1"
    using post by (simp add: sem_sys_inv_def)
  from Post_spec [OF _ post.hyps(2) held] post.prems consider
      (release) "msem_inv m" "ready_threads evs = []" "waiting m = waiting (sem s)"
        "Suc (unat (m_count m)) = unat (m_count (sem s))"
    | (handover) u us where "msem_inv m" "waiting (sem s) = u # us" "ready_threads evs = [u]"
        "waiting m = us" "m_count m = m_count (sem s)"
    by (auto simp: sem_sys_inv_def)
  then show ?case
  proof cases
    case release
    with c post.prems show ?thesis by (auto simp: sem_sys_inv_def)
  next
    case handover
    then have "card (insert u (holders s - {t})) = unat (m_count (sem s))"
      using c post.prems \<open>0 < card (holders s)\<close> by (auto simp: sem_sys_inv_def)
    with handover post.prems show ?thesis by (auto simp: sem_sys_inv_def)
  qed
qed

lemma reachable_inv:
  assumes "(msem_step upd)\<^sup>*\<^sup>* s s'" and "sem_sys_inv s"
  shows "sem_sys_inv s'"
  using assms by (induction rule: rtranclp_induct) (auto intro: step_inv)

lemma reachable_max_cap:
  assumes "(msem_step upd)\<^sup>*\<^sup>* s s'"
  shows "m_max_cap (sem s') = m_max_cap (sem s)"
  using assms
proof (induction rule: rtranclp_induct)
  case base
  show ?case ..
next
  case (step s1 s2)
  have "m_max_cap (sem s2) = m_max_cap (sem s1)"
    using step.hyps(2)
  proof (induction rule: msem_step.induct)
    case (wait_acquired t s e tsc enq evs m)
    obtain evs' m' where s: "msem_serve tsc 0 (upd e (sem s)) = (evs', m')" by force
    then obtain k where "served k (upd e (sem s)) m'" using msem_serve_spec by blast
    with s wait_acquired show ?case by (auto simp: msem_Wait_def Let_def served_def frame split: if_splits)
  next
    case (wait_parked t s e tsc enq evs m)
    obtain evs' m' where s: "msem_serve tsc 0 (upd e (sem s)) = (evs', m')" by force
    then obtain k where "served k (upd e (sem s)) m'" using msem_serve_spec by blast
    with s wait_parked show ?case by (auto simp: msem_Wait_def Let_def served_def frame split: if_splits)
  qed (auto simp: msem_TryWait_def msem_Post_def msem_wake_def Let_def frame split: if_splits list.splits)
  with step.IH show ?case by simp
qed

text \<open>From a state with no holder and no waiter, whatever the threads do, the count is the number
  of holders, it stays within the core limit, the queue statistics are right, and nobody waits
  while nobody holds.\<close>

lemma accounting:
  assumes r: "(msem_step upd)\<^sup>*\<^sup>* \<lparr>sem = m0, holders = {}\<rparr> s"
    and i: "msem_inv m0" and c: "m_count m0 = 0" and w: "m_waiters m0 = []"
  shows "card (holders s) = unat (m_count (sem s)) \<and> card (holders s) \<le> unat (m_max_cap m0)
     \<and> m_num_waiters (sem s) = of_nat (length (m_waiters (sem s)))
     \<and> m_oldest_tsc (sem s) = msem_oldest (m_waiters (sem s))
     \<and> distinct (waiting (sem s)) \<and> set (waiting (sem s)) \<inter> holders s = {}
     \<and> (m_waiters (sem s) \<noteq> [] \<longrightarrow> holders s \<noteq> {})"
proof -
  have "sem_sys_inv \<lparr>sem = m0, holders = {}\<rparr>" using i c w by (simp add: sem_sys_inv_def)
  with r have inv: "sem_sys_inv s" by (rule reachable_inv)
  have "m_max_cap (sem s) = m_max_cap m0" using reachable_max_cap [OF r] by simp
  with inv msem_inv_count_pos [of "sem s"] show ?thesis
    by (auto simp: sem_sys_inv_def msem_inv_def word_le_nat_alt)
qed

end

end
