(* ===== verification/Msem_EG.thy ===== *)
theory Msem_EG
  imports Mem_Semaphore
begin

text \<open>
  The epsilon-greedy memory semaphore, \<^verbatim>\<open>m-semaphore/src/m_semaphore_mab_eg_impl.cpp\<close>: its
  constructor, its \<^verbatim>\<open>UpdateCapacity\<close> and the semaphore operations with that update. The
  policy state is the array \<^verbatim>\<open>m_ewma_rewards\<close>.
\<close>

type_synonym eg_msem = "(nat \<Rightarrow> dbl) msem"

definition ALPHA :: dbl where "ALPHA = Fin (4 / 5)"
definition TARGET_NORM_MEMBW :: dbl where "TARGET_NORM_MEMBW = Fin 1"
definition REWARD_EWMA_WEIGHT :: dbl where "REWARD_EWMA_WEIGHT = Fin (4 / 5)"
definition EXPLR_PROB :: dbl where "EXPLR_PROB = Fin (3 / 10)"

text \<open>What one run of the controller reads: the clock, the memory-access counter and two values
  of \<^verbatim>\<open>rand()\<close>.\<close>

record ctl_env =
  now_time :: u64
  now_bytes :: u64
  rand1 :: nat
  rand2 :: nat

definition eg_init :: "u32 \<Rightarrow> u32 \<Rightarrow> u64 \<Rightarrow> u64 \<Rightarrow> eg_msem" where
  "eg_init init_cap max_cores bytes time =
     \<lparr>m_cap = init_cap, m_count = 0, m_max_cap = max_cores, m_max_membw = Fin 0,
      m_last_bytes = bytes, m_last_time = time, m_waiters = [], m_num_waiters = 0,
      m_oldest_tsc = UINT64_MAX, m_policy = (\<lambda>i. Fin 0)\<rparr>"

definition ctl_membw :: "ctl_env \<Rightarrow> 'p msem \<Rightarrow> dbl" where
  "ctl_membw e m =
     dbl_div (dbl_of_u64 (now_bytes e - m_last_bytes m)) (dbl_of_u64 (now_time e - m_last_time m))"

definition ctl_max_membw :: "ctl_env \<Rightarrow> 'p msem \<Rightarrow> dbl" where
  "ctl_max_membw e m =
     (if dbl_lt (m_max_membw m) (ctl_membw e m) then ctl_membw e m else m_max_membw m)"

definition ctl_reward :: "ctl_env \<Rightarrow> 'p msem \<Rightarrow> dbl" where
  "ctl_reward e m =
     (let norm_membw = dbl_div (ctl_membw e m) (ctl_max_membw e m);
          norm_membw = dbl_div (dbl_min norm_membw TARGET_NORM_MEMBW) TARGET_NORM_MEMBW;
          norm_cap = dbl_div (dbl_of_u32 (m_cap m)) (dbl_of_u32 (m_max_cap m))
      in dbl_sub (dbl_mul ALPHA norm_membw) (dbl_mul (dbl_sub (Fin 1) ALPHA) norm_cap))"

definition eg_best :: "(nat \<Rightarrow> dbl) \<Rightarrow> nat \<Rightarrow> nat" where
  "eg_best r max_cap = fold (\<lambda>i best. if dbl_lt (r best) (r i) then i else best) [1..<Suc max_cap] 1"

definition ctl_explr_prob :: "ctl_env \<Rightarrow> dbl" where
  "ctl_explr_prob e = dbl_div (Fin (real (rand1 e mod 1001))) (Fin 1000)"

definition eg_UpdateCapacity :: "ctl_env \<Rightarrow> eg_msem \<Rightarrow> eg_msem" where
  "eg_UpdateCapacity e m =
     (if now_time e - m_last_time m < CTL_DELAY_US then m
      else
        let cap = unat (m_cap m);
            rewards = (m_policy m)(cap :=
              dbl_add (dbl_mul (dbl_sub (Fin 1) REWARD_EWMA_WEIGHT) (m_policy m cap))
                (dbl_mul REWARD_EWMA_WEIGHT (ctl_reward e m)));
            best_cap = eg_best rewards (unat (m_max_cap m));
            new_cap =
              (if dbl_lt (ctl_explr_prob e) EXPLR_PROB
               then let explr_dir = (if rand2 e mod 2 \<noteq> 0 then 1 else -1);
                        c = (word_of_int (int best_cap + explr_dir) :: u32);
                        c = max c 1
                    in min c (m_max_cap m)
               else of_nat best_cap)
        in m\<lparr>m_max_membw := ctl_max_membw e m, m_policy := rewards, m_cap := new_cap,
             m_last_bytes := now_bytes e, m_last_time := now_time e\<rparr>)"

definition eg_TryWait :: "ctl_env \<Rightarrow> eg_msem \<Rightarrow> bool \<times> eg_msem" where
  "eg_TryWait e m = msem_TryWait (eg_UpdateCapacity e) m"

definition eg_Wait ::
  "ctl_env \<Rightarrow> (nat \<Rightarrow> u64) \<Rightarrow> u64 \<Rightarrow> nat \<Rightarrow> eg_msem \<Rightarrow> bool \<times> msem_event list \<times> eg_msem" where
  "eg_Wait e tsc enq self m = msem_Wait (eg_UpdateCapacity e) tsc enq self m"

definition eg_Post :: "ctl_env \<Rightarrow> u64 \<Rightarrow> eg_msem \<Rightarrow> msem_event list \<times> eg_msem" where
  "eg_Post e now m = msem_Post (eg_UpdateCapacity e) now m"

section \<open>The best arm\<close>

lemma eg_best_fold:
  assumes "1 \<le> b"
  shows "1 \<le> fold (\<lambda>i best. if dbl_lt (r best) (r i) then i else best) [1..<Suc n] b"
    and "fold (\<lambda>i best. if dbl_lt (r best) (r i) then i else best) [1..<Suc n] b \<le> max b n"
  using assms by (induction n) auto

lemma eg_best_range: "1 \<le> n \<Longrightarrow> 1 \<le> eg_best r n \<and> eg_best r n \<le> n"
  using eg_best_fold [of 1 r n] by (simp add: eg_best_def)

lemma eg_best_nan:
  assumes "r 1 = NaN"
  shows "eg_best r n = 1"
proof (induction n)
  case 0
  show ?case by (simp add: eg_best_def)
next
  case (Suc n)
  then show ?case using assms by (simp add: eg_best_def)
qed

lemma eg_best_max:
  assumes "\<And>i. 1 \<le> i \<Longrightarrow> i \<le> n \<Longrightarrow> r i \<noteq> NaN" and "1 \<le> i" and "i \<le> n"
  shows "\<not> dbl_lt (r (eg_best r n)) (r i)"
  using assms
proof (induction n arbitrary: i)
  case 0
  then show ?case by simp
next
  case (Suc n)
  let ?b = "eg_best r n"
  have step: "eg_best r (Suc n) = (if dbl_lt (r ?b) (r (Suc n)) then Suc n else ?b)"
    by (simp add: eg_best_def)
  show ?case
  proof (cases "n = 0")
    case True
    with Suc.prems have "i = 1" by simp
    with True show ?thesis by (simp add: eg_best_def)
  next
    case False
    then have b: "1 \<le> ?b" "?b \<le> n" using eg_best_range [of n r] by auto
    have IH: "\<not> dbl_lt (r ?b) (r j)" if "1 \<le> j" "j \<le> n" for j
      using Suc.IH [of j] Suc.prems(1) that by simp
    show ?thesis
    proof (cases "i = Suc n")
      case True
      then show ?thesis using step by simp
    next
      case False
      then have i: "\<not> dbl_lt (r ?b) (r i)" using IH Suc.prems by simp
      have "r ?b \<noteq> NaN" using Suc.prems(1) b by simp
      then show ?thesis
        using i step dbl_lt_trans [of "r ?b" "r (Suc n)" "r i"] by auto
    qed
  qed
qed

section \<open>The policy contract\<close>

interpretation eg: capacity_policy eg_UpdateCapacity
proof unfold_locales
  fix m :: eg_msem and e
  show "m_count (eg_UpdateCapacity e m) = m_count m"
    "m_max_cap (eg_UpdateCapacity e m) = m_max_cap m"
    "m_waiters (eg_UpdateCapacity e m) = m_waiters m"
    "m_num_waiters (eg_UpdateCapacity e m) = m_num_waiters m"
    "m_oldest_tsc (eg_UpdateCapacity e m) = m_oldest_tsc m"
    by (simp_all add: eg_UpdateCapacity_def Let_def)
  assume c: "1 \<le> m_cap m" "m_cap m \<le> m_max_cap m"
  then have mx: "1 \<le> m_max_cap m" by (rule order_trans)
  have best: "1 \<le> (of_nat (eg_best r (unat (m_max_cap m))) :: u32)
      \<and> of_nat (eg_best r (unat (m_max_cap m))) \<le> m_max_cap m" for r
  proof -
    have "1 \<le> unat (m_max_cap m)" using mx by (simp add: word_le_nat_alt)
    then have b: "1 \<le> eg_best r (unat (m_max_cap m))"
      "eg_best r (unat (m_max_cap m)) \<le> unat (m_max_cap m)"
      using eg_best_range by blast+
    moreover have "unat (m_max_cap m) < 2 ^ 32" using unsigned_less [of "m_max_cap m"] by simp
    ultimately have "unat (of_nat (eg_best r (unat (m_max_cap m))) :: u32)
        = eg_best r (unat (m_max_cap m))"
      by (simp add: unsigned_of_nat take_bit_nat_eq_self)
    with b show ?thesis by (simp add: word_le_nat_alt)
  qed
  show "1 \<le> m_cap (eg_UpdateCapacity e m) \<and> m_cap (eg_UpdateCapacity e m) \<le> m_max_cap m"
    using c mx best by (simp add: eg_UpdateCapacity_def Let_def max.coboundedI2)
qed

lemma eg_init_inv: "1 \<le> c \<Longrightarrow> c \<le> mx \<Longrightarrow> msem_inv (eg_init c mx b t)"
  by (simp add: eg_init_def msem_inv_def msem_oldest_def)

section \<open>Not-a-number rewards\<close>

lemma ctl_reward_idle:
  assumes "m_max_membw m = Fin 0" and "now_bytes e = m_last_bytes m"
    and "now_time e \<noteq> m_last_time m"
  shows "ctl_reward e m = NaN"
proof -
  have "ctl_membw e m = Fin 0"
    using assms(2,3) by (simp add: ctl_membw_def dbl_of_u64_def unsigned_eq_0_iff)
  then show ?thesis
    using assms(1) by (simp add: ctl_reward_def ctl_max_membw_def dbl_inf_sgn_def dbl_min_def)
qed

lemma ctl_reward_policy: "ctl_reward e (m\<lparr>m_policy := p\<rparr>) = ctl_reward e m"
  by (simp add: ctl_reward_def ctl_max_membw_def ctl_membw_def)

lemma eg_nan_cap:
  assumes "m_policy m 1 = NaN" and "unat (m_cap m) \<le> 2"
  shows "m_policy (eg_UpdateCapacity e m) 1 = NaN \<and> unat (m_cap (eg_UpdateCapacity e m)) \<le> 2"
proof (cases "now_time e - m_last_time m < CTL_DELAY_US")
  case True
  with assms show ?thesis by (simp add: eg_UpdateCapacity_def)
next
  case False
  define r where "r = (m_policy m)(unat (m_cap m) :=
    dbl_add (dbl_mul (dbl_sub (Fin 1) REWARD_EWMA_WEIGHT) (m_policy m (unat (m_cap m))))
      (dbl_mul REWARD_EWMA_WEIGHT (ctl_reward e m)))"
  have r: "r 1 = NaN"
    using assms(1) by (cases "unat (m_cap m) = 1") (simp_all add: r_def dbl_inf_sgn_def)
  then have b: "eg_best r (unat (m_max_cap m)) = 1" by (rule eg_best_nan)
  let ?u = "eg_UpdateCapacity e m"
  have pol: "m_policy ?u = r"
    using False by (simp add: eg_UpdateCapacity_def Let_def r_def)
  have "m_cap ?u = 1 \<or> m_cap ?u = min 2 (m_max_cap m) \<or> m_cap ?u = min 1 (m_max_cap m)"
    using False b by (simp add: eg_UpdateCapacity_def Let_def flip: r_def)
  moreover have "unat (min (2::u32) (m_max_cap m)) \<le> 2" "unat (min (1::u32) (m_max_cap m)) \<le> 2"
    by (simp_all add: min_def word_le_nat_alt)
  ultimately show ?thesis using r pol by auto
qed

lemma eg_nan_reachable:
  assumes "(msem_step eg_UpdateCapacity)\<^sup>*\<^sup>* s s'"
    and "m_policy (sem s) 1 = NaN" and "unat (m_cap (sem s)) \<le> 2"
  shows "m_policy (sem s') 1 = NaN \<and> unat (m_cap (sem s')) \<le> 2"
  using assms
proof (induction rule: rtranclp_induct)
  case base
  then show ?case by simp
next
  case (step s1 s2)
  from msem_step_policy [OF step.hyps(2)] obtain e where
    "m_policy (sem s2) = m_policy (eg_UpdateCapacity e (sem s1))"
    "m_cap (sem s2) = m_cap (eg_UpdateCapacity e (sem s1))" by blast
  with eg_nan_cap [of "sem s1" e] step show ?case by simp
qed

section \<open>Properties\<close>

text \<open>C20. From construction on, under any interleaving of \<^verbatim>\<open>TryWait\<close>, \<^verbatim>\<open>Wait\<close> and
  \<^verbatim>\<open>Post\<close> calls and whatever the controller measures: \<^verbatim>\<open>m_count\<close> is the number of
  threads holding the semaphore and never exceeds the core limit, the waiter statistics describe
  the queue, no thread waits twice or while holding, and whenever a thread waits some thread holds
  the semaphore, so no waiter is stranded.\<close>

theorem eg_semaphore_accounting:
  assumes "1 \<le> c" and "c \<le> mx"
    and "(msem_step eg_UpdateCapacity)\<^sup>*\<^sup>* \<lparr>sem = eg_init c mx b t, holders = {}\<rparr> s"
  shows "card (holders s) = unat (m_count (sem s)) \<and> card (holders s) \<le> unat mx
     \<and> m_num_waiters (sem s) = of_nat (length (m_waiters (sem s)))
     \<and> m_oldest_tsc (sem s) = msem_oldest (m_waiters (sem s))
     \<and> distinct (waiting (sem s)) \<and> set (waiting (sem s)) \<inter> holders s = {}
     \<and> (m_waiters (sem s) \<noteq> [] \<longrightarrow> holders s \<noteq> {})"
  using eg.accounting [OF assms(3) eg_init_inv [OF assms(1,2)]] by (simp add: eg_init_def)

theorem eg_semaphore_accounting_witness:
  "card (holders \<lparr>sem = (eg_init 1 4 0 0)\<lparr>m_count := 1\<rparr>, holders = {7}\<rparr>) = 1"
proof -
  let ?m = "eg_init 1 4 0 0"
  let ?e = "\<lparr>now_time = 0, now_bytes = 0, rand1 = 0, rand2 = 0\<rparr>"
  have "msem_TryWait (eg_UpdateCapacity ?e) ?m = (True, ?m\<lparr>m_count := 1\<rparr>)"
    by (simp add: msem_TryWait_def eg_UpdateCapacity_def eg_init_def CTL_DELAY_US_def)
  then have "msem_step eg_UpdateCapacity \<lparr>sem = ?m, holders = {}\<rparr>
      \<lparr>sem = ?m\<lparr>m_count := 1\<rparr>, holders = {7}\<rparr>"
    using msem_step.try_ok [of 7 "\<lparr>sem = ?m, holders = {}\<rparr>" eg_UpdateCapacity ?e "?m\<lparr>m_count := 1\<rparr>"]
    by (simp add: eg_init_def)
  then have "(msem_step eg_UpdateCapacity)\<^sup>*\<^sup>* \<lparr>sem = ?m, holders = {}\<rparr>
      \<lparr>sem = ?m\<lparr>m_count := 1\<rparr>, holders = {7}\<rparr>" by (rule r_into_rtranclp)
  from eg_semaphore_accounting [OF _ _ this] show ?thesis by simp
qed

text \<open>C21. \<^verbatim>\<open>Wait\<close> is first come, first served within the capacity the controller
  has just set.  In a well-formed semaphore with room for one more waiter, it makes ready the first
  \<open>k\<close> threads of the queue, in their order, where \<open>k\<close> is the smaller of the number of waiters and of
  the units left below the capacity.  The caller acquires the semaphore exactly if a unit is
  left after the whole queue is served; otherwise it joins the queue at its end.\<close>

theorem eg_wait_is_fifo:
  assumes "msem_inv m" and "Suc (length (m_waiters m)) < 2 ^ 64"
    and "eg_Wait e tsc enq t m = (acquired, evs, m')"
    and "cap = unat (m_cap (eg_UpdateCapacity e m))"
    and "k = min (length (m_waiters m)) (cap - unat (m_count m))"
  shows "msem_inv m' \<and> unat (m_cap m') = cap \<and> ready_threads evs = take k (waiting m)
     \<and> (acquired \<longleftrightarrow> unat (m_count m) + length (m_waiters m) < cap)
     \<and> unat (m_count m') = unat (m_count m) + k + (if acquired then 1 else 0)
     \<and> waiting m' = drop k (waiting m) @ (if acquired then [] else [t])"
proof -
  have "acquired \<or> Suc (length (m_waiters m)) < 2 ^ 64" using assms(2) by blast
  from eg.Wait_exact [OF assms(1) assms(3) [unfolded eg_Wait_def] this, folded assms(4), folded assms(5)]
  show ?thesis using assms(4) by metis
qed

theorem eg_wait_is_fifo_witness:
  "ready_threads [AccQdel 7 1, ThreadReady 7] = take 1 [7, 8]"
proof -
  let ?m = "(eg_init 2 4 0 0)\<lparr>m_count := 1, m_num_waiters := 2, m_oldest_tsc := 4,
    m_waiters := [\<lparr>w_th = 7, w_enque_tsc = 4\<rparr>, \<lparr>w_th = 8, w_enque_tsc = 5\<rparr>]\<rparr>"
  let ?m' = "?m\<lparr>m_count := 2, m_oldest_tsc := 5,
    m_waiters := [\<lparr>w_th = 8, w_enque_tsc = 5\<rparr>, \<lparr>w_th = 3, w_enque_tsc = 9\<rparr>]\<rparr>"
  let ?e = "\<lparr>now_time = 0, now_bytes = 0, rand1 = 0, rand2 = 0\<rparr>"
  have i: "msem_inv ?m" by (simp add: eg_init_def msem_inv_def msem_oldest_def)
  have u: "eg_UpdateCapacity ?e ?m = ?m" by (simp add: eg_UpdateCapacity_def eg_init_def CTL_DELAY_US_def)
  have "eg_Wait ?e (\<lambda>i. 5) 9 3 ?m = (False, [AccQdel 7 1, ThreadReady 7], ?m')"
    by (simp add: eg_Wait_def msem_Wait_def msem_serve.simps u)
      (simp add: msem_wake_def msem_serve.simps eg_init_def msem_oldest_def)
  from eg_wait_is_fifo [OF i _ this refl refl] show ?thesis unfolding u by (simp add: eg_init_def)
qed

text \<open>A \<^verbatim>\<open>Post\<close> by a holder either gives the unit back (nobody is made ready, the
  count drops by one) or hands it to the oldest waiter (exactly that thread is made ready and the
  count is unchanged); in both cases the semaphore stays well-formed.\<close>

lemma eg_post_hands_over:
  assumes "msem_inv m" and "m_count m \<noteq> 0" and "eg_Post e now m = (evs, m')"
  shows "msem_inv m'
     \<and> (ready_threads evs = [] \<and> waiting m' = waiting m \<and> Suc (unat (m_count m')) = unat (m_count m)
        \<or> (\<exists>t ts. waiting m = t # ts \<and> ready_threads evs = [t] \<and> waiting m' = ts
              \<and> m_count m' = m_count m))"
  using eg.Post_spec [OF assms(1) assms(3) [unfolded eg_Post_def] assms(2)] .


text \<open>A semaphore with three arms in which the second is best.\<close>

definition three_arms :: eg_msem where
  "three_arms = (eg_init 1 3 0 0)\<lparr>m_policy := (\<lambda>_. Fin 0)(2 := Fin 5, 3 := Fin 3)\<rparr>"

lemma three_arms_rewards:
  "m_policy (eg_UpdateCapacity \<lparr>now_time = 500, now_bytes = 500, rand1 = 900, rand2 = 0\<rparr> three_arms) =
     (\<lambda>_. Fin 0)(1 := Fin (44 / 75), 2 := Fin 5, 3 := Fin 3)"
  by (simp add: three_arms_def eg_UpdateCapacity_def eg_init_def CTL_DELAY_US_def ctl_reward_def
      ctl_membw_def ctl_max_membw_def dbl_of_u64_def dbl_of_u32_def dbl_min_def dbl_sub_def ALPHA_def
      TARGET_NORM_MEMBW_def REWARD_EWMA_WEIGHT_def Let_def fun_eq_iff)


text \<open>C23. If the first control interval of a freshly constructed semaphore sees no memory access,
  the reward of capacity 1 becomes \<open>0 / 0\<close>, stays not-a-number for ever, no arm compares better, and
  the capacity never rises above 2 again, whatever bandwidth is measured later.\<close>

theorem eg_idle_start_locks_capacity:
  assumes "CTL_DELAY_US \<le> now_time e - t" and "now_bytes e = b"
    and "(msem_step eg_UpdateCapacity)\<^sup>*\<^sup>*
           \<lparr>sem = eg_UpdateCapacity e (eg_init 1 mx b t), holders = {}\<rparr> s"
  shows "m_policy (sem s) 1 = NaN \<and> unat (m_cap (sem s)) \<le> 2"
proof -
  let ?m = "eg_init 1 mx b t"
  have run: "\<not> now_time e - m_last_time ?m < CTL_DELAY_US"
    using assms(1) by (simp add: eg_init_def not_less)
  have "now_time e \<noteq> t" using assms(1) by (auto simp: CTL_DELAY_US_def)
  then have "ctl_reward e ?m = NaN"
    using assms(2) by (intro ctl_reward_idle) (simp_all add: eg_init_def)
  then have n: "m_policy (eg_UpdateCapacity e ?m) 1 = NaN"
    using run by (simp add: eg_UpdateCapacity_def Let_def eg_init_def dbl_inf_sgn_def)
  let ?n = "?m\<lparr>m_policy := (m_policy ?m)(1 := NaN)\<rparr>"
  have "ctl_reward e ?n = NaN"
    using \<open>ctl_reward e ?m = NaN\<close> by (simp only: ctl_reward_policy)
  then have "m_cap (eg_UpdateCapacity e ?m) = m_cap (eg_UpdateCapacity e ?n)"
    using run \<open>ctl_reward e ?m = NaN\<close>
    by (simp add: eg_UpdateCapacity_def Let_def eg_init_def dbl_inf_sgn_def)
  moreover have "unat (m_cap (eg_UpdateCapacity e ?n)) \<le> 2"
    using eg_nan_cap [of ?n e] by (simp add: eg_init_def)
  ultimately have "unat (m_cap (eg_UpdateCapacity e ?m)) \<le> 2" by simp
  with n eg_nan_reachable [OF assms(3)] show ?thesis by simp
qed

theorem eg_idle_start_locks_capacity_witness:
  "m_policy (eg_UpdateCapacity \<lparr>now_time = 700, now_bytes = 0, rand1 = 0, rand2 = 1\<rparr>
     (eg_init 1 32 0 0)) 1 = NaN"
  using eg_idle_start_locks_capacity
    [of "\<lparr>now_time = 700, now_bytes = 0, rand1 = 0, rand2 = 1\<rparr>" 0 0 32,
      OF _ _ rtranclp.rtrancl_refl]
  by (simp add: CTL_DELAY_US_def)

end
