(* ===== verification/Pcc_State.thy ===== *)
theory Pcc_State
  imports Bitmap Dbl "HOL-Library.Signed_Division"
begin

text \<open>
  State of the PCC overload controller of \<^verbatim>\<open>breakwater/src/pcc_server.c\<close>: the constants of
  \<^verbatim>\<open>pcc_config.h\<close> and \<^verbatim>\<open>pcc_proto.h\<close>, the wire headers, the request contexts and
  sessions, the controller's registers and the globals of the server.

  A \<^verbatim>\<open>BUG_ON\<close> that fires is the value \<open>None\<close>; the release build is modelled, in which
  \<^verbatim>\<open>assert\<close> is compiled out.  Pointers to sessions are keys of a finite map; dereferencing one
  that is not there is \<open>None\<close> as well.  The drained lists hold sessions in list order (the theory
  of \<^verbatim>\<open>base/list.h\<close> shows that the intrusive lists implement them).  A session's spin lock makes
  its critical sections atomic and is not part of the state.
\<close>

section \<open>Configuration and protocol constants\<close>

definition SPCC_QDELAY_BUDGET :: u64 where "SPCC_QDELAY_BUDGET = 300"
definition SPCC_RTT_US :: int where "SPCC_RTT_US = 40"
definition SPCC_PRE_MI_US :: u64 where "SPCC_PRE_MI_US = 200"
definition SPCC_MI_US :: u64 where "SPCC_MI_US = 400"
definition SPCC_EPSILON :: int where "SPCC_EPSILON = 1"
definition SPCC_MAX_WINDOW_EXP :: nat where "SPCC_MAX_WINDOW_EXP = 6"
definition SPCC_MAX_WINDOW :: nat where "SPCC_MAX_WINDOW = 64"
definition CPCC_MAX_CLIENT_DELAY_US :: int where "CPCC_MAX_CLIENT_DELAY_US = 40"
definition SPCC_MAX_NUM_MICRO_EXPS :: nat where "SPCC_MAX_NUM_MICRO_EXPS = 2"
definition SRPC_BUF_SIZE :: nat where "SRPC_BUF_SIZE = 2048"

definition PCC_REQ_MAGIC :: u32 where "PCC_REQ_MAGIC = 0x63727063"
definition PCC_RESP_MAGIC :: u32 where "PCC_RESP_MAGIC = 0x73727063"
definition PCC_OP_CALL :: u32 where "PCC_OP_CALL = 0"
definition PCC_OP_CREDIT :: u32 where "PCC_OP_CREDIT = 1"
definition PCC_SFLAG_DROP :: u8 where "PCC_SFLAG_DROP = 1"

lemmas pcc_consts = SPCC_QDELAY_BUDGET_def SPCC_RTT_US_def SPCC_PRE_MI_US_def SPCC_MI_US_def
  SPCC_EPSILON_def SPCC_MAX_WINDOW_EXP_def SPCC_MAX_WINDOW_def CPCC_MAX_CLIENT_DELAY_US_def
  SPCC_MAX_NUM_MICRO_EXPS_def SRPC_BUF_SIZE_def

section \<open>Wire headers\<close>

text \<open>Client to server and server to client; \<^verbatim>\<open>op\<close>, \<^verbatim>\<open>magic\<close> and lengths as on the wire.
  A field the sender leaves uninitialised is an input of the function that builds the header.\<close>

record cpcc_hdr =
  ch_magic :: u32
  ch_op :: u32
  ch_len :: nat
  ch_id :: u64
  ch_demand :: u64
  ch_ts_sent :: u64
  ch_flags :: u8

record spcc_hdr =
  sh_magic :: u32
  sh_op :: u32
  sh_len :: nat
  sh_id :: u64
  sh_credit :: u64
  sh_ts_sent :: u64
  sh_flags :: u8

section \<open>Requests and sessions\<close>

text \<open>\<^verbatim>\<open>struct srpc_ctx\<close> and its extension \<^verbatim>\<open>struct spcc_ctx\<close>; the buffers hold bytes.\<close>

record srpc_ctx =
  c_idx :: nat
  c_id :: u64
  c_req_len :: nat
  c_resp_len :: nat
  c_req_buf :: "u8 list"
  c_resp_buf :: "u8 list"
  c_drop :: bool
  c_ds_credit :: u64

record spcc_ctx = srpc_ctx +
  c_ts_sent :: u64
  c_opaque :: nat

text \<open>Where the sender thread of a session stands: waiting for work at the top of its loop; about to
  send an explicit credit; about to send the completions of the slots in \<open>tmp\<close> with the credit and
  drained core it read under the lock; about to enter the drained list; waiting to close; done.\<close>

datatype sender_pc =
    SWait
  | SCredit
  | SSend bitmap int int
  | SDrain int int
  | SClose
  | SDone

record spcc_session =
  s_id :: int
  s_drained_core :: int
  s_is_linked :: bool
  s_drained_ts :: u64
  s_wake_up :: bool
  s_send_waiter :: int
  s_credit :: int
  s_advertised :: int
  s_num_pending :: int
  s_need_ecredit :: bool
  s_demand :: u64
  s_last_ecredit_timestamp :: u64
  s_avail_slots :: bitmap
  s_closed :: bool
  s_sender_th :: bool
  s_completed_slots :: bitmap
  s_slots :: "nat \<rightharpoonup> spcc_ctx"
  s_pc :: sender_pc
  s_workers :: "nat set"

text \<open>\<^verbatim>\<open>sender_th\<close> is \<open>NULL\<close> or the session's own sender, so a truth value.  \<open>s_pc\<close> and
  \<open>s_workers\<close> are the control state of the threads of the session: its sender, and the worker
  threads spawned for its slots that have not completed them.\<close>

section \<open>The controller\<close>

datatype spcc_ctl_state =
    SPCC_CTL_STATE_PREPARE_MICRO_EXP
  | SPCC_CTL_STATE_START_MICRO_EXP
  | SPCC_CTL_STATE_END_MICRO_EXP
  | SPCC_CTL_STATE_MAKE_DECISION

datatype spcc_dir = SPCC_DIR_MINUS | SPCC_DIR_STAY | SPCC_DIR_PLUS

record spcc_micro_exp_stats =
  me_duration :: u64
  me_in_reqs :: u64
  me_out_resps :: u64
  me_good_out_resps :: u64
  me_drop_reqs :: u64
  me_qdelay :: u64
  me_mem_accesses :: u64
  me_energy_consumed :: dbl
  me_utility :: dbl

record pcc_ctl =
  srpc_pcc_last_wakeup :: u64
  srpc_pcc_next_update :: u64
  srpc_pcc_state :: spcc_ctl_state
  srpc_pcc_in_reqs :: "nat \<Rightarrow> u64"
  srpc_pcc_out_resps :: "nat \<Rightarrow> u64"
  srpc_pcc_good_out_resps :: "nat \<Rightarrow> u64"
  srpc_pcc_drop_reqs :: "nat \<Rightarrow> u64"
  srpc_pcc_start_ts :: "nat \<Rightarrow> u64"
  srpc_pcc_end_ts :: "nat \<Rightarrow> u64"
  srpc_pcc_qdelay :: "nat \<Rightarrow> u64"
  srpc_pcc_mem_accesses :: "nat \<Rightarrow> u64"
  srpc_pcc_energy_consumed :: "nat \<Rightarrow> dbl"
  srpc_pcc_micro_exp_id :: nat
  srpc_pcc_num_micro_exps :: nat
  srpc_pcc_micro_exp_dirs :: "nat \<Rightarrow> int"
  srpc_pcc_orig_cp :: int

record pcc_stat =
  srpc_stat_cupdate_rx :: u64
  srpc_stat_ecredit_tx :: u64
  srpc_stat_credit_tx :: u64
  srpc_stat_req_rx :: u64
  srpc_stat_req_dropped :: u64
  srpc_stat_resp_tx :: u64

section \<open>The server\<close>

text \<open>What the server does to the outside: make a sender thread runnable, spawn a worker, write to
  a connection.\<close>

datatype pcc_io =
    ThreadReady nat
  | SpawnWorker nat nat
  | SpawnSender nat
  | Write nat "(spcc_hdr \<times> u8 list) list"

record srpc_drained_ =
  list_h :: "nat list"
  list_l :: "nat list"

record pcc =
  sessions :: "nat \<rightharpoonup> spcc_session"
  srpc_drained :: "nat \<Rightarrow> srpc_drained_"
  srpc_num_sess :: int
  srpc_num_drained :: int
  srpc_credit_pool :: int
  srpc_credit_used :: int
  srpc_credit_ds :: int
  srpc_num_pending :: int
  srpc_avg_st :: int
  ctl :: pcc_ctl
  stat :: pcc_stat
  io :: "pcc_io list"

definition BUG_ON :: "bool \<Rightarrow> unit option" where
  "BUG_ON c = (if c then None else Some ())"

lemma BUG_ON_simps [simp]: "BUG_ON c = Some u \<longleftrightarrow> \<not> c" "BUG_ON c = None \<longleftrightarrow> c"
  by (simp_all add: BUG_ON_def)

definition put_sess :: "nat \<Rightarrow> spcc_session \<Rightarrow> pcc \<Rightarrow> pcc" where
  "put_sess k s w = w\<lparr>sessions := (sessions w)(k \<mapsto> s)\<rparr>"

definition emit :: "pcc_io list \<Rightarrow> pcc \<Rightarrow> pcc" where
  "emit es w = w\<lparr>io := io w @ es\<rparr>"

text \<open>\<^verbatim>\<open>th = s->sender_th; s->sender_th = NULL; ... if (th) thread_ready(th)\<close>\<close>

definition ready_sender :: "nat \<Rightarrow> spcc_session \<Rightarrow> pcc_io list" where
  "ready_sender k s = (if s_sender_th s then [ThreadReady k] else [])"

section \<open>Zeroed memory\<close>

text \<open>A session after \<^verbatim>\<open>memset(s, 0, sizeof(*s))\<close>, and the static variables as the program
  starts.\<close>

definition zero_session :: spcc_session where
  "zero_session =
     \<lparr>s_id = 0, s_drained_core = 0, s_is_linked = False, s_drained_ts = 0, s_wake_up = False,
      s_send_waiter = 0, s_credit = 0, s_advertised = 0, s_num_pending = 0, s_need_ecredit = False,
      s_demand = 0, s_last_ecredit_timestamp = 0, s_avail_slots = [0], s_closed = False,
      s_sender_th = False, s_completed_slots = [0], s_slots = Map.empty, s_pc = SWait,
      s_workers = {}\<rparr>"

definition zero_ctl :: pcc_ctl where
  "zero_ctl =
     \<lparr>srpc_pcc_last_wakeup = 0, srpc_pcc_next_update = 0,
      srpc_pcc_state = SPCC_CTL_STATE_PREPARE_MICRO_EXP, srpc_pcc_in_reqs = (\<lambda>_. 0),
      srpc_pcc_out_resps = (\<lambda>_. 0), srpc_pcc_good_out_resps = (\<lambda>_. 0),
      srpc_pcc_drop_reqs = (\<lambda>_. 0), srpc_pcc_start_ts = (\<lambda>_. 0), srpc_pcc_end_ts = (\<lambda>_. 0),
      srpc_pcc_qdelay = (\<lambda>_. 0), srpc_pcc_mem_accesses = (\<lambda>_. 0),
      srpc_pcc_energy_consumed = (\<lambda>_. Fin 0), srpc_pcc_micro_exp_id = 0,
      srpc_pcc_num_micro_exps = 0, srpc_pcc_micro_exp_dirs = (\<lambda>_. 0), srpc_pcc_orig_cp = 0\<rparr>"

definition zero_pcc :: pcc where
  "zero_pcc =
     \<lparr>sessions = Map.empty, srpc_drained = (\<lambda>_. \<lparr>list_h = [], list_l = []\<rparr>), srpc_num_sess = 0,
      srpc_num_drained = 0, srpc_credit_pool = 0, srpc_credit_used = 0, srpc_credit_ds = 0,
      srpc_num_pending = 0, srpc_avg_st = 0, ctl = zero_ctl,
      stat = \<lparr>srpc_stat_cupdate_rx = 0, srpc_stat_ecredit_tx = 0, srpc_stat_credit_tx = 0,
              srpc_stat_req_rx = 0, srpc_stat_req_dropped = 0, srpc_stat_resp_tx = 0\<rparr>,
      io = []\<rparr>"

end
