(* ===== verification/Pcc_Slots.thy ===== *)
theory Pcc_Slots
  imports Pcc_State
begin

text \<open>
  The request slots of a session and the messages that leave it: \<^verbatim>\<open>srpc_get_slot\<close>,
  \<^verbatim>\<open>srpc_put_slot\<close>, \<^verbatim>\<open>srpc_send_ecredit\<close> and \<^verbatim>\<open>srpc_send_completion_vector\<close> of
  \<^verbatim>\<open>pcc_server.c\<close>.
\<close>

section \<open>Operations\<close>

fun slot_scan :: "bitmap \<Rightarrow> nat \<Rightarrow> nat \<Rightarrow> int \<Rightarrow> int \<times> nat" where
  "slot_scan bits base 0 slot = (slot, base)"
| "slot_scan bits base (Suc n) slot =
     (let slot = int (ffsl (bits ! base)) - 1
      in if slot \<ge> 0 then (slot, base) else slot_scan bits (Suc base) n slot)"

text \<open>\<open>mem\<close> is the uninitialised memory \<^verbatim>\<open>smalloc\<close> returns.\<close>

definition srpc_get_slot :: "spcc_ctx \<Rightarrow> spcc_session \<Rightarrow> int \<times> spcc_session" where
  "srpc_get_slot mem s =
     (let (slot, base) = slot_scan (s_avail_slots s) 0 (BITMAP_LONG_SIZE SPCC_MAX_WINDOW) (-1)
      in if slot \<ge> 0
         then let slot = slot + 64 * int base;
                  c = mem\<lparr>c_idx := nat slot, c_ds_credit := 0, c_drop := False\<rparr>
              in (slot, s\<lparr>s_avail_slots := bitmap_atomic_clear (s_avail_slots s) (nat slot),
                          s_slots := (s_slots s)(nat slot \<mapsto> c)\<rparr>)
         else (slot, s))"

definition srpc_put_slot :: "nat \<Rightarrow> spcc_session \<Rightarrow> spcc_session" where
  "srpc_put_slot slot s =
     s\<lparr>s_slots := (s_slots s)(slot := None),
       s_avail_slots := bitmap_atomic_set (s_avail_slots s) slot\<rparr>"

text \<open>The explicit-credit message leaves \<^verbatim>\<open>id\<close>, \<^verbatim>\<open>ts_sent\<close> and \<^verbatim>\<open>flags\<close> of the
  header as the stack had them (\<open>junk\<close>); \<open>ret\<close> is what \<^verbatim>\<open>tcp_write_full\<close> returned.\<close>

definition srpc_send_ecredit :: "spcc_hdr \<Rightarrow> int \<Rightarrow> nat \<Rightarrow> spcc_session \<Rightarrow> pcc \<Rightarrow> int \<times> pcc" where
  "srpc_send_ecredit junk ret k s w =
     (let shdr = junk\<lparr>sh_magic := PCC_RESP_MAGIC, sh_op := PCC_OP_CREDIT, sh_len := 0,
                      sh_credit := u64_of_int (s_credit s)\<rparr>;
          w = emit [Write k [(shdr, [])]] w
      in if ret < 0 then (ret, w)
         else (0, w\<lparr>stat := (stat w)\<lparr>srpc_stat_ecredit_tx := srpc_stat_ecredit_tx (stat w) + 1\<rparr>\<rparr>))"

definition completion_entry :: "spcc_session \<Rightarrow> spcc_ctx \<Rightarrow> spcc_hdr \<times> u8 list" where
  "completion_entry s c =
     (let (len, buf, flags) =
            (if \<not> c_drop c then (c_resp_len c, c_resp_buf c, 0)
             else (c_req_len c, c_req_buf c, PCC_SFLAG_DROP))
      in (\<lparr>sh_magic = PCC_RESP_MAGIC, sh_op = PCC_OP_CALL, sh_len = len, sh_id = c_id c,
           sh_credit = u64_of_int (s_credit s), sh_ts_sent = c_ts_sent c, sh_flags = flags\<rparr>,
          take len buf))"

fun completion_entries :: "spcc_session \<Rightarrow> nat list \<Rightarrow> (spcc_hdr \<times> u8 list) list option" where
  "completion_entries s [] = Some []"
| "completion_entries s (i # is') =
     do {
       c \<leftarrow> s_slots s i;
       es \<leftarrow> completion_entries s is';
       Some (completion_entry s c # es)
     }"

definition srpc_send_completion_vector ::
  "int \<Rightarrow> nat \<Rightarrow> bitmap \<Rightarrow> spcc_session \<Rightarrow> pcc \<Rightarrow> (int \<times> spcc_session \<times> pcc) option"
where
  "srpc_send_completion_vector ret k slots s w =
     do {
       es \<leftarrow> completion_entries s (bitmap_for_each_set slots SPCC_MAX_WINDOW);
       if es = [] then Some (0, s, w)
       else do {
         let s = fold srpc_put_slot (bitmap_for_each_set slots SPCC_MAX_WINDOW) s;
         let nrhdr = length es;
         let w = emit [Write k es] w;
         let w = w\<lparr>srpc_num_pending := srpc_num_pending w - int nrhdr,
                   stat := (stat w)\<lparr>srpc_stat_resp_tx :=
                             srpc_stat_resp_tx (stat w) + of_nat nrhdr\<rparr>\<rparr>;
         Some (if ret < 0 then ret else 0, s, w)
       }
     }"

section \<open>Bitmaps of one window\<close>

definition window_ok :: "bitmap \<Rightarrow> bool" where
  "window_ok b \<longleftrightarrow> length b = 1"

lemma window_popcount: "window_ok b \<Longrightarrow> bitmap_popcount b SPCC_MAX_WINDOW = card (bm_set b)"
  using bm.count [of b 1] by (simp add: window_ok_def SPCC_MAX_WINDOW_def)

lemma window_sub: "window_ok b \<Longrightarrow> bm_set b \<subseteq> {..<64}"
  using bm.sub [of b 1] by (simp add: window_ok_def)

lemma window_set:
  "window_ok b \<Longrightarrow> p < 64 \<Longrightarrow> bm_set (bitmap_set b p) = insert p (bm_set b) \<and> window_ok (bitmap_set b p)"
  using bm.set [of b 1 p] by (simp add: window_ok_def)

lemma window_clear:
  "window_ok b \<Longrightarrow> p < 64 \<Longrightarrow> bm_set (bitmap_clear b p) = bm_set b - {p} \<and> window_ok (bitmap_clear b p)"
  using bm.clear [of b 1 p] by (simp add: window_ok_def)

lemma window_init:
  "bm_set (bitmap_init SPCC_MAX_WINDOW f) = (if f then {..<64} else {})"
  "window_ok (bitmap_init SPCC_MAX_WINDOW f)"
  using bm_set_init [of 1 f] length_bitmap_init [of 1 f]
  by (simp_all add: SPCC_MAX_WINDOW_def window_ok_def)

lemma window_each:
  assumes "window_ok b"
  shows "set (bitmap_for_each_set b SPCC_MAX_WINDOW) = bm_set b"
    and "distinct (bitmap_for_each_set b SPCC_MAX_WINDOW)"
    and "length (bitmap_for_each_set b SPCC_MAX_WINDOW) = card (bm_set b)"
proof -
  have t: "bitmap_test b p \<longleftrightarrow> p \<in> bm_set b" if "p < 64" for p
    using bm.test [of b 1 p] that assms by (simp add: window_ok_def)
  have e: "bitmap_for_each_set b SPCC_MAX_WINDOW = filter (\<lambda>p. p \<in> bm_set b) [0..<64]"
    using t by (auto simp: bitmap_for_each_set_filter SPCC_MAX_WINDOW_def intro!: filter_cong)
  show s: "set (bitmap_for_each_set b SPCC_MAX_WINDOW) = bm_set b"
    using window_sub [OF assms] by (auto simp: e)
  show d: "distinct (bitmap_for_each_set b SPCC_MAX_WINDOW)" by (simp add: e)
  show "length (bitmap_for_each_set b SPCC_MAX_WINDOW) = card (bm_set b)"
    using s d by (metis distinct_card)
qed

section \<open>Slots\<close>

lemma BITMAP_LONG_SIZE_window: "BITMAP_LONG_SIZE SPCC_MAX_WINDOW = Suc 0"
  using BITMAP_LONG_SIZE_mult [of 1] by (simp add: SPCC_MAX_WINDOW_def)

lemma window_word:
  assumes "window_ok b"
  shows "p \<in> bm_set b \<longleftrightarrow> p < 64 \<and> bit (b ! 0) p" and "bm_set b = {} \<longleftrightarrow> b ! 0 = 0"
proof -
  show p: "p \<in> bm_set b \<longleftrightarrow> p < 64 \<and> bit (b ! 0) p" for p
    using assms by (auto simp: bm_set_def window_ok_def)
  show "bm_set b = {} \<longleftrightarrow> b ! 0 = 0"
  proof
    assume "bm_set b = {}"
    with p have "\<And>n. n < 64 \<Longrightarrow> \<not> bit (b ! 0) n" by blast
    then show "b ! 0 = 0" by (intro bit_word_eqI) simp
  qed (use p in auto)
qed

lemma srpc_get_slot_none:
  assumes "window_ok (s_avail_slots s)" and "bm_set (s_avail_slots s) = {}"
  shows "srpc_get_slot mem s = (-1, s)"
  using assms window_word(2) [OF assms(1)]
  by (simp add: srpc_get_slot_def BITMAP_LONG_SIZE_window ffsl_zero [THEN iffD2])

lemma srpc_get_slot_some:
  assumes "window_ok (s_avail_slots s)" and "bm_set (s_avail_slots s) \<noteq> {}"
  obtains i where "i \<in> bm_set (s_avail_slots s)" and "i < 64"
    and "srpc_get_slot mem s =
      (int i, s\<lparr>s_avail_slots := bitmap_clear (s_avail_slots s) i,
                s_slots := (s_slots s)(i \<mapsto> mem\<lparr>c_idx := i, c_ds_credit := 0, c_drop := False\<rparr>)\<rparr>)"
proof -
  let ?a = "s_avail_slots s ! 0"
  have nz: "?a \<noteq> 0" using assms window_word(2) by blast
  let ?i = "ffsl ?a - 1"
  have i: "?i < 64" "bit ?a ?i" "0 < ffsl ?a" using ffsl_least [OF nz] by auto
  then have slot: "int (ffsl ?a) - 1 = int ?i" by simp
  show ?thesis
  proof
    show "?i \<in> bm_set (s_avail_slots s)" using i window_word(1) [OF assms(1)] by simp
    show "?i < 64" by (rule i)
    show "srpc_get_slot mem s =
      (int ?i, s\<lparr>s_avail_slots := bitmap_clear (s_avail_slots s) ?i,
                s_slots := (s_slots s)(?i \<mapsto> mem\<lparr>c_idx := ?i, c_ds_credit := 0, c_drop := False\<rparr>)\<rparr>)"
      unfolding srpc_get_slot_def BITMAP_LONG_SIZE_window slot_scan.simps slot Let_def
      by (simp add: bitmap_atomic_simps)
  qed
qed

lemma completion_entries_some:
  "set is' \<subseteq> dom (s_slots s) \<Longrightarrow>
   completion_entries s is' = Some (map (\<lambda>i. completion_entry s (the (s_slots s i))) is')"
  by (induction is') auto

lemma completion_entries_length:
  "completion_entries s is' = Some es \<Longrightarrow> length es = length is' \<and> set is' \<subseteq> dom (s_slots s)"
  by (induction is' arbitrary: es) (auto simp: bind_eq_Some_conv)

lemma fold_put_slot:
  assumes "window_ok (s_avail_slots s)" and "set is' \<subseteq> {..<64}"
  shows "\<exists>a. fold srpc_put_slot is' s = s\<lparr>s_slots := s_slots s |` (- set is'), s_avail_slots := a\<rparr>
    \<and> window_ok a \<and> bm_set a = bm_set (s_avail_slots s) \<union> set is'"
  using assms
proof (induction is' arbitrary: s)
  case Nil
  then show ?case by (auto simp: restrict_map_def intro!: exI [of _ "s_avail_slots s"])
next
  case (Cons i is')
  let ?s = "srpc_put_slot i s"
  have av: "s_avail_slots ?s = bitmap_set (s_avail_slots s) i"
    by (simp add: srpc_put_slot_def bitmap_atomic_simps)
  have "window_ok (s_avail_slots ?s)" "bm_set (s_avail_slots ?s) = insert i (bm_set (s_avail_slots s))"
    using Cons.prems window_set [of "s_avail_slots s" i] by (simp_all add: av)
  with Cons.IH [of ?s] Cons.prems obtain a where
    a: "fold srpc_put_slot is' ?s = ?s\<lparr>s_slots := s_slots ?s |` (- set is'), s_avail_slots := a\<rparr>"
    "window_ok a" "bm_set a = insert i (bm_set (s_avail_slots s)) \<union> set is'" by auto
  have sl: "s_slots ?s |` (- set is') = s_slots s |` (- set (i # is'))"
    by (auto simp: srpc_put_slot_def restrict_map_def fun_eq_iff)
  have "fold srpc_put_slot (i # is') s
      = s\<lparr>s_slots := s_slots s |` (- set (i # is')), s_avail_slots := a\<rparr>"
    unfolding fold_simps comp_apply a(1) sl by (simp add: srpc_put_slot_def)
  with a(2,3) show ?case by auto
qed

end
