(* ===== verification/Pcc_Credit.thy ===== *)
theory Pcc_Credit
  imports Pcc_Slots
begin

text \<open>
  \<^verbatim>\<open>srpc_update_credit\<close> of \<^verbatim>\<open>pcc_server.c\<close>: how many credits a session holds after its
  sender has collected the completed requests.  The demand is a \<^verbatim>\<open>uint64_t\<close> chosen by the
  client, so the mixed signed and unsigned arithmetic is kept as C evaluates it; an ideal definition
  on the integers is shown to agree with it wherever nothing overflows.
\<close>

section \<open>Operation\<close>

text \<open>\<^verbatim>\<open>s->num_pending + s->demand + max_overprovision\<close>, an unsigned 64-bit sum\<close>

definition window_demand :: "spcc_session \<Rightarrow> int \<Rightarrow> u64" where
  "window_demand s mo = u64_of_int (s_num_pending s) + s_demand s + u64_of_int mo"

text \<open>The globals are read one by one without a lock: \<open>rd\<close> is the server as the readings show it,
  \<open>w\<close> the server when the difference is added to \<^verbatim>\<open>srpc_credit_used\<close>.\<close>

definition seen_pool :: "pcc \<Rightarrow> int" where
  "seen_pool rd =
     (if srpc_credit_ds rd > 0 then min (srpc_credit_pool rd) (srpc_credit_ds rd)
      else srpc_credit_pool rd)"

definition credit_unused :: "pcc \<Rightarrow> int" where
  "credit_unused rd = seen_pool rd - srpc_credit_used rd"

definition max_overprovision :: "pcc \<Rightarrow> int" where
  "max_overprovision rd = max (credit_unused rd sdiv srpc_num_sess rd) 1"

definition credit_unclamped :: "int \<Rightarrow> pcc \<Rightarrow> bool \<Rightarrow> spcc_session \<Rightarrow> int" where
  "credit_unclamped max_cores rd req_dropped s =
     (let mo = max_overprovision rd;
          c = (if srpc_credit_used rd < seen_pool rd
               then int_of_u64 (min (window_demand s mo) (u64_of_int (s_credit s + credit_unused rd)))
               else if srpc_credit_used rd > seen_pool rd then s_credit s - 1
               else s_credit s);
          c = (if s_wake_up s \<or> srpc_num_sess rd \<le> max_cores then max c mo else c)
      in if s_credit s > 0 \<and> c = 0 \<and> \<not> req_dropped then mo else c)"

definition srpc_update_credit ::
  "int \<Rightarrow> pcc \<Rightarrow> bool \<Rightarrow> spcc_session \<Rightarrow> pcc \<Rightarrow> (spcc_session \<times> pcc) option"
where
  "srpc_update_credit max_cores rd req_dropped s w =
     (if s_drained_core s \<noteq> -1 then Some (s, w)
      else if srpc_num_sess rd = 0 then None
      else
        let old_credit = s_credit s;
            c = credit_unclamped max_cores rd req_dropped s;
            c = max c (s_num_pending s);
            c = min c (int SPCC_MAX_WINDOW - 1);
            c = int_of_u64 (min (u64_of_int c) (window_demand s (max_overprovision rd)));
            credit_diff = c - old_credit
        in Some (s\<lparr>s_credit := c\<rparr>,
                 w\<lparr>srpc_credit_used := srpc_credit_used w + credit_diff\<rparr>))"

section \<open>Bounds for every demand\<close>

lemma int_of_u64_min:
  assumes "0 \<le> c" and "c < 2 ^ 31"
  shows "0 \<le> int_of_u64 (min (u64_of_int c) d) \<and> int_of_u64 (min (u64_of_int c) d) \<le> c"
proof -
  have u: "unat (u64_of_int c) = nat c" using assms by (intro unat_u64_of_int) auto
  then have "unat (min (u64_of_int c) d) \<le> nat c"
    by (metis min.cobounded1 word_le_nat_alt)
  moreover have "nat c < 2 ^ 31" using assms by (simp add: nat_less_iff)
  ultimately have "int_of_u64 (min (u64_of_int c) d) = int (unat (min (u64_of_int c) d))"
    by (intro int_of_u64_small) linarith
  with \<open>unat (min (u64_of_int c) d) \<le> nat c\<close> assms show ?thesis by linarith
qed

lemma srpc_update_credit_drained:
  "s_drained_core s \<noteq> -1 \<Longrightarrow> srpc_update_credit mc rd rq s w = Some (s, w)"
  by (simp add: srpc_update_credit_def)

lemma srpc_update_credit_frame:
  assumes "s_drained_core s = -1" and "srpc_num_sess rd \<noteq> 0" and "0 \<le> s_num_pending s"
  obtains c where "0 \<le> c" and "c \<le> 63"
    and "srpc_update_credit mc rd rq s w =
           Some (s\<lparr>s_credit := c\<rparr>, w\<lparr>srpc_credit_used := srpc_credit_used w + (c - s_credit s)\<rparr>)"
proof -
  define c where "c = min (max (credit_unclamped mc rd rq s) (s_num_pending s)) (int SPCC_MAX_WINDOW - 1)"
  define c' where "c' = int_of_u64 (min (u64_of_int c) (window_demand s (max_overprovision rd)))"
  have c: "0 \<le> c" "c \<le> 63" using assms(3) by (simp_all add: c_def SPCC_MAX_WINDOW_def)
  then have "c < 2 ^ 31" by simp
  with c int_of_u64_min [of c] have c': "0 \<le> c'" "c' \<le> 63" unfolding c'_def by (auto intro: order_trans)
  have "srpc_update_credit mc rd rq s w =
    Some (s\<lparr>s_credit := c'\<rparr>, w\<lparr>srpc_credit_used := srpc_credit_used w + (c' - s_credit s)\<rparr>)"
    using assms(1,2) by (simp add: srpc_update_credit_def c'_def c_def Let_def)
  with c' that show ?thesis by blast
qed

section \<open>The ideal update\<close>

text \<open>The same update on the integers, without conversions.\<close>

definition ideal_credit :: "int \<Rightarrow> int \<Rightarrow> int \<Rightarrow> int \<Rightarrow> bool \<Rightarrow> spcc_session \<Rightarrow> int" where
  "ideal_credit max_cores pool used num_sess req_dropped s =
     (let unused = pool - used;
          mo = max (unused sdiv num_sess) 1;
          want = s_num_pending s + int (unat (s_demand s)) + mo;
          c = (if used < pool then min want (s_credit s + unused)
               else if used > pool then s_credit s - 1 else s_credit s);
          c = (if s_wake_up s \<or> num_sess \<le> max_cores then max c mo else c);
          c = (if s_credit s > 0 \<and> c = 0 \<and> \<not> req_dropped then mo else c)
      in min (min (max c (s_num_pending s)) 63) want)"

text \<open>Readings and a demand for which no C conversion changes a value.\<close>

definition credit_in_range :: "pcc \<Rightarrow> spcc_session \<Rightarrow> bool" where
  "credit_in_range rd s \<longleftrightarrow>
     0 \<le> s_credit s \<and> s_credit s \<le> 63 \<and> 0 \<le> s_num_pending s \<and> s_num_pending s \<le> 64 \<and>
     unat (s_demand s) < 2 ^ 32 \<and> 0 < srpc_num_sess rd \<and>
     0 \<le> srpc_credit_used rd \<and> srpc_credit_used rd < 2 ^ 30 \<and>
     0 \<le> srpc_credit_pool rd \<and> srpc_credit_pool rd < 2 ^ 30"

lemma int_of_u64_min_exact:
  assumes "0 \<le> a" and "a < 2 ^ 62" and "0 \<le> b" and "b < 2 ^ 31"
  shows "int_of_u64 (min (u64_of_int a) (u64_of_int b)) = min a b"
proof -
  have u: "unat (u64_of_int a) = nat a" "unat (u64_of_int b) = nat b"
    using assms by (auto intro!: unat_u64_of_int)
  then have m: "unat (min (u64_of_int a) (u64_of_int b)) = nat (min a b)"
    using assms by (auto simp: min_def word_le_nat_alt)
  moreover have "nat (min a b) < 2 ^ 31" using assms by (simp add: nat_less_iff min_less_iff_disj)
  ultimately have "int_of_u64 (min (u64_of_int a) (u64_of_int b)) = int (nat (min a b))"
    by (subst int_of_u64_small) simp_all
  with assms show ?thesis by simp
qed

lemma sdiv_le: "0 < n \<Longrightarrow> x sdiv n \<le> max x 0" for x n :: int
proof (cases "0 \<le> x")
  case True
  assume "0 < n"
  with True show ?thesis
    using div_le_dividend [of "nat x" "nat n"]
    by (simp add: signed_divide_int_def sgn_if zdiv_int nat_le_iff flip: nat_div_distrib)
next
  case False
  assume "0 < n"
  with False show ?thesis by (simp add: signed_divide_int_def sgn_if pos_imp_zdiv_nonneg_iff)
qed

lemma credit_in_range_bounds:
  assumes "credit_in_range rd s"
  shows "1 \<le> max_overprovision rd" and "max_overprovision rd < 2 ^ 30"
    and "window_demand s (max_overprovision rd) =
           u64_of_int (s_num_pending s + int (unat (s_demand s)) + max_overprovision rd)"
    and "credit_unused rd < 2 ^ 30"
proof -
  show "1 \<le> max_overprovision rd" by (simp add: max_overprovision_def)
  show "credit_unused rd < 2 ^ 30"
    using assms by (auto simp: credit_unused_def seen_pool_def credit_in_range_def min_def)
  then show "max_overprovision rd < 2 ^ 30"
    using sdiv_le [of "srpc_num_sess rd" "credit_unused rd"] assms
    by (auto simp: max_overprovision_def credit_in_range_def)
  have "s_demand s = word_of_int (int (unat (s_demand s)))" by simp
  then show "window_demand s (max_overprovision rd) =
     u64_of_int (s_num_pending s + int (unat (s_demand s)) + max_overprovision rd)"
    by (simp add: window_demand_def u64_of_int_def)
qed

lemma srpc_update_credit_ideal:
  assumes "credit_in_range rd s" and "s_drained_core s = -1"
  shows "srpc_update_credit mc rd rq s w =
    (let c = ideal_credit mc (seen_pool rd) (srpc_credit_used rd) (srpc_num_sess rd) rq s
     in Some (s\<lparr>s_credit := c\<rparr>, w\<lparr>srpc_credit_used := srpc_credit_used w + (c - s_credit s)\<rparr>))"
proof -
  let ?mo = "max_overprovision rd" and ?n = "s_num_pending s + int (unat (s_demand s))"
  let ?want = "?n + ?mo"
  note b = credit_in_range_bounds [OF assms(1)]
  have "int (unat (s_demand s)) < 2 ^ 32"
    using assms(1) unfolding credit_in_range_def of_nat_less_numeral_power_cancel_iff by blast
  then have want: "0 \<le> ?want" "?want < 2 ^ 62"
    using assms(1) b(1,2) by (auto simp: credit_in_range_def)
  have grant: "int_of_u64 (min (window_demand s ?mo) (u64_of_int (s_credit s + credit_unused rd)))
      = min ?want (s_credit s + credit_unused rd)" if "srpc_credit_used rd < seen_pool rd"
  proof -
    have "0 < credit_unused rd" using that by (simp add: credit_unused_def)
    then have "0 \<le> s_credit s + credit_unused rd" "s_credit s + credit_unused rd < 2 ^ 31"
      using assms(1) b(4) by (simp_all add: credit_in_range_def)
    with want show ?thesis unfolding b(3) by (intro int_of_u64_min_exact)
  qed
  define c where "c = min (max (credit_unclamped mc rd rq s) (s_num_pending s)) 63"
  have "0 \<le> c" "c < 2 ^ 31" using assms(1) by (auto simp: c_def credit_in_range_def)
  then have "int_of_u64 (min (u64_of_int c) (window_demand s ?mo)) = min ?want c"
    unfolding b(3) min.commute [of "u64_of_int c"] using want by (intro int_of_u64_min_exact)
  then have "srpc_update_credit mc rd rq s w =
     Some (s\<lparr>s_credit := min ?want c\<rparr>,
           w\<lparr>srpc_credit_used := srpc_credit_used w + (min ?want c - s_credit s)\<rparr>)"
    using assms by (simp add: srpc_update_credit_def credit_in_range_def SPCC_MAX_WINDOW_def Let_def c_def)
  moreover have "min ?want c
      = ideal_credit mc (seen_pool rd) (srpc_credit_used rd) (srpc_num_sess rd) rq s"
    using grant unfolding ideal_credit_def c_def credit_unclamped_def Let_def
      max_overprovision_def credit_unused_def by (simp only: min.commute cong: if_cong)
  ultimately show ?thesis by (simp add: Let_def)
qed

lemma ideal_credit_policy:
  fixes pool used n mc :: int and rq :: bool
  assumes "0 \<le> s_num_pending s" and "0 \<le> s_credit s"
  defines "mo \<equiv> max ((pool - used) sdiv n) 1"
  defines "want \<equiv> s_num_pending s + int (unat (s_demand s)) + mo"
  defines "c \<equiv> ideal_credit mc pool used n rq s"
  shows "min (s_num_pending s) 63 \<le> c" and "c \<le> want"
    and "used > pool \<Longrightarrow> \<not> s_wake_up s \<Longrightarrow> n > mc \<Longrightarrow> s_credit s \<noteq> 1 \<or> rq \<Longrightarrow>
         c \<le> max (s_credit s - 1) (s_num_pending s)"
    and "used < pool \<Longrightarrow> c \<le> max (s_credit s + (pool - used)) (max mo (s_num_pending s))"
proof -
  define x0 where "x0 = (if used < pool then min want (s_credit s + (pool - used))
    else if used > pool then s_credit s - 1 else s_credit s)"
  define x1 where "x1 = (if s_wake_up s \<or> n \<le> mc then max x0 mo else x0)"
  define x2 where "x2 = (if s_credit s > 0 \<and> x1 = 0 \<and> \<not> rq then mo else x1)"
  have c: "c = min (min (max x2 (s_num_pending s)) 63) want"
    by (simp only: c_def ideal_credit_def Let_def x2_def x1_def x0_def want_def mo_def)
  have "s_num_pending s \<le> want" by (simp add: want_def mo_def)
  with c show "min (s_num_pending s) 63 \<le> c" and "c \<le> want" by linarith+
  show "c \<le> max (s_credit s - 1) (s_num_pending s)"
    if "used > pool" "\<not> s_wake_up s" "n > mc" "s_credit s \<noteq> 1 \<or> rq"
  proof -
    have "x2 = s_credit s - 1" using that assms(2) by (auto simp: x2_def x1_def x0_def)
    with c show ?thesis by linarith
  qed
  show "c \<le> max (s_credit s + (pool - used)) (max mo (s_num_pending s))" if "used < pool"
  proof -
    have "x0 \<le> s_credit s + (pool - used)" using that by (simp add: x0_def)
    then have "x1 \<le> max (s_credit s + (pool - used)) mo" by (simp add: x1_def max.coboundedI1)
    then have "x2 \<le> max (s_credit s + (pool - used)) mo" by (simp add: x2_def)
    with c show ?thesis by linarith
  qed
qed

section \<open>Properties\<close>

text \<open>C14. Whatever demand the client declared and whatever the unlocked readings of the globals
  showed, the update of a session that is not drained succeeds, changes only its credit and the
  global count, keeps the credit between 0 and 63, and adds to \<^verbatim>\<open>srpc_credit_used\<close> exactly the
  difference.\<close>

theorem credit_update_bounded:
  assumes "s_drained_core s = -1" and "srpc_num_sess rd \<noteq> 0" and "0 \<le> s_num_pending s"
  shows "\<exists>c. 0 \<le> c \<and> c \<le> 63 \<and> srpc_update_credit max_cores rd req_dropped s w =
    Some (s\<lparr>s_credit := c\<rparr>, w\<lparr>srpc_credit_used := srpc_credit_used w + (c - s_credit s)\<rparr>)"
  using srpc_update_credit_frame [OF assms, of max_cores req_dropped w] by blast

theorem credit_update_bounded_witness:
  "\<exists>c. 0 \<le> c \<and> c \<le> 63 \<and>
     srpc_update_credit 4 (zero_pcc\<lparr>srpc_num_sess := 2\<rparr>) False
       (zero_session\<lparr>s_drained_core := -1, s_num_pending := 3, s_demand := 18446744073709551615\<rparr>)
       zero_pcc
     = Some (zero_session\<lparr>s_drained_core := -1, s_num_pending := 3,
               s_demand := 18446744073709551615, s_credit := c\<rparr>, zero_pcc\<lparr>srpc_credit_used := c\<rparr>)"
  using credit_update_bounded [of "zero_session\<lparr>s_drained_core := -1, s_num_pending := 3,
      s_demand := 18446744073709551615\<rparr>" "zero_pcc\<lparr>srpc_num_sess := 2\<rparr>" 4 False zero_pcc]
  by (simp add: zero_session_def zero_pcc_def)

text \<open>C15. On readings and demands that no conversion changes, the mixed signed and unsigned update
  computes the ideal one.  It never takes a credit from a pending request, never grants more than
  the session can use plus its share of the free pool, takes a credit away when the pool is
  overcommitted, and below that grants at most what the pool has left (or the minimal share).\<close>

theorem credit_update_policy:
  assumes "credit_in_range rd s" and "s_drained_core s = -1"
  shows "\<exists>c. srpc_update_credit max_cores rd req_dropped s w =
      Some (s\<lparr>s_credit := c\<rparr>, w\<lparr>srpc_credit_used := srpc_credit_used w + (c - s_credit s)\<rparr>)
    \<and> c = ideal_credit max_cores (seen_pool rd) (srpc_credit_used rd) (srpc_num_sess rd) req_dropped s
    \<and> min (s_num_pending s) 63 \<le> c
    \<and> c \<le> s_num_pending s + int (unat (s_demand s)) + max_overprovision rd
    \<and> (seen_pool rd < srpc_credit_used rd \<and> \<not> s_wake_up s \<and> max_cores < srpc_num_sess rd
        \<and> (s_credit s \<noteq> 1 \<or> req_dropped) \<longrightarrow> c \<le> max (s_credit s - 1) (s_num_pending s))
    \<and> (srpc_credit_used rd < seen_pool rd \<longrightarrow>
        c \<le> max (s_credit s + credit_unused rd) (max (max_overprovision rd) (s_num_pending s)))"
proof -
  have p: "0 \<le> s_num_pending s" "0 \<le> s_credit s" using assms(1) by (simp_all add: credit_in_range_def)
  show ?thesis
    unfolding srpc_update_credit_ideal [OF assms] Let_def max_overprovision_def credit_unused_def
    using ideal_credit_policy [OF p, where mc = max_cores and pool = "seen_pool rd"
        and used = "srpc_credit_used rd" and n = "srpc_num_sess rd" and rq = req_dropped] by blast
qed

theorem credit_update_policy_witness:
  "\<exists>c. srpc_update_credit 4 (zero_pcc\<lparr>srpc_num_sess := 8, srpc_credit_pool := 10, srpc_credit_used := 14\<rparr>)
        False (zero_session\<lparr>s_drained_core := -1, s_credit := 5, s_num_pending := 2, s_demand := 7\<rparr>) zero_pcc
      = Some (zero_session\<lparr>s_drained_core := -1, s_credit := c, s_num_pending := 2, s_demand := 7\<rparr>,
              zero_pcc\<lparr>srpc_credit_used := c - 5\<rparr>)
     \<and> 2 \<le> c \<and> c \<le> 4"
  using credit_update_policy [of "zero_pcc\<lparr>srpc_num_sess := 8, srpc_credit_pool := 10, srpc_credit_used := 14\<rparr>"
      "zero_session\<lparr>s_drained_core := -1, s_credit := 5, s_num_pending := 2, s_demand := 7\<rparr>"
      4 False zero_pcc]
  by (force simp: zero_session_def zero_pcc_def credit_in_range_def seen_pool_def)

end
