(* ===== verification/Pcc_Drained.thy ===== *)
theory Pcc_Drained
  imports Pcc_Slots "HOL-Library.Multiset"
begin

text \<open>
  Drained sessions of \<^verbatim>\<open>pcc_server.c\<close>: sessions without credit wait in one of two lists per core
  (\<^verbatim>\<open>list_h\<close> with demand, last in first out; \<^verbatim>\<open>list_l\<close> without, first in first out) until
  \<^verbatim>\<open>wakeup_drained_session\<close> grants them a credit.
\<close>

section \<open>Operations\<close>

definition demand_timeout :: u64 where
  "demand_timeout = u64_of_int (max (CPCC_MAX_CLIENT_DELAY_US - SPCC_RTT_US) 0)"

text \<open>The loop that moves sessions with outdated demand from the tail of the high-priority list to
  the low-priority list.\<close>

function expire_drained ::
  "u64 \<Rightarrow> (nat \<rightharpoonup> spcc_session) \<Rightarrow> nat list \<Rightarrow> nat list \<Rightarrow> (nat list \<times> nat list) option"
where
  "expire_drained now ss h l =
     (if h = [] then Some (h, l)
      else case ss (last h) of
             None \<Rightarrow> None
           | Some s \<Rightarrow>
               if now > s_drained_ts s + demand_timeout
               then expire_drained now ss (butlast h) (l @ [last h])
               else Some (h, l))"
  by pat_completeness auto
termination
  by (relation "measure (\<lambda>(now, ss, h, l). length h)") auto

declare expire_drained.simps [simp del]

definition set_drained :: "nat \<Rightarrow> nat list \<Rightarrow> nat list \<Rightarrow> pcc \<Rightarrow> pcc" where
  "set_drained core h l w =
     w\<lparr>srpc_drained := (srpc_drained w)(core := \<lparr>list_h = h, list_l = l\<rparr>)\<rparr>"

definition unlink_chosen :: "nat \<Rightarrow> spcc_session \<Rightarrow> pcc \<Rightarrow> pcc" where
  "unlink_chosen k s w =
     (put_sess k (s\<lparr>s_is_linked := False, s_drained_core := -1\<rparr>) w)
       \<lparr>srpc_num_drained := srpc_num_drained w - 1\<rparr>"

definition srpc_choose_drained_h :: "u64 \<Rightarrow> nat \<Rightarrow> pcc \<Rightarrow> (nat option \<times> pcc) option" where
  "srpc_choose_drained_h now core w =
     (if list_h (srpc_drained w core) = [] then Some (None, w)
      else do {
        (h, l) \<leftarrow> expire_drained now (sessions w) (list_h (srpc_drained w core))
                    (list_l (srpc_drained w core));
        case h of
          [] \<Rightarrow> Some (None, set_drained core [] l w)
        | k # h' \<Rightarrow> do {
            s \<leftarrow> sessions w k;
            BUG_ON (\<not> s_is_linked s);
            Some (Some k, unlink_chosen k s (set_drained core h' l w))
          }
      })"

definition srpc_choose_drained_l :: "nat \<Rightarrow> pcc \<Rightarrow> (nat option \<times> pcc) option" where
  "srpc_choose_drained_l core w =
     (case list_l (srpc_drained w core) of
        [] \<Rightarrow> Some (None, w)
      | k # l' \<Rightarrow> do {
          s \<leftarrow> sessions w k;
          Some (Some k, unlink_chosen k s (set_drained core (list_h (srpc_drained w core)) l' w))
        })"

text \<open>\<^verbatim>\<open>list_del\<close> takes the session out of whichever list of its core holds it.\<close>

definition srpc_remove_from_drained_list ::
  "nat \<Rightarrow> spcc_session \<Rightarrow> pcc \<Rightarrow> spcc_session \<times> pcc"
where
  "srpc_remove_from_drained_list k s w =
     (if s_drained_core s = -1 then (s, w)
      else
        let core = nat (s_drained_core s);
            d = srpc_drained w core;
            (s, w) = (if s_is_linked s
                      then (s\<lparr>s_is_linked := False\<rparr>,
                            (set_drained core (remove1 k (list_h d)) (remove1 k (list_l d)) w)
                              \<lparr>srpc_num_drained := srpc_num_drained w - 1\<rparr>)
                      else (s, w))
        in (s\<lparr>s_drained_core := -1\<rparr>, w))"

text \<open>The cores in the order \<^verbatim>\<open>wakeup_drained_session\<close> visits them, and the search of one
  priority through them.\<close>

definition core_order :: "nat \<Rightarrow> nat \<Rightarrow> nat list" where
  "core_order core_id max_cores =
     core_id # map (\<lambda>i. (core_id + 1 + i) mod max_cores) [0..<max_cores - 1]"

fun choose_first :: "(nat \<Rightarrow> pcc \<Rightarrow> (nat option \<times> pcc) option) \<Rightarrow> nat list \<Rightarrow> pcc \<Rightarrow> (nat option \<times> pcc) option" where
  "choose_first pick [] w = Some (None, w)"
| "choose_first pick (i # is') w =
     do {
       (r, w) \<leftarrow> pick i w;
       case r of None \<Rightarrow> choose_first pick is' w | Some k \<Rightarrow> Some (Some k, w)
     }"

definition wake_grant :: "nat \<Rightarrow> pcc \<Rightarrow> pcc option" where
  "wake_grant k w =
     do {
       s \<leftarrow> sessions w k;
       BUG_ON (s_credit s > 0);
       let w = put_sess k (s\<lparr>s_sender_th := False, s_wake_up := True, s_credit := 1\<rparr>) w;
       let w = w\<lparr>srpc_credit_used := srpc_credit_used w + 1\<rparr>;
       Some (emit (ready_sender k s) w)
     }"

text \<open>\<open>tm n\<close> is the clock reading of the round in which \<open>Suc n\<close> sessions are left to wake.\<close>

fun wakeup_drained_session :: "(nat \<Rightarrow> u64) \<Rightarrow> nat \<Rightarrow> nat \<Rightarrow> nat \<Rightarrow> pcc \<Rightarrow> pcc option" where
  "wakeup_drained_session tm core_id max_cores 0 w = Some w"
| "wakeup_drained_session tm core_id max_cores (Suc n) w =
     do {
       (r, w) \<leftarrow> choose_first (srpc_choose_drained_h (tm n)) (core_order core_id max_cores) w;
       (r, w) \<leftarrow> (case r of
                    None \<Rightarrow> choose_first srpc_choose_drained_l (core_order core_id max_cores) w
                  | Some k \<Rightarrow> Some (r, w));
       case r of
         None \<Rightarrow> Some w
       | Some k \<Rightarrow> do {
           w \<leftarrow> wake_grant k w;
           wakeup_drained_session tm core_id max_cores n w
         }
     }"

section \<open>Well-formed drained lists\<close>

definition linked_at :: "pcc \<Rightarrow> nat \<Rightarrow> nat \<Rightarrow> bool" where
  "linked_at w c k \<longleftrightarrow>
     (\<exists>s. sessions w k = Some s \<and> s_is_linked s \<and> s_drained_core s = int c)"

definition sess_drained_ok :: "spcc_session \<Rightarrow> bool" where
  "sess_drained_ok s \<longleftrightarrow>
     (s_is_linked s \<longleftrightarrow> s_drained_core s \<noteq> -1) \<and> -1 \<le> s_drained_core s \<and>
     (s_is_linked s \<longrightarrow> s_credit s = 0)"

definition drained_ok :: "pcc \<Rightarrow> bool" where
  "drained_ok w \<longleftrightarrow>
     finite (dom (sessions w)) \<and>
     (\<forall>k s. sessions w k = Some s \<longrightarrow> sess_drained_ok s) \<and>
     (\<forall>c. distinct (list_h (srpc_drained w c) @ list_l (srpc_drained w c))) \<and>
     (\<forall>c k. k \<in> set (list_h (srpc_drained w c)) \<union> set (list_l (srpc_drained w c))
            \<longleftrightarrow> linked_at w c k) \<and>
     srpc_num_drained w = msum (\<lambda>s. of_bool (s_is_linked s)) (sessions w)"

abbreviation drained_set :: "pcc \<Rightarrow> nat \<Rightarrow> nat set" where
  "drained_set w c \<equiv> set (list_h (srpc_drained w c)) \<union> set (list_l (srpc_drained w c))"

abbreviation drained_distinct :: "pcc \<Rightarrow> nat \<Rightarrow> bool" where
  "drained_distinct w c \<equiv> distinct (list_h (srpc_drained w c) @ list_l (srpc_drained w c))"

lemma drained_okD:
  assumes "drained_ok w"
  shows "finite (dom (sessions w))" and "sessions w k = Some s \<Longrightarrow> sess_drained_ok s"
    and "drained_distinct w c" and "k \<in> drained_set w c \<longleftrightarrow> linked_at w c k"
    and "srpc_num_drained w = msum (\<lambda>s. of_bool (s_is_linked s)) (sessions w)"
  using assms unfolding drained_ok_def by blast+

text \<open>The three ways the server changes what the invariant speaks of: it replaces one session, with
  the lists adapted; it reorders the lists; it touches neither.\<close>

lemma drained_ok_update:
  assumes ok: "drained_ok w" and k: "sessions w k = Some s" and s': "sess_drained_ok s'"
    and w': "sessions w' = (sessions w)(k \<mapsto> s')"
    and n: "srpc_num_drained w' =
          srpc_num_drained w - of_bool (s_is_linked s) + of_bool (s_is_linked s')"
    and d: "\<And>c. drained_distinct w' c"
    and l: "\<And>c j. j \<in> drained_set w' c \<longleftrightarrow>
          (if j = k then s_is_linked s' \<and> s_drained_core s' = int c else linked_at w c j)"
  shows "drained_ok w'"
proof -
  have "srpc_num_drained w' = msum (\<lambda>s. of_bool (s_is_linked s)) (sessions w')"
    unfolding w' n by (simp add: msum_update [OF drained_okD(1) [OF ok] k] drained_okD(5) [OF ok])
  moreover have "j \<in> drained_set w' c \<longleftrightarrow> linked_at w' c j" for c j
    unfolding l by (simp add: linked_at_def w')
  moreover have "sess_drained_ok t" if "sessions w' j = Some t" for j t
    using that s' drained_okD(2) [OF ok] by (simp add: w' split: if_splits)
  ultimately show ?thesis
    unfolding drained_ok_def using drained_okD(1) [OF ok] d by (auto simp: w')
qed

lemma drained_ok_lists:
  assumes "drained_ok w" and "sessions w' = sessions w" and "srpc_num_drained w' = srpc_num_drained w"
    and "\<And>c. drained_distinct w' c" and "\<And>c. drained_set w' c = drained_set w c"
  shows "drained_ok w'"
  using assms unfolding drained_ok_def by (simp add: linked_at_def)

lemma drained_ok_frame:
  assumes "drained_ok w" and "sessions w' = sessions w" and "srpc_num_drained w' = srpc_num_drained w"
    and "srpc_drained w' = srpc_drained w"
  shows "drained_ok w'"
  using assms unfolding drained_ok_def by (simp add: linked_at_def)

lemma linked_core: "sess_drained_ok s \<Longrightarrow> s_is_linked s \<Longrightarrow> \<exists>c. s_drained_core s = int c"
  unfolding sess_drained_ok_def by (intro exI [of _ "nat (s_drained_core s)"]) auto

lemma linked_at_unique: "linked_at w c k \<Longrightarrow> linked_at w d k \<Longrightarrow> c = d"
  by (auto simp: linked_at_def)

text \<open>A session that keeps its list membership.\<close>

lemma drained_ok_same:
  assumes "drained_ok w" and "sessions w k = Some s" and "sess_drained_ok s'"
    and "s_is_linked s' = s_is_linked s" and "s_drained_core s' = s_drained_core s"
    and "sessions w' = (sessions w)(k \<mapsto> s')" and "srpc_num_drained w' = srpc_num_drained w"
    and "srpc_drained w' = srpc_drained w"
  shows "drained_ok w'"
  using assms(1-3,6)
proof (rule drained_ok_update)
  fix c j
  show "drained_distinct w' c" using drained_okD(3) [OF assms(1)] assms(8) by simp
  have "j \<in> drained_set w' c \<longleftrightarrow> linked_at w c j"
    using drained_okD(4) [OF assms(1)] assms(8) by simp
  also have "\<dots> \<longleftrightarrow> (if j = k then s_is_linked s' \<and> s_drained_core s' = int c else linked_at w c j)"
    using assms(2,4,5) by (auto simp: linked_at_def)
  finally show "j \<in> drained_set w' c \<longleftrightarrow> \<dots>" .
qed (use assms in simp)

section \<open>Choosing a session\<close>

lemma expire_drained_spec:
  assumes "\<forall>k\<in>set h. ss k \<noteq> None"
  shows "\<exists>h' m. h = h' @ m \<and> expire_drained now ss h l = Some (h', l @ rev m)
     \<and> (\<forall>k\<in>set m. now > s_drained_ts (the (ss k)) + demand_timeout)
     \<and> (h' \<noteq> [] \<longrightarrow> \<not> now > s_drained_ts (the (ss (last h'))) + demand_timeout)"
  using assms
proof (induction now ss h l rule: expire_drained.induct)
  case (1 now ss h l)
  show ?case
  proof (cases "h = []")
    case True
    then show ?thesis by (simp add: expire_drained.simps)
  next
    case False
    then have h: "h = butlast h @ [last h]" by simp
    obtain s where s: "ss (last h) = Some s" using 1(2) False by force
    show ?thesis
    proof (cases "now > s_drained_ts s + demand_timeout")
      case True
      have "\<forall>k\<in>set (butlast h). ss k \<noteq> None" using 1(2) by (meson in_set_butlastD)
      from 1(1) [OF False s True this] obtain h' m where
        m: "butlast h = h' @ m" "expire_drained now ss (butlast h) (l @ [last h]) = Some (h', (l @ [last h]) @ rev m)"
          "\<forall>k\<in>set m. now > s_drained_ts (the (ss k)) + demand_timeout"
          "h' \<noteq> [] \<longrightarrow> \<not> now > s_drained_ts (the (ss (last h'))) + demand_timeout" by auto
      have "expire_drained now ss h l = Some (h', l @ rev (m @ [last h]))"
        using False s True m(2) by (simp add: expire_drained.simps [of now ss h l])
      moreover have "h = h' @ (m @ [last h])" using h m(1) by simp
      ultimately show ?thesis using m(3,4) s True by (intro exI [of _ h'] exI [of _ "m @ [last h]"]) auto
    next
      case nt: False
      then have "expire_drained now ss h l = Some (h, l)"
        using False s by (simp add: expire_drained.simps)
      with nt s show ?thesis by (intro exI [of _ h] exI [of _ "[]"]) simp
    qed
  qed
qed

text \<open>What a choice does to the server: it only reorders the lists, or it takes session \<open>k\<close> out.\<close>

definition reordered :: "pcc \<Rightarrow> pcc \<Rightarrow> bool" where
  "reordered w w' \<longleftrightarrow> (\<exists>d. w' = w\<lparr>srpc_drained := d\<rparr>) \<and> drained_ok w'"

definition popped :: "nat \<Rightarrow> pcc \<Rightarrow> pcc \<Rightarrow> bool" where
  "popped k w w' \<longleftrightarrow>
     (\<exists>s d. sessions w k = Some s \<and> s_is_linked s \<and>
        w' = w\<lparr>sessions := (sessions w)(k \<mapsto> s\<lparr>s_is_linked := False, s_drained_core := -1\<rparr>),
               srpc_drained := d, srpc_num_drained := srpc_num_drained w - 1\<rparr>) \<and>
     drained_ok w'"

lemma reordered_refl: "drained_ok w \<Longrightarrow> reordered w w"
  unfolding reordered_def by (auto intro: exI [of _ "srpc_drained w"])

lemma reordered_trans:
  "reordered w w' \<Longrightarrow> reordered w' w'' \<Longrightarrow> reordered w w''"
  "reordered w w' \<Longrightarrow> popped k w' w'' \<Longrightarrow> popped k w w''"
  unfolding reordered_def popped_def by auto

text \<open>The interface of the two choice functions; \<open>q\<close> is the list a choice serves.\<close>

locale session_chooser =
  fixes pick :: "nat \<Rightarrow> pcc \<Rightarrow> (nat option \<times> pcc) option"
    and q :: "srpc_drained_ \<Rightarrow> nat list"
  assumes total: "drained_ok w \<Longrightarrow> pick c w \<noteq> None"
    and none: "drained_ok w \<Longrightarrow> pick c w = Some (None, w') \<Longrightarrow>
       reordered w w' \<and> q (srpc_drained w' c) = [] \<and>
       (\<forall>d. d \<noteq> c \<longrightarrow> srpc_drained w' d = srpc_drained w d)"
    and some: "drained_ok w \<Longrightarrow> pick c w = Some (Some k, w') \<Longrightarrow> popped k w w'"
begin

lemma first_total: "drained_ok w \<Longrightarrow> choose_first pick cs w \<noteq> None"
proof (induction cs arbitrary: w)
  case (Cons c cs)
  obtain r w' where r: "pick c w = Some (r, w')" using total [OF Cons.prems] by (metis not_None_eq surj_pair)
  show ?case
  proof (cases r)
    case None
    with none [OF Cons.prems] r have "drained_ok w'" by (auto simp: reordered_def)
    with Cons.IH r None show ?thesis by simp
  qed (use r in simp)
qed simp

lemma first_some:
  "drained_ok w \<Longrightarrow> choose_first pick cs w = Some (Some k, w') \<Longrightarrow> popped k w w'"
proof (induction cs arbitrary: w)
  case (Cons c cs)
  obtain r w1 where r: "pick c w = Some (r, w1)"
    using Cons.prems(2) by (auto simp: bind_eq_Some_conv)
  show ?case
  proof (cases r)
    case None
    with none [OF Cons.prems(1)] r have "reordered w w1" by auto
    moreover from this have "drained_ok w1" by (simp add: reordered_def)
    then have "popped k w1 w'" using Cons r None by simp
    ultimately show ?thesis by (rule reordered_trans)
  next
    case (Some j)
    with r Cons.prems some [OF Cons.prems(1)] show ?thesis by simp
  qed
qed simp

lemma first_reordered:
  "drained_ok w \<Longrightarrow> choose_first pick cs w = Some (None, w') \<Longrightarrow> reordered w w'"
proof (induction cs arbitrary: w)
  case Nil
  then show ?case unfolding reordered_def by (auto intro: exI [of _ "srpc_drained w"])
next
  case (Cons c cs)
  obtain w1 where p: "pick c w = Some (None, w1)"
    using Cons.prems(2) by (auto simp: bind_eq_Some_conv split: option.splits)
  have "reordered w w1" using none [OF Cons.prems(1) p] by blast
  moreover from this have "reordered w1 w'"
    using Cons.IH [of w1] Cons.prems(2) p by (simp add: reordered_def)
  ultimately show ?case by (rule reordered_trans)
qed

lemma first_none:
  "drained_ok w \<Longrightarrow> choose_first pick cs w = Some (None, w') \<Longrightarrow> distinct cs \<Longrightarrow>
   (\<forall>c \<in> set cs. q (srpc_drained w' c) = []) \<and>
   (\<forall>d. d \<notin> set cs \<longrightarrow> srpc_drained w' d = srpc_drained w d)"
proof (induction cs arbitrary: w)
  case (Cons c cs)
  obtain w1 where r: "pick c w = Some (None, w1)"
    using Cons.prems(2) by (auto simp: bind_eq_Some_conv split: option.splits)
  from none [OF Cons.prems(1) r] have n: "reordered w w1" "q (srpc_drained w1 c) = []"
    "\<forall>d. d \<noteq> c \<longrightarrow> srpc_drained w1 d = srpc_drained w d" by auto
  then have "drained_ok w1" by (simp add: reordered_def)
  with Cons.IH [of w1] Cons.prems r have
    "\<forall>c \<in> set cs. q (srpc_drained w' c) = []"
    "\<forall>d. d \<notin> set cs \<longrightarrow> srpc_drained w' d = srpc_drained w1 d" by auto
  with n Cons.prems(3) show ?case by auto
qed simp

end

lemma drained_ok_pop:
  assumes ok: "drained_ok w" and k: "k \<in> drained_set w c"
    and d: "distinct (h' @ l')" "set h' \<union> set l' = drained_set w c - {k}"
  obtains s where "sessions w k = Some s" and "s_is_linked s"
    and "popped k w (unlink_chosen k s (set_drained c h' l' w))"
proof -
  from k ok obtain s where s: "sessions w k = Some s" "s_is_linked s" "s_drained_core s = int c"
    unfolding drained_okD(4) [OF ok] linked_at_def by blast
  let ?s = "s\<lparr>s_is_linked := False, s_drained_core := -1\<rparr>"
  let ?w = "unlink_chosen k s (set_drained c h' l' w)"
  have "sess_drained_ok ?s" using drained_okD(2) [OF ok s(1)] by (simp add: sess_drained_ok_def)
  moreover have "sessions ?w = (sessions w)(k \<mapsto> ?s)"
    by (simp add: unlink_chosen_def put_sess_def set_drained_def)
  moreover have "srpc_num_drained ?w = srpc_num_drained w - of_bool (s_is_linked s) + of_bool (s_is_linked ?s)"
    using s(2) by (simp add: unlink_chosen_def put_sess_def set_drained_def)
  moreover have "drained_distinct ?w e" for e
    using d(1) drained_okD(3) [OF ok] by (simp add: unlink_chosen_def put_sess_def set_drained_def)
  moreover have "j \<in> drained_set ?w e \<longleftrightarrow>
      (if j = k then s_is_linked ?s \<and> s_drained_core ?s = int e else linked_at w e j)" for e j
  proof -
    have k_only: "k \<in> drained_set w e \<longleftrightarrow> e = c"
      unfolding drained_okD(4) [OF ok] using s by (auto simp: linked_at_def)
    have "drained_set ?w e = (if e = c then drained_set w c - {k} else drained_set w e)"
      using d(2) by (simp add: unlink_chosen_def put_sess_def set_drained_def)
    with k_only drained_okD(4) [OF ok] show ?thesis by auto
  qed
  ultimately have "drained_ok ?w" by (rule drained_ok_update [OF ok s(1)])
  moreover have "?w = w\<lparr>sessions := (sessions w)(k \<mapsto> ?s),
      srpc_drained := (srpc_drained w)(c := \<lparr>list_h = h', list_l = l'\<rparr>),
      srpc_num_drained := srpc_num_drained w - 1\<rparr>"
    by (cases w) (simp add: unlink_chosen_def put_sess_def set_drained_def)
  ultimately have "popped k w ?w" unfolding popped_def using s by blast
  with s that show ?thesis by blast
qed

lemma drained_sessions:
  assumes "drained_ok w" and "k \<in> drained_set w c"
  shows "sessions w k \<noteq> None"
  using assms(2) unfolding drained_okD(4) [OF assms(1)] linked_at_def by blast

interpretation ch: session_chooser "srpc_choose_drained_h now" list_h for now
proof unfold_locales
  fix w c
  assume ok: "drained_ok w"
  let ?h = "list_h (srpc_drained w c)" and ?l = "list_l (srpc_drained w c)"
  have ss: "\<forall>k\<in>set ?h. sessions w k \<noteq> None" using drained_sessions [OF ok] by blast
  obtain h' m where
    h: "?h = h' @ m" and e: "expire_drained now (sessions w) ?h ?l = Some (h', ?l @ rev m)"
    using expire_drained_spec [OF ss, of now ?l]
    by (elim exE conjE)
  have dist: "distinct (?h @ ?l)" by (rule drained_okD(3) [OF ok])
  have none: "reordered w (set_drained c [] (?l @ rev m) w)" if "h' = []"
  proof -
    have "drained_ok (set_drained c [] (?l @ rev m) w)"
      using ok by (rule drained_ok_lists)
        (use that h dist drained_okD(3) [OF ok] in \<open>auto simp: set_drained_def\<close>)
    then show ?thesis unfolding reordered_def by (auto simp: set_drained_def)
  qed
  have some: "\<exists>s. sessions w k = Some s \<and> s_is_linked s \<and>
      popped k w (unlink_chosen k s (set_drained c h'' (?l @ rev m) w))" if "h' = k # h''" for k h''
    by (rule drained_ok_pop [OF ok, of k c h'' "?l @ rev m"]) (use that h dist in auto)
  have run: "srpc_choose_drained_h now c w =
      (if ?h = [] then Some (None, w)
       else case h' of [] \<Rightarrow> Some (None, set_drained c [] (?l @ rev m) w)
         | k # h'' \<Rightarrow> Some (Some k, unlink_chosen k (the (sessions w k))
             (set_drained c h'' (?l @ rev m) w)))"
    using e some by (auto simp: srpc_choose_drained_h_def BUG_ON_def split: list.splits)
  show "srpc_choose_drained_h now c w \<noteq> None" by (simp add: run split: list.splits)
  show "reordered w w' \<and> list_h (srpc_drained w' c) = [] \<and>
      (\<forall>d. d \<noteq> c \<longrightarrow> srpc_drained w' d = srpc_drained w d)"
    if "srpc_choose_drained_h now c w = Some (None, w')" for w'
  proof (cases "?h = []")
    case True
    moreover have "w\<lparr>srpc_drained := srpc_drained w\<rparr> = w" by simp
    ultimately show ?thesis
      using that ok by (auto simp: run reordered_def intro: exI [of _ "srpc_drained w"])
  next
    case False
    with that none show ?thesis by (auto simp: run set_drained_def split: list.splits)
  qed
  show "popped k w w'" if "srpc_choose_drained_h now c w = Some (Some k, w')" for k w'
    using that some by (fastforce simp: run split: if_splits list.splits)
qed

interpretation cl: session_chooser srpc_choose_drained_l list_l
proof unfold_locales
  fix w c
  assume ok: "drained_ok w"
  let ?h = "list_h (srpc_drained w c)" and ?l = "list_l (srpc_drained w c)"
  have dist: "distinct (?h @ ?l)" by (rule drained_okD(3) [OF ok])
  have some: "\<exists>s. sessions w k = Some s \<and> s_is_linked s \<and>
      popped k w (unlink_chosen k s (set_drained c ?h l' w))" if "?l = k # l'" for k l'
    by (rule drained_ok_pop [OF ok, of k c ?h l']) (use that dist in auto)
  show "srpc_choose_drained_l c w \<noteq> None"
    using some by (fastforce simp: srpc_choose_drained_l_def split: list.splits)
  have same: "w\<lparr>srpc_drained := srpc_drained w\<rparr> = w" by simp
  show "reordered w w' \<and> list_l (srpc_drained w' c) = [] \<and>
      (\<forall>d. d \<noteq> c \<longrightarrow> srpc_drained w' d = srpc_drained w d)"
    if "srpc_choose_drained_l c w = Some (None, w')" for w'
    using that ok same by (auto simp: srpc_choose_drained_l_def reordered_def bind_eq_Some_conv
        split: list.splits intro: exI [of _ "srpc_drained w"])
  show "popped k w w'" if "srpc_choose_drained_l c w = Some (Some k, w')" for k w'
    using that some by (fastforce simp: srpc_choose_drained_l_def bind_eq_Some_conv split: list.splits)
qed

section \<open>Entering and leaving the lists\<close>

text \<open>The session at hand may have been changed locally since it was read from \<open>sessions\<close>, but not
  in its list membership.\<close>

lemma remove_drained_spec:
  assumes ok: "drained_ok w" and k: "sessions w k = Some s0"
    and s: "s_is_linked s = s_is_linked s0" "s_drained_core s = s_drained_core s0"
  obtains d where "srpc_remove_from_drained_list k s w =
      (s\<lparr>s_is_linked := False, s_drained_core := -1\<rparr>,
       w\<lparr>srpc_drained := d, srpc_num_drained := srpc_num_drained w - of_bool (s_is_linked s)\<rparr>)"
    and "\<And>c. distinct (list_h (d c) @ list_l (d c))"
    and "\<And>c. set (list_h (d c)) \<union> set (list_l (d c)) = drained_set w c - {k}"
proof (cases "s_is_linked s0")
  case True
  then obtain c where c: "s_drained_core s0 = int c" using linked_core drained_okD(2) [OF ok k] by blast
  let ?l = "srpc_drained w c"
  let ?d = "(srpc_drained w)(c := \<lparr>list_h = remove1 k (list_h ?l), list_l = remove1 k (list_l ?l)\<rparr>)"
  have k_only: "k \<in> drained_set w e \<longleftrightarrow> e = c" for e
    unfolding drained_okD(4) [OF ok] using k c True by (auto simp: linked_at_def)
  show ?thesis
  proof (rule that [of ?d])
    show "srpc_remove_from_drained_list k s w =
      (s\<lparr>s_is_linked := False, s_drained_core := -1\<rparr>,
       w\<lparr>srpc_drained := ?d, srpc_num_drained := srpc_num_drained w - of_bool (s_is_linked s)\<rparr>)"
      using True c s by (simp add: srpc_remove_from_drained_list_def set_drained_def Let_def)
    fix e
    have "distinct (list_h ?l @ list_l ?l)" by (rule drained_okD(3) [OF ok])
    then show "distinct (list_h (?d e) @ list_l (?d e))"
      using drained_okD(3) [OF ok, of e] by (auto dest: in_set_remove1)
    show "set (list_h (?d e)) \<union> set (list_l (?d e)) = drained_set w e - {k}"
      using drained_okD(3) [OF ok] k_only [of e] by auto
  qed
next
  case False
  then have "s_drained_core s0 = -1" "\<not> s_is_linked s0"
    using drained_okD(2) [OF ok k] by (auto simp: sess_drained_ok_def)
  moreover from this have "s\<lparr>s_is_linked := False, s_drained_core := -1\<rparr> = s" using s by (cases s) simp
  moreover have "k \<notin> drained_set w c" for c
    unfolding drained_okD(4) [OF ok] using k False by (auto simp: linked_at_def)
  ultimately show ?thesis
    using s drained_okD(3) [OF ok] that [of "srpc_drained w"]
    by (auto simp: srpc_remove_from_drained_list_def)
qed

lemma drained_ok_removed:
  assumes "drained_ok w" and "sessions w k = Some s0"
    and "\<not> s_is_linked s" "s_drained_core s = -1"
    and "sessions w' = (sessions w)(k \<mapsto> s)"
    and "srpc_num_drained w' = srpc_num_drained w - of_bool (s_is_linked s0)"
    and "\<And>c. drained_distinct w' c" and "\<And>c. drained_set w' c = drained_set w c - {k}"
  shows "drained_ok w'"
  using assms(1,2) _ assms(5)
proof (rule drained_ok_update)
  show "sess_drained_ok s" using assms(3,4) by (simp add: sess_drained_ok_def)
  show "j \<in> drained_set w' c \<longleftrightarrow>
    (if j = k then s_is_linked s \<and> s_drained_core s = int c else linked_at w c j)" for c j
    using assms(3,8) drained_okD(4) [OF assms(1)] by simp
qed (use assms in auto)

lemma drained_ok_linked:
  assumes ok: "drained_ok w" and k: "sessions w k = Some s0" and un: "\<not> s_is_linked s0"
    and s: "s_is_linked s" "s_drained_core s = int c" "s_credit s = 0"
    and w': "sessions w' = (sessions w)(k \<mapsto> s)" "srpc_num_drained w' = srpc_num_drained w + 1"
    and d: "srpc_drained w' = (srpc_drained w)(c := \<lparr>list_h = h, list_l = l\<rparr>)"
    and hl: "mset (h @ l) = mset (k # list_h (srpc_drained w c) @ list_l (srpc_drained w c))"
  shows "drained_ok w'"
  using ok k _ w'(1)
proof (rule drained_ok_update)
  show "sess_drained_ok s" using s by (simp add: sess_drained_ok_def)
  show "srpc_num_drained w' = srpc_num_drained w - of_bool (s_is_linked s0) + of_bool (s_is_linked s)"
    using w'(2) un s(1) by simp
  have k_in: "k \<notin> drained_set w e" for e
    unfolding drained_okD(4) [OF ok] using k un by (auto simp: linked_at_def)
  have set: "set h \<union> set l = insert k (drained_set w c)"
    using mset_eq_setD [OF hl] by auto
  have "distinct (k # list_h (srpc_drained w c) @ list_l (srpc_drained w c))"
    using drained_okD(3) [OF ok, of c] k_in [of c] by simp
  then have "distinct (h @ l)" using mset_eq_imp_distinct_iff [OF hl] by blast
  then show "drained_distinct w' e" for e using d drained_okD(3) [OF ok] by simp
  show "j \<in> drained_set w' e \<longleftrightarrow>
    (if j = k then s_is_linked s \<and> s_drained_core s = int e else linked_at w e j)" for e j
    using d set s k_in [of e] drained_okD(4) [OF ok] by auto
qed

section \<open>Waking sessions\<close>

lemma wake_grant_popped:
  assumes "drained_ok w" and "popped k w w'"
  obtains s d where "sessions w k = Some s" and "s_is_linked s"
    and "wake_grant k w' = Some (w\<lparr>
      sessions := (sessions w)(k \<mapsto> s\<lparr>s_is_linked := False, s_drained_core := -1,
                      s_sender_th := False, s_wake_up := True, s_credit := 1\<rparr>),
      srpc_drained := d, srpc_num_drained := srpc_num_drained w - 1,
      srpc_credit_used := srpc_credit_used w + 1, io := io w @ ready_sender k s\<rparr>)"
    and "drained_ok (the (wake_grant k w'))"
proof -
  from assms(2) obtain s d where s: "sessions w k = Some s" "s_is_linked s" and
    w': "w' = w\<lparr>sessions := (sessions w)(k \<mapsto> s\<lparr>s_is_linked := False, s_drained_core := -1\<rparr>),
               srpc_drained := d, srpc_num_drained := srpc_num_drained w - 1\<rparr>"
    and ok': "drained_ok w'" unfolding popped_def by blast
  have "s_credit s = 0" using drained_okD(2) [OF assms(1) s(1)] s(2) by (simp add: sess_drained_ok_def)
  then have g: "wake_grant k w' = Some (w\<lparr>
      sessions := (sessions w)(k \<mapsto> s\<lparr>s_is_linked := False, s_drained_core := -1,
                      s_sender_th := False, s_wake_up := True, s_credit := 1\<rparr>),
      srpc_drained := d, srpc_num_drained := srpc_num_drained w - 1,
      srpc_credit_used := srpc_credit_used w + 1, io := io w @ ready_sender k s\<rparr>)"
    by (simp add: wake_grant_def w' put_sess_def emit_def ready_sender_def BUG_ON_def Let_def)
  moreover have "drained_ok (the (wake_grant k w'))"
    unfolding g option.sel
    by (rule drained_ok_same [OF ok', where k = k and s' = "s\<lparr>s_is_linked := False, s_drained_core := -1,
                      s_sender_th := False, s_wake_up := True, s_credit := 1\<rparr>"])
      (auto simp: w' sess_drained_ok_def)
  ultimately show ?thesis using s that by blast
qed

definition grant :: "spcc_session \<Rightarrow> spcc_session" where
  "grant s = s\<lparr>s_is_linked := False, s_drained_core := -1, s_sender_th := False,
                s_wake_up := True, s_credit := 1\<rparr>"

definition woken :: "nat list \<Rightarrow> (nat \<rightharpoonup> spcc_session) \<Rightarrow> (nat \<rightharpoonup> spcc_session)" where
  "woken ks m = (\<lambda>k. if k \<in> set ks then map_option grant (m k) else m k)"

lemma woken_Nil [simp]: "woken [] m = m"
  by (simp add: woken_def)

lemma woken_Cons:
  assumes "m k = Some s" and "k \<notin> set ks"
  shows "woken ks (m(k \<mapsto> grant s)) = woken (k # ks) m"
  using assms by (auto simp: woken_def)

lemma set_core_order: "core < n \<Longrightarrow> set (core_order core n) = {..<n}"
proof
  assume c: "core < n"
  then show "set (core_order core n) \<subseteq> {..<n}" by (auto simp: core_order_def)
  show "{..<n} \<subseteq> set (core_order core n)"
  proof
    fix i assume "i \<in> {..<n}"
    then have i: "i < n" by simp
    consider "i = core" | "core < i" | "i < core" by linarith
    then show "i \<in> set (core_order core n)"
    proof cases
      case 2
      then have "i = (core + 1 + (i - core - 1)) mod n" and "i - core - 1 < n - 1" using i by auto
      then show ?thesis unfolding core_order_def by auto
    next
      case 3
      then have "core + 1 + (i + n - core - 1) = i + n" using c by linarith
      then have "i = (core + 1 + (i + n - core - 1)) mod n" using i by simp
      moreover have "i + n - core - 1 < n - 1" using 3 i c by linarith
      ultimately show ?thesis unfolding core_order_def by auto
    qed (simp add: core_order_def)
  qed
qed

lemma distinct_core_order: "core < n \<Longrightarrow> distinct (core_order core n)"
  using set_core_order [of core n] by (intro card_distinct) (simp add: core_order_def)

lemma choose_first_l_none:
  "choose_first srpc_choose_drained_l cs w = Some (None, w') \<Longrightarrow> w' = w"
  by (induction cs arbitrary: w)
    (auto simp: bind_eq_Some_conv srpc_choose_drained_l_def split: option.splits list.splits)

text \<open>One round: the search through the high-priority and then the low-priority lists.\<close>

definition choose_any :: "u64 \<Rightarrow> nat list \<Rightarrow> pcc \<Rightarrow> (nat option \<times> pcc) option" where
  "choose_any now cs w =
     do {
       (r, w) \<leftarrow> choose_first (srpc_choose_drained_h now) cs w;
       (case r of None \<Rightarrow> choose_first srpc_choose_drained_l cs w | Some k \<Rightarrow> Some (r, w))
     }"

lemma wakeup_Suc:
  "wakeup_drained_session tm core mc (Suc n) w =
     do {
       (r, w) \<leftarrow> choose_any (tm n) (core_order core mc) w;
       case r of
         None \<Rightarrow> Some w
       | Some k \<Rightarrow> do { w \<leftarrow> wake_grant k w; wakeup_drained_session tm core mc n w }
     }"
  unfolding choose_any_def
  by (cases "choose_first (srpc_choose_drained_h (tm n)) (core_order core mc) w")
    (auto split: option.splits)

lemma choose_any_total: "drained_ok w \<Longrightarrow> choose_any now cs w \<noteq> None"
proof -
  assume ok: "drained_ok w"
  obtain r w1 where r: "choose_first (srpc_choose_drained_h now) cs w = Some (r, w1)"
    using ch.first_total [OF ok] by (metis not_None_eq surj_pair)
  have "choose_first srpc_choose_drained_l cs w1 \<noteq> None" if "r = None"
    using ch.first_reordered [OF ok] r that cl.first_total [of w1 cs] by (auto simp: reordered_def)
  then show ?thesis using r by (simp add: choose_any_def split: option.splits)
qed

lemma choose_any_some:
  assumes ok: "drained_ok w" and "choose_any now cs w = Some (Some k, w')"
  shows "popped k w w'"
proof -
  obtain r w1 where r: "choose_first (srpc_choose_drained_h now) cs w = Some (r, w1)"
    using ch.first_total [OF ok] by (metis not_None_eq surj_pair)
  show ?thesis
  proof (cases r)
    case None
    then have "reordered w w1" using ch.first_reordered [OF ok] r by blast
    moreover from this have "popped k w1 w'"
      using assms(2) r None cl.first_some by (simp add: choose_any_def reordered_def)
    ultimately show ?thesis by (rule reordered_trans)
  next
    case (Some j)
    then show ?thesis using assms r ch.first_some [OF ok] by (simp add: choose_any_def)
  qed
qed

text \<open>A round that finds nothing leaves no session in the lists of the cores it visits.\<close>

lemma choose_any_none:
  assumes ok: "drained_ok w" and run: "choose_any now cs w = Some (None, w')" and d: "distinct cs"
  shows "reordered w w'" and "\<And>c. c \<in> set cs \<Longrightarrow> drained_set w' c = {}"
proof -
  obtain w1 where r: "choose_first (srpc_choose_drained_h now) cs w = Some (None, w1)"
    and l: "choose_first srpc_choose_drained_l cs w1 = Some (None, w')"
    using run by (auto simp: choose_any_def bind_eq_Some_conv split: option.splits)
  have w1: "w' = w1" by (rule choose_first_l_none [OF l])
  show re: "reordered w w'" using ch.first_reordered [OF ok r] w1 by simp
  then have "drained_ok w1" by (simp add: reordered_def w1)
  then show "drained_set w' c = {}" if "c \<in> set cs" for c
    using cl.first_none [OF _ l d] ch.first_none [OF ok r d] that by (simp add: w1)
qed

definition cores_below :: "nat \<Rightarrow> pcc \<Rightarrow> bool" where
  "cores_below n w \<longleftrightarrow>
     (\<forall>k s. sessions w k = Some s \<longrightarrow> s_is_linked s \<longrightarrow> s_drained_core s < int n)"

lemma no_drained:
  assumes ok: "drained_ok w" and "cores_below n w" and "\<And>c. c < n \<Longrightarrow> drained_set w c = {}"
  shows "srpc_num_drained w = 0"
proof -
  have "\<not> s_is_linked s" if s: "sessions w k = Some s" for k s
  proof
    assume l: "s_is_linked s"
    then obtain c where c: "s_drained_core s = int c" using linked_core drained_okD(2) [OF ok s] by blast
    with assms(2) s l have "c < n" by (force simp: cores_below_def)
    moreover have "k \<in> drained_set w c"
      unfolding drained_okD(4) [OF ok] using s l c by (auto simp: linked_at_def)
    ultimately show False using assms(3) [of c] by simp
  qed
  then have "msum (\<lambda>s. of_bool (s_is_linked s)) (sessions w) = msum (\<lambda>s. 0) (sessions w)"
    by (intro msum_cong_on) simp
  then show ?thesis by (simp add: drained_okD(5) [OF ok] msum_def)
qed

text \<open>What \<open>wakeup_drained_session\<close> has done to \<open>w\<close> when it has woken the sessions \<open>ks\<close>.\<close>

definition woke :: "nat list \<Rightarrow> pcc \<Rightarrow> pcc \<Rightarrow> bool" where
  "woke ks w w' \<longleftrightarrow>
     (\<exists>d es. w' = w\<lparr>sessions := woken ks (sessions w), srpc_drained := d,
                   srpc_num_drained := srpc_num_drained w - int (length ks),
                   srpc_credit_used := srpc_credit_used w + int (length ks), io := io w @ es\<rparr>) \<and>
     distinct ks \<and> (\<forall>k \<in> set ks. \<exists>s. sessions w k = Some s \<and> s_is_linked s)"

lemma woke_Nil: "reordered w w' \<Longrightarrow> woke [] w w'"
  unfolding reordered_def woke_def by (auto intro!: exI [of _ "[]"])

lemma woke_Cons:
  assumes s: "sessions w k = Some s" "s_is_linked s"
    and w1: "w1 = w\<lparr>sessions := (sessions w)(k \<mapsto> grant s), srpc_drained := d,
      srpc_num_drained := srpc_num_drained w - 1,
      srpc_credit_used := srpc_credit_used w + 1, io := io w @ es\<rparr>"
    and "woke ks w1 w'"
  shows "woke (k # ks) w w'"
proof -
  from assms(4) obtain d' es' where w': "w' = w1\<lparr>sessions := woken ks (sessions w1), srpc_drained := d',
      srpc_num_drained := srpc_num_drained w1 - int (length ks),
      srpc_credit_used := srpc_credit_used w1 + int (length ks), io := io w1 @ es'\<rparr>"
    and ks: "distinct ks" "\<forall>k \<in> set ks. \<exists>s. sessions w1 k = Some s \<and> s_is_linked s"
    unfolding woke_def by blast
  have "sessions w1 k = Some (grant s)" by (simp add: w1)
  then have k: "k \<notin> set ks" using ks(2) by (force simp: grant_def)
  have "w' = w\<lparr>sessions := woken (k # ks) (sessions w), srpc_drained := d',
                   srpc_num_drained := srpc_num_drained w - int (length (k # ks)),
                   srpc_credit_used := srpc_credit_used w + int (length (k # ks)),
                   io := io w @ (es @ es')\<rparr>"
    unfolding w' w1 using woken_Cons [of "sessions w" k s ks] s k by (cases w) simp
  moreover have "\<forall>j \<in> set (k # ks). \<exists>s. sessions w j = Some s \<and> s_is_linked s"
    using ks(2) s k by (force simp: w1 split: if_splits)
  ultimately show ?thesis unfolding woke_def using k ks(1) by (intro conjI exI) simp_all
qed

lemma wakeup_spec:
  assumes "drained_ok w" and "core < mc"
  shows "\<exists>ks w'. wakeup_drained_session tm core mc n w = Some w' \<and> woke ks w w' \<and> drained_ok w' \<and>
    length ks \<le> n \<and> (cores_below mc w \<longrightarrow> length ks < n \<longrightarrow> srpc_num_drained w' = 0)"
  using assms(1)
proof (induction n arbitrary: w)
  case 0
  then show ?case using woke_Nil [OF reordered_refl] by (intro exI [of _ "[]"] exI [of _ w]) simp
next
  case (Suc n)
  let ?cs = "core_order core mc"
  obtain r w1 where r: "choose_any (tm n) ?cs w = Some (r, w1)"
    using choose_any_total [OF Suc.prems] by (metis not_None_eq surj_pair)
  show ?case
  proof (cases r)
    case None
    note no = choose_any_none [OF Suc.prems r [unfolded None] distinct_core_order [OF assms(2)]]
    have ok1: "drained_ok w1" and "sessions w1 = sessions w" using no(1) by (auto simp: reordered_def)
    then have "cores_below mc w \<Longrightarrow> srpc_num_drained w1 = 0"
      using no(2) set_core_order [OF assms(2)] by (intro no_drained [of w1 mc]) (auto simp: cores_below_def)
    moreover have "wakeup_drained_session tm core mc (Suc n) w = Some w1"
      unfolding wakeup_Suc using r None by simp
    ultimately show ?thesis
      using woke_Nil [OF no(1)] ok1 by (intro exI [of _ "[]"] exI [of _ w1]) simp
  next
    case (Some k)
    from choose_any_some [OF Suc.prems r [unfolded Some]] have "popped k w w1" .
    from wake_grant_popped [OF Suc.prems this, folded grant_def] obtain s d where
      s: "sessions w k = Some s" "s_is_linked s" and
      g: "wake_grant k w1 = Some (w\<lparr>sessions := (sessions w)(k \<mapsto> grant s), srpc_drained := d,
        srpc_num_drained := srpc_num_drained w - 1, srpc_credit_used := srpc_credit_used w + 1,
        io := io w @ ready_sender k s\<rparr>)" and
      ok2: "drained_ok (the (wake_grant k w1))" by blast
    define w2 where "w2 = the (wake_grant k w1)"
    have w2: "w2 = w\<lparr>sessions := (sessions w)(k \<mapsto> grant s), srpc_drained := d,
        srpc_num_drained := srpc_num_drained w - 1, srpc_credit_used := srpc_credit_used w + 1,
        io := io w @ ready_sender k s\<rparr>" by (simp add: w2_def g)
    from Suc.IH [of w2] ok2 obtain ks w' where
      ks: "wakeup_drained_session tm core mc n w2 = Some w'" "woke ks w2 w'" "drained_ok w'"
        "length ks \<le> n" "cores_below mc w2 \<longrightarrow> length ks < n \<longrightarrow> srpc_num_drained w' = 0"
      by (auto simp: w2_def)
    have "cores_below mc w \<Longrightarrow> cores_below mc w2"
      by (auto simp: cores_below_def w2 grant_def)
    moreover have "wakeup_drained_session tm core mc (Suc n) w = Some w'"
      unfolding wakeup_Suc using r Some g ks(1) by (simp add: w2_def)
    moreover have "woke (k # ks) w w'" by (rule woke_Cons [OF s w2 ks(2)])
    ultimately show ?thesis using ks by (intro exI [of _ "k # ks"] exI [of _ w']) simp
  qed
qed

section \<open>Properties\<close>


lemma one_drained_ok:
  "drained_ok (zero_pcc\<lparr>sessions := [7 \<mapsto> zero_session\<lparr>s_is_linked := True, s_drained_core := 0\<rparr>],
     srpc_drained := (\<lambda>_. \<lparr>list_h = [], list_l = []\<rparr>)(0 := \<lparr>list_h = [], list_l = [7]\<rparr>),
     srpc_num_drained := 1\<rparr>)"
  by (auto simp: drained_ok_def sess_drained_ok_def linked_at_def zero_pcc_def zero_session_def
      msum_def split: if_splits)


text \<open>The high-priority choice is last in, first out among fresh demands: if the most recently
  drained session of a core still has a fresh demand it is the one chosen, whatever older sessions
  have expired.\<close>

lemma choose_drained_h_lifo:
  assumes "drained_ok w" and "list_h (srpc_drained w core) = k # h"
    and "sessions w k = Some s" and "\<not> now > s_drained_ts s + demand_timeout"
  shows "\<exists>w'. srpc_choose_drained_h now core w = Some (Some k, w')"
proof -
  let ?l = "list_l (srpc_drained w core)"
  have "\<forall>j\<in>set (k # h). sessions w j \<noteq> None"
    using drained_sessions [OF assms(1)] assms(2) by (metis UnCI)
  from expire_drained_spec [OF this, of now ?l] obtain h' m where
    h': "k # h = h' @ m" "expire_drained now (sessions w) (k # h) ?l = Some (h', ?l @ rev m)"
    "\<forall>j\<in>set m. now > s_drained_ts (the (sessions w j)) + demand_timeout" by blast
  have "h' \<noteq> []"
  proof
    assume "h' = []"
    with h'(1) have "k \<in> set m" by auto
    with h'(3) assms(3,4) show False by auto
  qed
  with h'(1) obtain h'' where h'': "h' = k # h''" by (cases h') auto
  have "s_is_linked s"
  proof -
    have "k \<in> drained_set w core" using assms(2) by simp
    then show ?thesis unfolding drained_okD(4) [OF assms(1)] using assms(3) by (auto simp: linked_at_def)
  qed
  then show ?thesis
    using assms(2,3) h'(2) h'' by (simp add: srpc_choose_drained_h_def BUG_ON_def)
qed

end
