(* ===== verification/Pcc_Control.thy ===== *)
theory Pcc_Control
  imports Pcc_Drained
begin

text \<open>
  The credit-pool controller of \<^verbatim>\<open>pcc_server.c\<close> (\<^verbatim>\<open>srpc_update_credit_pool\<close>) with the
  utility functions of \<^verbatim>\<open>pcc_config.h\<close>: a state machine that runs two micro-experiments with the
  pool moved by \<^verbatim>\<open>SPCC_EPSILON\<close> in opposite directions, compares their utilities and moves the
  pool.  Each state of the machine is one definition; clocks, counters and random numbers read on
  the way are inputs.
\<close>

section \<open>Operations\<close>

definition spcc_calc_util_fn :: "spcc_micro_exp_stats \<Rightarrow> dbl" where
  "spcc_calc_util_fn stats = dbl_div (dbl_of_u64 (me_out_resps stats)) (dbl_of_u64 (me_duration stats))"

definition spcc_comp_util_fn :: "spcc_micro_exp_stats \<Rightarrow> spcc_micro_exp_stats \<Rightarrow> spcc_dir" where
  "spcc_comp_util_fn minus_stats plus_stats =
     (if dbl_lt (me_utility minus_stats) (me_utility plus_stats) then SPCC_DIR_PLUS
      else SPCC_DIR_MINUS)"

definition srpc_pcc_gen_micro_exp_dirs :: "nat \<Rightarrow> pcc_ctl \<Rightarrow> pcc_ctl" where
  "srpc_pcc_gen_micro_exp_dirs rnd c =
     (let do_incr = rnd mod 2;
          d1 = (if do_incr \<noteq> 0 then 1 else - 1)
      in c\<lparr>srpc_pcc_micro_exp_dirs := (srpc_pcc_micro_exp_dirs c)(1 := d1, 2 := - d1)\<rparr>)"

text \<open>\<^verbatim>\<open>new_cp = MAX(new_cp, runtime_max_cores()); new_cp = MIN(new_cp, num_sess << 6)\<close>\<close>

definition clamp_pool :: "int \<Rightarrow> pcc \<Rightarrow> int \<Rightarrow> int" where
  "clamp_pool max_cores w new_cp =
     min (max new_cp max_cores) (srpc_num_sess w * 2 ^ SPCC_MAX_WINDOW_EXP)"

definition decr_credit_pool :: "int \<Rightarrow> pcc \<Rightarrow> int" where
  "decr_credit_pool max_cores w = clamp_pool max_cores w (srpc_credit_pool w - SPCC_EPSILON)"

definition incr_credit_pool :: "int \<Rightarrow> pcc \<Rightarrow> int" where
  "incr_credit_pool max_cores w = clamp_pool max_cores w (srpc_credit_pool w + SPCC_EPSILON)"

definition update_credit_pool :: "int \<Rightarrow> int \<Rightarrow> pcc \<Rightarrow> int" where
  "update_credit_pool max_cores dir w =
     clamp_pool max_cores w (srpc_credit_pool w + dir * SPCC_EPSILON)"

text \<open>What one run reads: whether the controller lock was free; the clock on entry, for the next
  update, for the start and end stamps and on exit; the queueing delay, memory and energy counters;
  a random number; the core and the clock readings of the wake-up; and \<open>in_dir\<close>, the contents of the
  local variable \<^verbatim>\<open>update_dir\<close> before it is assigned (\<open>None\<close> for a value that is no direction).\<close>

record ctl_in =
  in_lock :: bool
  in_now :: u64
  in_next :: u64
  in_start :: u64
  in_end :: u64
  in_exit :: u64
  in_queue_us :: u64
  in_mem :: u64
  in_energy :: dbl
  in_rand :: nat
  in_core :: nat
  in_choose :: "nat \<Rightarrow> u64"
  in_dir :: "spcc_dir option"

definition prepare_micro_exp :: "int \<Rightarrow> ctl_in \<Rightarrow> pcc \<Rightarrow> pcc" where
  "prepare_micro_exp max_cores e w =
     (let micro_exp_id = srpc_pcc_num_micro_exps (ctl w) + 1;
          new_cp = update_credit_pool max_cores (srpc_pcc_micro_exp_dirs (ctl w) micro_exp_id) w
      in w\<lparr>srpc_credit_pool := new_cp,
           ctl := (ctl w)\<lparr>srpc_pcc_state := SPCC_CTL_STATE_START_MICRO_EXP,
                          srpc_pcc_next_update := in_next e + SPCC_PRE_MI_US\<rparr>\<rparr>)"

definition start_micro_exp :: "ctl_in \<Rightarrow> pcc \<Rightarrow> pcc" where
  "start_micro_exp e w =
     (let c = ctl w;
          i = srpc_pcc_num_micro_exps c + 1
      in w\<lparr>ctl := c\<lparr>
             srpc_pcc_in_reqs := (srpc_pcc_in_reqs c)(i := 0),
             srpc_pcc_out_resps := (srpc_pcc_out_resps c)(i := 0),
             srpc_pcc_good_out_resps := (srpc_pcc_good_out_resps c)(i := 0),
             srpc_pcc_drop_reqs := (srpc_pcc_drop_reqs c)(i := 0),
             srpc_pcc_qdelay := (srpc_pcc_qdelay c)(i := in_queue_us e),
             srpc_pcc_mem_accesses := (srpc_pcc_mem_accesses c)(i := in_mem e),
             srpc_pcc_energy_consumed := (srpc_pcc_energy_consumed c)(i := in_energy e),
             srpc_pcc_start_ts := (srpc_pcc_start_ts c)(i := in_start e),
             srpc_pcc_end_ts := (srpc_pcc_end_ts c)(i := in_end e),
             srpc_pcc_micro_exp_id := i,
             srpc_pcc_state := SPCC_CTL_STATE_END_MICRO_EXP,
             srpc_pcc_next_update := in_next e + SPCC_MI_US\<rparr>\<rparr>)"

text \<open>The result says whether the pool was reset (and sessions are to be woken).\<close>

definition end_micro_exp :: "ctl_in \<Rightarrow> pcc \<Rightarrow> bool \<times> pcc" where
  "end_micro_exp e w =
     (let c = ctl w;
          i = srpc_pcc_micro_exp_id c;
          c = c\<lparr>srpc_pcc_mem_accesses :=
                  (srpc_pcc_mem_accesses c)(i := in_mem e - srpc_pcc_mem_accesses c i),
                srpc_pcc_energy_consumed :=
                  (srpc_pcc_energy_consumed c)(i := dbl_sub (in_energy e) (srpc_pcc_energy_consumed c i)),
                srpc_pcc_micro_exp_id := 0,
                srpc_pcc_num_micro_exps := srpc_pcc_num_micro_exps c + 1\<rparr>
      in if srpc_pcc_num_micro_exps c < SPCC_MAX_NUM_MICRO_EXPS
         then (False, w\<lparr>ctl := c\<lparr>srpc_pcc_state := SPCC_CTL_STATE_PREPARE_MICRO_EXP,
                                 srpc_pcc_next_update := in_next e\<rparr>\<rparr>)
         else (True, w\<lparr>srpc_credit_pool := srpc_pcc_orig_cp c,
                       ctl := c\<lparr>srpc_pcc_state := SPCC_CTL_STATE_MAKE_DECISION,
                                srpc_pcc_next_update := in_next e\<rparr>\<rparr>))"

definition read_stats :: "pcc_ctl \<Rightarrow> nat \<Rightarrow> spcc_micro_exp_stats" where
  "read_stats c i =
     (let st = \<lparr>me_duration = srpc_pcc_end_ts c i - srpc_pcc_start_ts c i,
               me_in_reqs = srpc_pcc_in_reqs c i, me_out_resps = srpc_pcc_out_resps c i,
               me_good_out_resps = srpc_pcc_good_out_resps c i,
               me_drop_reqs = srpc_pcc_drop_reqs c i, me_qdelay = srpc_pcc_qdelay c i,
               me_mem_accesses = srpc_pcc_mem_accesses c i,
               me_energy_consumed = srpc_pcc_energy_consumed c i, me_utility = Fin 0\<rparr>
      in st\<lparr>me_utility := spcc_calc_util_fn st\<rparr>)"

definition decide_dir :: "ctl_in \<Rightarrow> spcc_micro_exp_stats \<Rightarrow> spcc_micro_exp_stats \<Rightarrow> spcc_dir option" where
  "decide_dir e st1 st2 =
     (if me_in_reqs st1 = 0 \<or> me_in_reqs st2 = 0 then Some SPCC_DIR_PLUS
      else if me_in_reqs st1 > me_in_reqs st2 then Some (spcc_comp_util_fn st2 st1)
      else if me_in_reqs st2 > me_in_reqs st1 then Some (spcc_comp_util_fn st1 st2)
      else in_dir e)"

definition decide_pool :: "int \<Rightarrow> spcc_dir option \<Rightarrow> pcc \<Rightarrow> int" where
  "decide_pool max_cores dir w =
     (let new_cp = srpc_credit_pool w;
          credit_used = srpc_credit_used w
      in case dir of
           Some SPCC_DIR_MINUS \<Rightarrow> decr_credit_pool max_cores w
         | Some SPCC_DIR_STAY \<Rightarrow> if credit_used < new_cp then decr_credit_pool max_cores w else new_cp
         | Some SPCC_DIR_PLUS \<Rightarrow>
             if credit_used \<ge> new_cp then incr_credit_pool max_cores w
             else decr_credit_pool max_cores w
         | None \<Rightarrow> new_cp)"

definition make_decision :: "int \<Rightarrow> ctl_in \<Rightarrow> pcc \<Rightarrow> pcc" where
  "make_decision max_cores e w =
     (let c = ctl w;
          new_cp = decide_pool max_cores (decide_dir e (read_stats c 1) (read_stats c 2)) w;
          c = c\<lparr>srpc_pcc_num_micro_exps := 0, srpc_pcc_micro_exp_id := 0\<rparr>;
          c = srpc_pcc_gen_micro_exp_dirs (in_rand e) c
      in w\<lparr>srpc_credit_pool := new_cp,
           ctl := c\<lparr>srpc_pcc_orig_cp := new_cp,
                    srpc_pcc_state := SPCC_CTL_STATE_PREPARE_MICRO_EXP,
                    srpc_pcc_next_update := in_next e\<rparr>\<rparr>)"

text \<open>The \<^verbatim>\<open>switch\<close>, and the whole function with its epilogue.\<close>

definition drive :: "int \<Rightarrow> ctl_in \<Rightarrow> pcc \<Rightarrow> bool \<times> pcc" where
  "drive max_cores e w =
     (case srpc_pcc_state (ctl w) of
        SPCC_CTL_STATE_PREPARE_MICRO_EXP \<Rightarrow> (True, prepare_micro_exp max_cores e w)
      | SPCC_CTL_STATE_START_MICRO_EXP \<Rightarrow> (False, start_micro_exp e w)
      | SPCC_CTL_STATE_END_MICRO_EXP \<Rightarrow> end_micro_exp e w
      | SPCC_CTL_STATE_MAKE_DECISION \<Rightarrow> (True, make_decision max_cores e w))"

definition srpc_update_credit_pool :: "nat \<Rightarrow> ctl_in \<Rightarrow> pcc \<Rightarrow> pcc option" where
  "srpc_update_credit_pool max_cores e w =
     (if \<not> in_lock e then Some w
      else
        let (do_wakeup, w) =
              (if in_now e < srpc_pcc_next_update (ctl w) then (False, w)
               else drive (int max_cores) e w)
        in if do_wakeup \<or> in_exit e - srpc_pcc_last_wakeup (ctl w) > u64_of_int SPCC_RTT_US
           then do {
             let credit_unused = srpc_credit_pool w - srpc_credit_used w;
             w \<leftarrow> wakeup_drained_session (in_choose e) (in_core e) max_cores (nat credit_unused) w;
             Some (w\<lparr>ctl := (ctl w)\<lparr>srpc_pcc_last_wakeup := in_exit e\<rparr>\<rparr>)
           }
           else Some w)"

definition srpc_handle_req_drop :: "nat \<Rightarrow> ctl_in \<Rightarrow> u64 \<Rightarrow> pcc \<Rightarrow> pcc option" where
  "srpc_handle_req_drop max_cores e qus w = srpc_update_credit_pool max_cores e w"

section \<open>The registers of the controller\<close>

text \<open>At most two experiments, run in opposite directions; the index the workers use for their
  statistics is that of the running experiment, or 0.\<close>

definition ctl_ok :: "pcc_ctl \<Rightarrow> bool" where
  "ctl_ok c \<longleftrightarrow>
     (srpc_pcc_micro_exp_dirs c 1 = 1 \<or> srpc_pcc_micro_exp_dirs c 1 = -1) \<and>
     srpc_pcc_micro_exp_dirs c 2 = - srpc_pcc_micro_exp_dirs c 1 \<and>
     (case srpc_pcc_state c of
        SPCC_CTL_STATE_MAKE_DECISION \<Rightarrow>
          srpc_pcc_num_micro_exps c = SPCC_MAX_NUM_MICRO_EXPS \<and> srpc_pcc_micro_exp_id c = 0
      | SPCC_CTL_STATE_END_MICRO_EXP \<Rightarrow>
          srpc_pcc_num_micro_exps c < SPCC_MAX_NUM_MICRO_EXPS \<and>
          srpc_pcc_micro_exp_id c = srpc_pcc_num_micro_exps c + 1
      | _ \<Rightarrow> srpc_pcc_num_micro_exps c < SPCC_MAX_NUM_MICRO_EXPS \<and> srpc_pcc_micro_exp_id c = 0)"

lemmas drive_defs = drive_def prepare_micro_exp_def start_micro_exp_def end_micro_exp_def
  make_decision_def srpc_pcc_gen_micro_exp_dirs_def Let_def

lemma ctl_only: "\<exists>p c'. w\<lparr>ctl := c\<rparr> = w\<lparr>srpc_credit_pool := p, ctl := c'\<rparr>"
  by (rule exI [of _ "srpc_credit_pool w"], rule exI [of _ c]) simp

lemma drive_frame:
  "\<exists>p c. snd (drive mc e w) = w\<lparr>srpc_credit_pool := p, ctl := c\<rparr>"
  by (cases "srpc_pcc_state (ctl w)") (auto simp: drive_defs ctl_only)

lemma drive_ctl_ok: "ctl_ok (ctl w) \<Longrightarrow> ctl_ok (ctl (snd (drive mc e w)))"
  by (cases "srpc_pcc_state (ctl w)")
    (auto simp: drive_defs ctl_ok_def SPCC_MAX_NUM_MICRO_EXPS_def)

text \<open>Everything one run of the controller does to the server.\<close>

definition ctl_effect :: "nat list \<Rightarrow> pcc \<Rightarrow> pcc \<Rightarrow> bool" where
  "ctl_effect ks w w' \<longleftrightarrow>
     (\<exists>d es p c. w' = w\<lparr>sessions := woken ks (sessions w), srpc_drained := d,
         srpc_num_drained := srpc_num_drained w - int (length ks), srpc_credit_pool := p,
         srpc_credit_used := srpc_credit_used w + int (length ks), ctl := c, io := io w @ es\<rparr>) \<and>
     distinct ks \<and> (\<forall>k \<in> set ks. \<exists>s. sessions w k = Some s \<and> s_is_linked s)"

lemma ctl_effect_simps:
  assumes "ctl_effect ks w w'"
  shows "sessions w' = woken ks (sessions w)" "srpc_num_sess w' = srpc_num_sess w"
    "srpc_num_pending w' = srpc_num_pending w" "stat w' = stat w"
    "srpc_credit_used w' = srpc_credit_used w + int (length ks)"
    "distinct ks" "\<And>k. k \<in> set ks \<Longrightarrow> \<exists>s. sessions w k = Some s \<and> s_is_linked s"
  using assms unfolding ctl_effect_def by auto

lemma ctl_effect_Nil: "ctl_effect [] w w"
  unfolding ctl_effect_def
  by (auto intro!: exI [of _ "srpc_drained w"] exI [of _ "[]"] exI [of _ "srpc_credit_pool w"]
      exI [of _ "ctl w"])

lemma ctl_effect_Nil_frame: "ctl_effect [] w (w\<lparr>srpc_credit_pool := p, ctl := c\<rparr>)"
  unfolding ctl_effect_def
  by (rule conjI, rule exI [of _ "srpc_drained w"], rule exI [of _ "[]"], rule exI [of _ p],
      rule exI [of _ c]) (cases w, simp_all)

lemma ctl_effect_woke:
  assumes "woke ks (w\<lparr>srpc_credit_pool := p, ctl := c\<rparr>) w'"
  shows "ctl_effect ks w (w'\<lparr>ctl := c'\<rparr>)"
proof -
  from assms obtain d es where w': "w' = w\<lparr>srpc_credit_pool := p, ctl := c,
      sessions := woken ks (sessions w), srpc_drained := d,
      srpc_num_drained := srpc_num_drained w - int (length ks),
      srpc_credit_used := srpc_credit_used w + int (length ks), io := io w @ es\<rparr>"
    and ks: "distinct ks" "\<forall>k \<in> set ks. \<exists>s. sessions w k = Some s \<and> s_is_linked s"
    unfolding woke_def by auto
  have "w'\<lparr>ctl := c'\<rparr> = w\<lparr>sessions := woken ks (sessions w), srpc_drained := d,
      srpc_num_drained := srpc_num_drained w - int (length ks), srpc_credit_pool := p,
      srpc_credit_used := srpc_credit_used w + int (length ks), ctl := c', io := io w @ es\<rparr>"
    unfolding w' by (cases w) simp
  with ks show ?thesis unfolding ctl_effect_def by blast
qed

lemma srpc_update_credit_pool_spec:
  assumes ok: "drained_ok w" and core: "in_core e < mc"
  shows "\<exists>ks w'. srpc_update_credit_pool mc e w = Some w' \<and> ctl_effect ks w w' \<and> drained_ok w' \<and>
    (ctl_ok (ctl w) \<longrightarrow> ctl_ok (ctl w')) \<and>
    (ks \<noteq> [] \<longrightarrow> srpc_credit_used w' \<le> srpc_credit_pool w')"
proof (cases "in_lock e")
  case False
  then show ?thesis
    using ok ctl_effect_Nil [of w] by (intro exI [of _ "[]"] exI [of _ w]) (simp add: srpc_update_credit_pool_def)
next
  case True
  define r where "r = (if in_now e < srpc_pcc_next_update (ctl w) then (False, w) else drive (int mc) e w)"
  define w1 where "w1 = snd r"
  have "\<exists>p c. w1 = w\<lparr>srpc_credit_pool := p, ctl := c\<rparr>"
    using drive_frame [of "int mc" e w] ctl_only [where w = w and c = "ctl w"] by (simp add: w1_def r_def)
  then obtain p c where w1: "w1 = w\<lparr>srpc_credit_pool := p, ctl := c\<rparr>" by blast
  have ok1: "drained_ok w1" using ok by (rule drained_ok_frame) (simp_all add: w1)
  have c1: "ctl_ok (ctl w) \<Longrightarrow> ctl_ok (ctl w1)"
    using drive_ctl_ok [of w "int mc" e] by (simp add: w1_def r_def)
  show ?thesis
  proof (cases "fst r \<or> in_exit e - srpc_pcc_last_wakeup (ctl w1) > u64_of_int SPCC_RTT_US")
    case False
    then have "srpc_update_credit_pool mc e w = Some w1"
      using True by (auto simp: srpc_update_credit_pool_def r_def w1_def Let_def split: prod.splits)
    then show ?thesis
      using ok1 c1 ctl_effect_Nil_frame [where w = w and p = p and c = c] by (intro exI [of _ "[]"] exI [of _ w1]) (simp add: w1)
  next
    case wake: True
    let ?n = "nat (srpc_credit_pool w1 - srpc_credit_used w1)"
    from wakeup_spec [OF ok1 core, of "in_choose e" ?n] obtain ks w2 where
      w2: "wakeup_drained_session (in_choose e) (in_core e) mc ?n w1 = Some w2"
        "woke ks w1 w2" "drained_ok w2" "length ks \<le> ?n" by blast
    let ?c = "(ctl w2)\<lparr>srpc_pcc_last_wakeup := in_exit e\<rparr>"
    have "srpc_update_credit_pool mc e w = Some (w2\<lparr>ctl := ?c\<rparr>)"
      using True wake w2(1)
      by (auto simp: srpc_update_credit_pool_def r_def w1_def Let_def split: prod.splits)
    moreover have "ctl_effect ks w (w2\<lparr>ctl := ?c\<rparr>)"
      using w2(2) unfolding w1 by (rule ctl_effect_woke)
    moreover have "drained_ok (w2\<lparr>ctl := ?c\<rparr>)" using w2(3) by (rule drained_ok_frame) simp_all
    moreover have "ctl_ok (ctl w1) \<Longrightarrow> ctl_ok (ctl (w2\<lparr>ctl := ?c\<rparr>))"
      using w2(2) by (auto simp: woke_def ctl_ok_def split: spcc_ctl_state.splits)
    moreover have "srpc_credit_used w2 \<le> srpc_credit_pool w2" if "ks \<noteq> []"
      using w2(2,4) that by (cases ks) (auto simp: woke_def)
    ultimately show ?thesis using c1 by (intro exI [of _ ks] exI [of _ "w2\<lparr>ctl := ?c\<rparr>"]) simp
  qed
qed

section \<open>The pool\<close>

lemma clamp_pool_range:
  "clamp_pool mc w x \<le> 64 * srpc_num_sess w"
  "min mc (64 * srpc_num_sess w) \<le> clamp_pool mc w x"
  by (auto simp: clamp_pool_def SPCC_MAX_WINDOW_EXP_def)

lemma clamp_pool_id: "mc \<le> x \<Longrightarrow> x \<le> 64 * srpc_num_sess w \<Longrightarrow> clamp_pool mc w x = x"
  by (auto simp: clamp_pool_def SPCC_MAX_WINDOW_EXP_def)

lemma clamp_pool_near:
  assumes "mc \<le> x" and "x \<le> 64 * srpc_num_sess w" and "\<bar>y - x\<bar> \<le> 1"
  shows "\<bar>clamp_pool mc w y - x\<bar> \<le> 1"
  using assms by (auto simp: clamp_pool_def SPCC_MAX_WINDOW_EXP_def)

lemma decide_pool_near:
  assumes "mc \<le> srpc_credit_pool w" and "srpc_credit_pool w \<le> 64 * srpc_num_sess w"
  shows "\<bar>decide_pool mc dir w - srpc_credit_pool w\<bar> \<le> 1"
proof -
  have "\<bar>decr_credit_pool mc w - srpc_credit_pool w\<bar> \<le> 1" "\<bar>incr_credit_pool mc w - srpc_credit_pool w\<bar> \<le> 1"
    unfolding decr_credit_pool_def incr_credit_pool_def SPCC_EPSILON_def
    by (rule clamp_pool_near [OF assms], simp)+
  then show ?thesis by (simp add: decide_pool_def Let_def split: option.split spcc_dir.split)
qed

text \<open>The servers after each of a sequence of state-machine steps.\<close>

fun drives :: "int \<Rightarrow> ctl_in list \<Rightarrow> pcc \<Rightarrow> pcc list" where
  "drives mc [] w = []"
| "drives mc (e # es) w = (let w' = snd (drive mc e w) in w' # drives mc es w')"

lemma drive_prepare:
  fixes mc :: int and e :: ctl_in
  assumes "srpc_pcc_state (ctl w) = SPCC_CTL_STATE_PREPARE_MICRO_EXP"
  defines "w' \<equiv> snd (drive mc e w)"
  shows "srpc_credit_pool w' =
      update_credit_pool mc (srpc_pcc_micro_exp_dirs (ctl w) (srpc_pcc_num_micro_exps (ctl w) + 1)) w"
    and "srpc_pcc_state (ctl w') = SPCC_CTL_STATE_START_MICRO_EXP"
    and "srpc_num_sess w' = srpc_num_sess w" and "srpc_pcc_orig_cp (ctl w') = srpc_pcc_orig_cp (ctl w)"
    and "srpc_pcc_num_micro_exps (ctl w') = srpc_pcc_num_micro_exps (ctl w)"
    and "srpc_pcc_micro_exp_dirs (ctl w') = srpc_pcc_micro_exp_dirs (ctl w)"
  using assms(1) by (simp_all add: w'_def drive_def prepare_micro_exp_def Let_def)

lemma drive_start:
  fixes mc :: int and e :: ctl_in
  assumes "srpc_pcc_state (ctl w) = SPCC_CTL_STATE_START_MICRO_EXP"
  defines "w' \<equiv> snd (drive mc e w)"
  shows "srpc_credit_pool w' = srpc_credit_pool w"
    and "srpc_pcc_state (ctl w') = SPCC_CTL_STATE_END_MICRO_EXP"
    and "srpc_num_sess w' = srpc_num_sess w" and "srpc_pcc_orig_cp (ctl w') = srpc_pcc_orig_cp (ctl w)"
    and "srpc_pcc_num_micro_exps (ctl w') = srpc_pcc_num_micro_exps (ctl w)"
    and "srpc_pcc_micro_exp_dirs (ctl w') = srpc_pcc_micro_exp_dirs (ctl w)"
  using assms(1) by (simp_all add: w'_def drive_def start_micro_exp_def Let_def)

lemma drive_end:
  fixes mc :: int and e :: ctl_in
  assumes "srpc_pcc_state (ctl w) = SPCC_CTL_STATE_END_MICRO_EXP"
  defines "w' \<equiv> snd (drive mc e w)" and "n \<equiv> srpc_pcc_num_micro_exps (ctl w)"
  shows "srpc_credit_pool w' = (if n + 1 < 2 then srpc_credit_pool w else srpc_pcc_orig_cp (ctl w))"
    and "srpc_pcc_state (ctl w') = (if n + 1 < 2 then SPCC_CTL_STATE_PREPARE_MICRO_EXP
           else SPCC_CTL_STATE_MAKE_DECISION)"
    and "srpc_num_sess w' = srpc_num_sess w" and "srpc_pcc_orig_cp (ctl w') = srpc_pcc_orig_cp (ctl w)"
    and "srpc_pcc_num_micro_exps (ctl w') = n + 1"
    and "srpc_pcc_micro_exp_dirs (ctl w') = srpc_pcc_micro_exp_dirs (ctl w)"
  using assms(1)
  by (simp_all add: w'_def n_def drive_def end_micro_exp_def SPCC_MAX_NUM_MICRO_EXPS_def Let_def)

lemma drive_decide:
  fixes mc :: int and e :: ctl_in
  assumes "srpc_pcc_state (ctl w) = SPCC_CTL_STATE_MAKE_DECISION"
  defines "w' \<equiv> snd (drive mc e w)"
  shows "srpc_credit_pool w' = decide_pool mc (decide_dir e (read_stats (ctl w) 1) (read_stats (ctl w) 2)) w"
    and "srpc_pcc_state (ctl w') = SPCC_CTL_STATE_PREPARE_MICRO_EXP"
    and "srpc_num_sess w' = srpc_num_sess w" and "srpc_pcc_orig_cp (ctl w') = srpc_credit_pool w'"
    and "srpc_pcc_num_micro_exps (ctl w') = 0"
  using assms(1)
  by (simp_all add: w'_def drive_def make_decision_def srpc_pcc_gen_micro_exp_dirs_def Let_def)

section \<open>Properties\<close>

text \<open>The readings of an idle machine, for concrete runs.\<close>

definition zero_in :: ctl_in where
  "zero_in = \<lparr>in_lock = True, in_now = 0, in_next = 0, in_start = 0, in_end = 0, in_exit = 0,
     in_queue_us = 0, in_mem = 0, in_energy = Fin 0, in_rand = 0, in_core = 0,
     in_choose = (\<lambda>_. 0), in_dir = None\<rparr>"





text \<open>C19. What the decision does: an experiment that received no request, or a strictly larger utility
  of the experiment that received more requests, moves the pool up by one when all its credits are
  in use and down by one otherwise; a utility that is not strictly larger moves it down by one.  The
  result always respects the limits of the pool.\<close>

theorem decision_follows_utility:
  fixes w e max_cores
  defines "st1 \<equiv> read_stats (ctl w) 1" and "st2 \<equiv> read_stats (ctl w) 2"
    and "w' \<equiv> make_decision max_cores e w"
  shows "(me_in_reqs st1 = 0 \<or> me_in_reqs st2 = 0 \<or>
        me_in_reqs st1 > me_in_reqs st2 \<and> dbl_lt (me_utility st2) (me_utility st1) \<or>
        me_in_reqs st2 > me_in_reqs st1 \<and> dbl_lt (me_utility st1) (me_utility st2) \<longrightarrow>
      srpc_credit_pool w' = clamp_pool max_cores w
        (srpc_credit_pool w + (if srpc_credit_used w \<ge> srpc_credit_pool w then 1 else -1))) \<and>
    (me_in_reqs st1 \<noteq> 0 \<and> me_in_reqs st2 \<noteq> 0 \<and>
        (me_in_reqs st1 > me_in_reqs st2 \<and> \<not> dbl_lt (me_utility st2) (me_utility st1) \<or>
         me_in_reqs st2 > me_in_reqs st1 \<and> \<not> dbl_lt (me_utility st1) (me_utility st2)) \<longrightarrow>
      srpc_credit_pool w' = clamp_pool max_cores w (srpc_credit_pool w - 1)) \<and>
    (me_in_reqs st1 \<noteq> me_in_reqs st2 \<longrightarrow>
      min max_cores (64 * srpc_num_sess w) \<le> srpc_credit_pool w' \<and>
      srpc_credit_pool w' \<le> 64 * srpc_num_sess w)"
proof -
  have p: "srpc_credit_pool w' = decide_pool max_cores (decide_dir e st1 st2) w"
    by (simp add: w'_def make_decision_def st1_def st2_def Let_def)
  note d = decide_pool_def incr_credit_pool_def decr_credit_pool_def SPCC_EPSILON_def Let_def
  have "srpc_credit_pool w' = clamp_pool max_cores w
      (srpc_credit_pool w + (if srpc_credit_used w \<ge> srpc_credit_pool w then 1 else -1))"
    if "decide_dir e st1 st2 = Some SPCC_DIR_PLUS" using that by (simp add: p d)
  moreover have "srpc_credit_pool w' = clamp_pool max_cores w (srpc_credit_pool w - 1)"
    if "decide_dir e st1 st2 = Some SPCC_DIR_MINUS" using that by (simp add: p d)
  moreover have "decide_dir e st1 st2 = Some SPCC_DIR_PLUS"
    if "me_in_reqs st1 = 0 \<or> me_in_reqs st2 = 0 \<or>
        me_in_reqs st1 > me_in_reqs st2 \<and> dbl_lt (me_utility st2) (me_utility st1) \<or>
        me_in_reqs st2 > me_in_reqs st1 \<and> dbl_lt (me_utility st1) (me_utility st2)"
    using that
    by (elim disjE conjE) (simp_all add: decide_dir_def spcc_comp_util_fn_def order_less_not_sym)
  moreover have "decide_dir e st1 st2 = Some SPCC_DIR_MINUS"
    if "me_in_reqs st1 \<noteq> 0 \<and> me_in_reqs st2 \<noteq> 0 \<and>
        (me_in_reqs st1 > me_in_reqs st2 \<and> \<not> dbl_lt (me_utility st2) (me_utility st1) \<or>
         me_in_reqs st2 > me_in_reqs st1 \<and> \<not> dbl_lt (me_utility st1) (me_utility st2))"
    using that
    by (elim disjE conjE) (simp_all add: decide_dir_def spcc_comp_util_fn_def order_less_not_sym)
  moreover have "min max_cores (64 * srpc_num_sess w) \<le> srpc_credit_pool w' \<and>
      srpc_credit_pool w' \<le> 64 * srpc_num_sess w" if "me_in_reqs st1 \<noteq> me_in_reqs st2"
  proof -
    have "decide_dir e st1 st2 = Some SPCC_DIR_PLUS \<or> decide_dir e st1 st2 = Some SPCC_DIR_MINUS"
      using that by (cases rule: linorder_cases [of "me_in_reqs st1" "me_in_reqs st2"])
        (simp_all add: decide_dir_def spcc_comp_util_fn_def order_less_not_sym)
    then have "\<exists>x. srpc_credit_pool w' = clamp_pool max_cores w x"
      using calculation(1,2) by blast
    with clamp_pool_range [of max_cores w] show ?thesis by metis
  qed
  ultimately show ?thesis by blast
qed

theorem decision_follows_utility_witness:
  "srpc_credit_pool (make_decision 4 zero_in (zero_pcc\<lparr>srpc_num_sess := 1, srpc_credit_pool := 10\<rparr>)) = 9"
  using decision_follows_utility [of "zero_pcc\<lparr>srpc_num_sess := 1, srpc_credit_pool := 10\<rparr>" 4 zero_in]
  by (simp add: zero_pcc_def zero_ctl_def read_stats_def Let_def clamp_pool_def SPCC_MAX_WINDOW_EXP_def)

text \<open>C37. When both experiments received the same positive number of requests, \<^verbatim>\<open>update_dir\<close> is
  read without having been assigned: the pool goes up, down or stays, depending on what the stack
  held.\<close>

theorem decision_reads_uninitialised:
  assumes "srpc_pcc_in_reqs (ctl w) 1 = srpc_pcc_in_reqs (ctl w) 2" and "srpc_pcc_in_reqs (ctl w) 1 \<noteq> 0"
    and "max_cores < srpc_credit_pool w" and "srpc_credit_pool w < 64 * srpc_num_sess w"
    and "srpc_credit_pool w \<le> srpc_credit_used w"
  shows "srpc_credit_pool (make_decision max_cores (e\<lparr>in_dir := Some SPCC_DIR_PLUS\<rparr>) w) = srpc_credit_pool w + 1
    \<and> srpc_credit_pool (make_decision max_cores (e\<lparr>in_dir := Some SPCC_DIR_MINUS\<rparr>) w) = srpc_credit_pool w - 1
    \<and> srpc_credit_pool (make_decision max_cores (e\<lparr>in_dir := None\<rparr>) w) = srpc_credit_pool w"
  using assms by (simp add: make_decision_def decide_dir_def read_stats_def decide_pool_def
      incr_credit_pool_def decr_credit_pool_def clamp_pool_id SPCC_EPSILON_def Let_def)

theorem decision_reads_uninitialised_witness:
  "srpc_credit_pool (make_decision 4 (zero_in\<lparr>in_dir := Some SPCC_DIR_PLUS\<rparr>)
     (zero_pcc\<lparr>srpc_num_sess := 1, srpc_credit_pool := 10, srpc_credit_used := 10,
        ctl := zero_ctl\<lparr>srpc_pcc_in_reqs := (\<lambda>_. 3)\<rparr>\<rparr>)) = 11"
  using decision_reads_uninitialised [of "zero_pcc\<lparr>srpc_num_sess := 1, srpc_credit_pool := 10,
      srpc_credit_used := 10, ctl := zero_ctl\<lparr>srpc_pcc_in_reqs := (\<lambda>_. 3)\<rparr>\<rparr>" 4 zero_in] by simp

end
