(* ===== verification/Pcc_Server.thy ===== *)
theory Pcc_Server
  imports Pcc_Credit Pcc_Control
begin

text \<open>
  The threads of \<^verbatim>\<open>pcc_server.c\<close>: the worker of a request, the receiver and the sender of a
  session, opening and closing a session, the listener.  The sender is cut where it gives up the
  session lock: collecting completed slots (\<open>srpc_sender_collect\<close>), sending an explicit credit
  (\<open>srpc_sender_ecredit\<close>) or the responses (\<open>srpc_sender_respond\<close>), entering the drained list
  (\<open>srpc_sender_drain\<close>) and closing (\<open>srpc_sender_close\<close>).
\<close>

section \<open>Worker\<close>

record worker_in =
  wk_t0 :: u64
  wk_t1 :: u64
  wk_acc_qdel_us :: u64
  wk_end_ts :: u64
  wk_queue_us :: u64
  wk_ctl :: ctl_in

definition note_end :: "nat \<Rightarrow> u64 \<Rightarrow> u64 \<Rightarrow> pcc_ctl \<Rightarrow> pcc_ctl" where
  "note_end i end_ts qdelay c =
     (let c = c\<lparr>srpc_pcc_end_ts := (srpc_pcc_end_ts c)(i := end_ts)\<rparr>
      in if qdelay > srpc_pcc_qdelay c i
         then c\<lparr>srpc_pcc_qdelay := (srpc_pcc_qdelay c)(i := qdelay)\<rparr> else c)"

definition note_drop :: "nat \<Rightarrow> pcc_ctl \<Rightarrow> pcc_ctl" where
  "note_drop i c = c\<lparr>srpc_pcc_drop_reqs := (srpc_pcc_drop_reqs c)(i := srpc_pcc_drop_reqs c i + 1)\<rparr>"

definition note_resp :: "nat \<Rightarrow> u64 \<Rightarrow> pcc_ctl \<Rightarrow> pcc_ctl" where
  "note_resp i acc_us c =
     (let c = c\<lparr>srpc_pcc_out_resps := (srpc_pcc_out_resps c)(i := srpc_pcc_out_resps c i + 1)\<rparr>
      in if acc_us < SPCC_QDELAY_BUDGET
         then c\<lparr>srpc_pcc_good_out_resps :=
                  (srpc_pcc_good_out_resps c)(i := srpc_pcc_good_out_resps c i + 1)\<rparr>
         else c)"

definition note_service_time :: "u64 \<Rightarrow> pcc \<Rightarrow> pcc" where
  "note_service_time service_time w =
     (let avg_st = u64_of_int (srpc_avg_st w)
      in w\<lparr>srpc_avg_st := int_of_u64 (avg_st - drop_bit 3 avg_st + drop_bit 3 service_time)\<rparr>)"

definition stat_dropped :: "pcc \<Rightarrow> pcc" where
  "stat_dropped w = w\<lparr>stat := (stat w)\<lparr>srpc_stat_req_dropped := srpc_stat_req_dropped (stat w) + 1\<rparr>\<rparr>"

text \<open>\<open>srpc_handler\<close> is the application's handler: it fills in the response and may mark the request
  dropped with \<^verbatim>\<open>spcc_drop\<close>.\<close>

definition srpc_worker ::
  "(spcc_ctx \<Rightarrow> spcc_ctx) \<Rightarrow> nat \<Rightarrow> worker_in \<Rightarrow> nat \<Rightarrow> nat \<Rightarrow> pcc \<Rightarrow> pcc option"
where
  "srpc_worker srpc_handler max_cores i k idx w =
     do {
       s \<leftarrow> sessions w k;
       c0 \<leftarrow> s_slots s idx;
       let micro_exp_id = c_opaque c0;
       let c = srpc_handler (c0\<lparr>c_drop := False\<rparr>);
       let w = (if \<not> c_drop c
                then (note_service_time (wk_t1 i - wk_t0 i) w)\<lparr>srpc_credit_ds := int_of_u64 (c_ds_credit c)\<rparr>
                else stat_dropped w);
       let w = (if srpc_pcc_micro_exp_id (ctl w) = micro_exp_id
                then w\<lparr>ctl := note_end micro_exp_id (wk_end_ts i) (wk_queue_us i)
                         (if \<not> c_drop c then note_resp micro_exp_id (wk_acc_qdel_us i) (ctl w)
                          else note_drop micro_exp_id (ctl w))\<rparr>
                else w);
       let w = put_sess k (s\<lparr>s_slots := (s_slots s)(idx \<mapsto> c),
                             s_completed_slots := bitmap_set (s_completed_slots s) (c_idx c),
                             s_sender_th := False, s_workers := s_workers s - {idx}\<rparr>) w;
       w \<leftarrow> srpc_update_credit_pool max_cores (wk_ctl i) w;
       Some (emit (ready_sender k s) w)
     }"

section \<open>Receiver\<close>

text \<open>What one round of the receive loop reads: the header and the result of reading it, memory for
  the context, the payload and the result of reading it, the queueing delay and clock, the core,
  the result of spawning a worker, and the controller's readings.\<close>

record recv_in =
  rv_ret :: int
  rv_hdr :: cpcc_hdr
  rv_mem :: spcc_ctx
  rv_payload_ret :: int
  rv_payload :: "u8 list"
  rv_us :: u64
  rv_now :: u64
  rv_core :: nat
  rv_spawn :: int
  rv_ctl :: ctl_in

datatype recv_res = RecvAgain | RecvRet int

definition EIO :: int where "EIO = 5"
definition EINVAL :: int where "EINVAL = 22"
definition EBUSY :: int where "EBUSY = 16"

text \<open>\<^verbatim>\<open>if (s->credit > s->num_pending + s->demand) ...\<close>, an unsigned comparison\<close>

definition adjust_credit :: "spcc_session \<Rightarrow> pcc \<Rightarrow> spcc_session \<times> pcc" where
  "adjust_credit s w =
     (let want = u64_of_int (s_num_pending s) + s_demand s
      in if u64_of_int (s_credit s) > want
         then let credit_diff = int_of_u64 (u64_of_int (s_credit s) - want)
              in (s\<lparr>s_credit := int_of_u64 want\<rparr>,
                  w\<lparr>srpc_credit_used := srpc_credit_used w - credit_diff\<rparr>)
         else (s, w))"

definition note_rx :: "pcc \<Rightarrow> pcc" where
  "note_rx w =
     (let i = srpc_pcc_micro_exp_id (ctl w)
      in w\<lparr>stat := (stat w)\<lparr>srpc_stat_req_rx := srpc_stat_req_rx (stat w) + 1\<rparr>,
           ctl := (ctl w)\<lparr>srpc_pcc_in_reqs := (srpc_pcc_in_reqs (ctl w))(i := srpc_pcc_in_reqs (ctl w) i + 1)\<rparr>\<rparr>)"

text \<open>The statistics of a request dropped on reception, if its experiment is still running.\<close>

definition note_rx_drop :: "nat \<Rightarrow> u64 \<Rightarrow> u64 \<Rightarrow> pcc \<Rightarrow> pcc" where
  "note_rx_drop i end_ts us w =
     (let w = stat_dropped w
      in if srpc_pcc_micro_exp_id (ctl w) = i
         then w\<lparr>ctl := note_end i end_ts us (note_drop i (ctl w))\<rparr> else w)"

definition recv_call :: "nat \<Rightarrow> recv_in \<Rightarrow> nat \<Rightarrow> pcc \<Rightarrow> (recv_res \<times> pcc) option" where
  "recv_call max_cores r k w =
     do {
       s \<leftarrow> sessions w k;
       let chdr = rv_hdr r;
       let micro_exp_id = srpc_pcc_micro_exp_id (ctl w);
       let w = note_rx w;
       let (idx, s) = srpc_get_slot (rv_mem r) s;
       if idx < 0
       then Some (RecvRet 0, note_rx_drop micro_exp_id (rv_now r) (rv_us r) w)
       else if rv_payload_ret r \<le> 0
       then Some (RecvRet (if rv_payload_ret r = 0 then - EIO else rv_payload_ret r),
                  put_sess k (srpc_put_slot (nat idx) s) w)
       else do {
         c \<leftarrow> s_slots s (nat idx);
         let c = c\<lparr>c_req_buf := rv_payload r, c_req_len := ch_len chdr, c_resp_len := 0,
                   c_id := ch_id chdr, c_ts_sent := ch_ts_sent chdr, c_opaque := micro_exp_id\<rparr>;
         let s = s\<lparr>s_slots := (s_slots s)(nat idx \<mapsto> c), s_demand := ch_demand chdr\<rparr>;
         let (s, w) = srpc_remove_from_drained_list k s w;
         let s = s\<lparr>s_num_pending := s_num_pending s + 1\<rparr>;
         let (s, w) = adjust_credit s w;
         let w = w\<lparr>srpc_num_pending := srpc_num_pending w + 1\<rparr>;
         if rv_us r \<ge> SPCC_QDELAY_BUDGET
         then do {
           w \<leftarrow> srpc_handle_req_drop max_cores (rv_ctl r) (rv_us r) (put_sess k s w);
           s \<leftarrow> sessions w k;
           c \<leftarrow> s_slots s (nat idx);
           let w = put_sess k (s\<lparr>s_slots := (s_slots s)(nat idx \<mapsto> c\<lparr>c_drop := True\<rparr>),
                                 s_completed_slots := bitmap_set (s_completed_slots s) (nat idx),
                                 s_sender_th := False\<rparr>) w;
           Some (RecvAgain,
                 note_rx_drop micro_exp_id (rv_now r) (rv_us r) (emit (ready_sender k s) w))
         }
         else do {
           BUG_ON (rv_spawn r \<noteq> 0);
           Some (RecvRet 0,
                 emit [SpawnWorker k (nat idx)]
                   (put_sess k (s\<lparr>s_workers := insert (nat idx) (s_workers s)\<rparr>) w))
         }
       }
     }"

definition recv_credit :: "recv_in \<Rightarrow> nat \<Rightarrow> pcc \<Rightarrow> (recv_res \<times> pcc) option" where
  "recv_credit r k w =
     (if ch_len (rv_hdr r) \<noteq> 0 then Some (RecvRet (- EINVAL), w)
      else do {
        s0 \<leftarrow> sessions w k;
        let s = s0\<lparr>s_demand := ch_demand (rv_hdr r)\<rparr>;
        BUG_ON (s_demand s0 > 0);
        BUG_ON (s_drained_core s > -1);
        (s, w, io) \<leftarrow>
          (if s_num_pending s = 0 \<and> s_demand s > 0
           then Some (s\<lparr>s_sender_th := False, s_need_ecredit := True\<rparr>, w, ready_sender k s)
           else if s_num_pending s = 0
           then do {
             let core_id = rv_core r;
             let d = srpc_drained w core_id;
             BUG_ON (s_is_linked s);
             BUG_ON (s_credit s > 0);
             let w = (set_drained core_id (list_h d) (list_l d @ [k]) w)
                       \<lparr>srpc_num_drained := srpc_num_drained w + 1\<rparr>;
             Some (s\<lparr>s_is_linked := True, s_drained_core := int core_id, s_advertised := 0\<rparr>, w, [])
           }
           else Some (s, w, []));
        let (s, w) = adjust_credit s w;
        let w = emit io (put_sess k s w);
        Some (RecvAgain,
              w\<lparr>stat := (stat w)\<lparr>srpc_stat_cupdate_rx := srpc_stat_cupdate_rx (stat w) + 1\<rparr>\<rparr>)
      })"

text \<open>One round of the loop behind the label \<^verbatim>\<open>again\<close>, and \<^verbatim>\<open>srpc_recv_one\<close> on the rounds it
  makes: it returns \<open>None\<close> in the first component while it waits for the next header.\<close>

definition srpc_recv_msg :: "nat \<Rightarrow> recv_in \<Rightarrow> nat \<Rightarrow> pcc \<Rightarrow> (recv_res \<times> pcc) option" where
  "srpc_recv_msg max_cores r k w =
     (if rv_ret r \<le> 0 then Some (RecvRet (if rv_ret r = 0 then - EIO else rv_ret r), w)
      else if ch_magic (rv_hdr r) \<noteq> PCC_REQ_MAGIC then Some (RecvRet (- EINVAL), w)
      else if ch_len (rv_hdr r) > SRPC_BUF_SIZE then Some (RecvRet (- EINVAL), w)
      else if ch_op (rv_hdr r) = PCC_OP_CALL then recv_call max_cores r k w
      else if ch_op (rv_hdr r) = PCC_OP_CREDIT then recv_credit r k w
      else Some (RecvRet (- EINVAL), w))"

fun srpc_recv_one :: "nat \<Rightarrow> recv_in list \<Rightarrow> nat \<Rightarrow> pcc \<Rightarrow> (int option \<times> pcc) option" where
  "srpc_recv_one max_cores [] k w = Some (None, w)"
| "srpc_recv_one max_cores (r # rs) k w =
     do {
       (res, w) \<leftarrow> srpc_recv_msg max_cores r k w;
       case res of
         RecvAgain \<Rightarrow> srpc_recv_one max_cores rs k w
       | RecvRet ret \<Rightarrow> Some (Some ret, w)
     }"

section \<open>Sender\<close>

fun any_dropped :: "spcc_session \<Rightarrow> nat list \<Rightarrow> bool option" where
  "any_dropped s [] = Some False"
| "any_dropped s (i # is') =
     do {
       c \<leftarrow> s_slots s i;
       if c_drop c then Some True else any_dropped s is'
     }"

definition sender_sleep :: "spcc_session \<Rightarrow> bool" where
  "sender_sleep s \<longleftrightarrow>
     \<not> s_closed s \<and> \<not> s_need_ecredit s \<and> \<not> s_wake_up s \<and>
     bitmap_popcount (s_completed_slots s) SPCC_MAX_WINDOW = 0"

text \<open>The critical section of the loop; \<open>rd\<close> are the readings of the globals, \<open>now\<close> the clock for
  \<^verbatim>\<open>last_ecredit_timestamp\<close>.\<close>

definition collect_completed :: "int \<Rightarrow> pcc \<Rightarrow> u64 \<Rightarrow> nat \<Rightarrow> spcc_session \<Rightarrow> pcc \<Rightarrow> pcc option" where
  "collect_completed max_cores rd now k s w =
     do {
       let tmp = s_completed_slots s;
       let s = s\<lparr>s_completed_slots := bitmap_init SPCC_MAX_WINDOW False\<rparr>;
       req_dropped \<leftarrow> any_dropped s (bitmap_for_each_set tmp SPCC_MAX_WINDOW);
       let (s, w) = (if s_wake_up s then srpc_remove_from_drained_list k s w else (s, w));
       let drained_core = s_drained_core s;
       let num_resp = bitmap_popcount tmp SPCC_MAX_WINDOW;
       let s = s\<lparr>s_num_pending := s_num_pending s - int num_resp\<rparr>;
       let old_credit = s_credit s;
       (s, w) \<leftarrow> srpc_update_credit max_cores rd req_dropped s w;
       let credit = s_credit s;
       let credit_issued = max 0 (credit - old_credit + int num_resp);
       let w = w\<lparr>stat := (stat w)\<lparr>srpc_stat_credit_tx :=
                  srpc_stat_credit_tx (stat w) + word_of_int credit_issued\<rparr>\<rparr>;
       let send_explicit_credit = ((s_need_ecredit s \<or> s_wake_up s) \<and> num_resp = 0 \<and>
                                   s_advertised s < s_credit s);
       let s = s\<lparr>s_advertised := (if num_resp > 0 \<or> send_explicit_credit then s_credit s
                                 else s_advertised s),
                 s_need_ecredit := False, s_wake_up := False,
                 s_last_ecredit_timestamp := (if send_explicit_credit then now
                                              else s_last_ecredit_timestamp s),
                 s_pc := (if send_explicit_credit then SCredit else SSend tmp credit drained_core)\<rparr>;
       Some (put_sess k s w)
     }"

definition srpc_sender_collect :: "int \<Rightarrow> pcc \<Rightarrow> u64 \<Rightarrow> nat \<Rightarrow> pcc \<Rightarrow> pcc option" where
  "srpc_sender_collect max_cores rd now k w =
     do {
       s \<leftarrow> sessions w k;
       if sender_sleep s then Some (put_sess k (s\<lparr>s_sender_th := True\<rparr>) w)
       else if s_closed s then Some (put_sess k (s\<lparr>s_sender_th := False, s_pc := SClose\<rparr>) w)
       else collect_completed max_cores rd now k (s\<lparr>s_sender_th := False\<rparr>) w
     }"

definition srpc_sender_ecredit :: "spcc_hdr \<Rightarrow> int \<Rightarrow> nat \<Rightarrow> pcc \<Rightarrow> pcc option" where
  "srpc_sender_ecredit junk ret k w =
     do {
       s \<leftarrow> sessions w k;
       let (ret, w) = srpc_send_ecredit junk ret k s w;
       Some (put_sess k (s\<lparr>s_pc := (if ret \<noteq> 0 then SClose else SWait)\<rparr>) w)
     }"

definition srpc_sender_respond :: "int \<Rightarrow> bitmap \<Rightarrow> int \<Rightarrow> int \<Rightarrow> nat \<Rightarrow> pcc \<Rightarrow> pcc option" where
  "srpc_sender_respond ret tmp credit drained_core k w =
     do {
       s \<leftarrow> sessions w k;
       (ret, s, w) \<leftarrow> srpc_send_completion_vector ret k tmp s w;
       Some (put_sess k (s\<lparr>s_pc := SDrain credit drained_core\<rparr>) w)
     }"

definition srpc_sender_drain :: "nat \<Rightarrow> u64 \<Rightarrow> int \<Rightarrow> int \<Rightarrow> nat \<Rightarrow> pcc \<Rightarrow> pcc option" where
  "srpc_sender_drain core_id now credit drained_core k w =
     do {
       s \<leftarrow> sessions w k;
       if credit = 0 \<and> drained_core = -1 \<and>
          bitmap_popcount (s_avail_slots s) SPCC_MAX_WINDOW = SPCC_MAX_WINDOW
       then do {
         BUG_ON (s_is_linked s);
         BUG_ON (s_credit s > 0);
         let d = srpc_drained w core_id;
         let (s, w) = (if s_demand s > 0
                       then (s\<lparr>s_drained_ts := now\<rparr>, set_drained core_id (k # list_h d) (list_l d) w)
                       else (s, set_drained core_id (list_h d) (list_l d @ [k]) w));
         let s = s\<lparr>s_is_linked := True, s_drained_core := int core_id, s_pc := SWait\<rparr>;
         Some (put_sess k s (w\<lparr>srpc_num_drained := srpc_num_drained w + 1\<rparr>))
       }
       else Some (put_sess k (s\<lparr>s_pc := SWait\<rparr>) w)
     }"

definition srpc_sender_close :: "nat \<Rightarrow> pcc \<Rightarrow> pcc option" where
  "srpc_sender_close k w =
     do {
       s \<leftarrow> sessions w k;
       if \<not> s_closed s \<or>
          bitmap_popcount (s_avail_slots s) SPCC_MAX_WINDOW +
          bitmap_popcount (s_completed_slots s) SPCC_MAX_WINDOW < SPCC_MAX_WINDOW
       then Some (put_sess k (s\<lparr>s_sender_th := True\<rparr>) w)
       else
         let (s, w) = srpc_remove_from_drained_list k (s\<lparr>s_sender_th := False\<rparr>) w;
             s = fold srpc_put_slot (filter (\<lambda>i. s_slots s i \<noteq> None) [0..<SPCC_MAX_WINDOW]) s
         in Some (put_sess k (s\<lparr>s_send_waiter := s_send_waiter s - 1, s_pc := SDone\<rparr>) w)
     }"

section \<open>Sessions and the listener\<close>

text \<open>\<open>ret\<close> and \<open>spawn\<close> are the results of reading the session info and of spawning the sender.\<close>

definition srpc_server_open :: "int \<Rightarrow> int \<Rightarrow> nat \<Rightarrow> pcc \<Rightarrow> pcc option" where
  "srpc_server_open ret spawn k w =
     do {
       BUG_ON (ret \<le> 0);
       let s = zero_session\<lparr>s_drained_core := -1, s_id := srpc_num_sess w + 1,
                            s_avail_slots := bitmap_init SPCC_MAX_WINDOW True, s_send_waiter := 1\<rparr>;
       let w = w\<lparr>srpc_num_sess := srpc_num_sess w + 1\<rparr>;
       BUG_ON (spawn \<noteq> 0);
       Some (emit [SpawnSender k] (put_sess k s w))
     }"

definition srpc_server_close :: "nat \<Rightarrow> pcc \<Rightarrow> pcc option" where
  "srpc_server_close k w =
     do {
       s0 \<leftarrow> sessions w k;
       let s = s0\<lparr>s_sender_th := False, s_closed := True\<rparr>;
       let (s, w) = (if s_is_linked s then srpc_remove_from_drained_list k s w else (s, w));
       let w = w\<lparr>srpc_credit_used := srpc_credit_used w - s_credit s,
                 srpc_num_pending := srpc_num_pending w - s_num_pending s\<rparr>;
       let w = put_sess k (s\<lparr>s_num_pending := 0, s_demand := 0\<rparr>) w;
       Some (emit (ready_sender k s0) (w\<lparr>srpc_num_sess := srpc_num_sess w - 1\<rparr>))
     }"

text \<open>After \<^verbatim>\<open>waitgroup_wait\<close> has returned.\<close>

definition srpc_server_finish :: "int \<Rightarrow> nat \<Rightarrow> pcc \<Rightarrow> pcc option" where
  "srpc_server_finish max_cores k w =
     (let w = w\<lparr>sessions := (sessions w)(k := None)\<rparr>
      in Some (if srpc_num_sess w = 0
               then w\<lparr>srpc_credit_used := 0, srpc_credit_pool := max_cores, srpc_credit_ds := 0\<rparr>
               else w))"

definition srpc_listener_init :: "int \<Rightarrow> u64 \<Rightarrow> u64 \<Rightarrow> nat \<Rightarrow> pcc \<Rightarrow> pcc" where
  "srpc_listener_init max_cores t1 t2 rnd w =
     w\<lparr>srpc_drained := (\<lambda>_. \<lparr>list_h = [], list_l = []\<rparr>),
       srpc_num_sess := 0, srpc_num_drained := 0, srpc_credit_pool := max_cores,
       srpc_credit_used := 0, srpc_num_pending := 0, srpc_credit_ds := 0, srpc_avg_st := 0,
       ctl := (srpc_pcc_gen_micro_exp_dirs rnd
                 ((ctl w)\<lparr>srpc_pcc_state := SPCC_CTL_STATE_PREPARE_MICRO_EXP,
                          srpc_pcc_next_update := t1, srpc_pcc_last_wakeup := t2,
                          srpc_pcc_micro_exp_id := 0, srpc_pcc_num_micro_exps := 0\<rparr>))
              \<lparr>srpc_pcc_orig_cp := max_cores\<rparr>,
       stat := \<lparr>srpc_stat_cupdate_rx = 0, srpc_stat_ecredit_tx = 0, srpc_stat_credit_tx = 0,
               srpc_stat_req_rx = 0, srpc_stat_req_dropped = 0, srpc_stat_resp_tx = 0\<rparr>\<rparr>"

text \<open>\<open>spcc_enable\<close> registers the handler once; the state is whether one is registered.\<close>

definition spcc_enable :: "bool \<Rightarrow> int \<times> bool" where
  "spcc_enable registered = (if registered then (- EBUSY, True) else (0, True))"

definition spcc_drop :: "spcc_ctx \<Rightarrow> spcc_ctx" where
  "spcc_drop ctx = ctx\<lparr>c_drop := True\<rparr>"

definition spcc_stat_cupdate_rx :: "pcc \<Rightarrow> u64" where
  "spcc_stat_cupdate_rx w = srpc_stat_cupdate_rx (stat w)"

definition spcc_stat_ecredit_tx :: "pcc \<Rightarrow> u64" where
  "spcc_stat_ecredit_tx w = srpc_stat_ecredit_tx (stat w)"

definition spcc_stat_credit_tx :: "pcc \<Rightarrow> u64" where
  "spcc_stat_credit_tx w = srpc_stat_credit_tx (stat w)"

definition spcc_stat_req_rx :: "pcc \<Rightarrow> u64" where
  "spcc_stat_req_rx w = srpc_stat_req_rx (stat w)"

definition spcc_stat_req_dropped :: "pcc \<Rightarrow> u64" where
  "spcc_stat_req_dropped w = srpc_stat_req_dropped (stat w)"

definition spcc_stat_resp_tx :: "pcc \<Rightarrow> u64" where
  "spcc_stat_resp_tx w = srpc_stat_resp_tx (stat w)"

end
