(* ===== verification/Pcc_System.thy ===== *)
theory Pcc_System
  imports Pcc_Server
begin

text \<open>
  The PCC server as a system of threads: every action of a receiver, worker, sender or session is
  one atomic step on the shared state, taken in any order the threads allow.  The invariant
  \<open>pcc_ok\<close> is kept by every step, whatever the clients send.
\<close>

section \<open>Actions\<close>

datatype pcc_act =
    Open nat int int
  | Recv nat recv_in
  | Worker nat nat worker_in "spcc_ctx \<Rightarrow> spcc_ctx"
  | Collect nat pcc u64
  | Ecredit nat spcc_hdr int
  | Respond nat int
  | Drain nat nat u64
  | SenderClose nat
  | Close nat
  | Finish nat

fun pcc_exec :: "nat \<Rightarrow> pcc_act \<Rightarrow> pcc \<Rightarrow> pcc option" where
  "pcc_exec mc (Open k ret spawn) w = srpc_server_open ret spawn k w"
| "pcc_exec mc (Recv k r) w = map_option snd (srpc_recv_msg mc r k w)"
| "pcc_exec mc (Worker k idx i h) w = srpc_worker h mc i k idx w"
| "pcc_exec mc (Collect k rd now) w = srpc_sender_collect (int mc) rd now k w"
| "pcc_exec mc (Ecredit k junk ret) w = srpc_sender_ecredit junk ret k w"
| "pcc_exec mc (Respond k ret) w =
     do { s \<leftarrow> sessions w k;
          case s_pc s of SSend tmp credit dc \<Rightarrow> srpc_sender_respond ret tmp credit dc k w | _ \<Rightarrow> None }"
| "pcc_exec mc (Drain k core now) w =
     do { s \<leftarrow> sessions w k;
          case s_pc s of SDrain credit dc \<Rightarrow> srpc_sender_drain core now credit dc k w | _ \<Rightarrow> None }"
| "pcc_exec mc (SenderClose k) w = srpc_sender_close k w"
| "pcc_exec mc (Close k) w = srpc_server_close k w"
| "pcc_exec mc (Finish k) w = srpc_server_finish (int mc) k w"

text \<open>When a thread can take an action: a new session has a new key; the receiver runs until it
  closes the session; a worker runs once, on its slot, with a handler that leaves the slot index
  alone; the sender runs unless it is parked, at the place where its loop stands; and the readings
  of the number of sessions, one of which is the reader's own, are positive.\<close>

fun pcc_enabled :: "nat \<Rightarrow> pcc_act \<Rightarrow> pcc \<Rightarrow> bool" where
  "pcc_enabled mc (Open k ret spawn) w \<longleftrightarrow> sessions w k = None"
| "pcc_enabled mc (Recv k r) w \<longleftrightarrow>
     (\<exists>s. sessions w k = Some s \<and> \<not> s_closed s) \<and> rv_core r < mc \<and> in_core (rv_ctl r) < mc"
| "pcc_enabled mc (Worker k idx i h) w \<longleftrightarrow>
     (\<exists>s. sessions w k = Some s \<and> idx \<in> s_workers s) \<and> (\<forall>c. c_idx (h c) = c_idx c) \<and>
     in_core (wk_ctl i) < mc"
| "pcc_enabled mc (Collect k rd now) w \<longleftrightarrow>
     (\<exists>s. sessions w k = Some s \<and> s_pc s = SWait \<and> \<not> s_sender_th s) \<and> 0 < srpc_num_sess rd"
| "pcc_enabled mc (Ecredit k junk ret) w \<longleftrightarrow> (\<exists>s. sessions w k = Some s \<and> s_pc s = SCredit)"
| "pcc_enabled mc (Respond k ret) w \<longleftrightarrow>
     (\<exists>s tmp c d. sessions w k = Some s \<and> s_pc s = SSend tmp c d)"
| "pcc_enabled mc (Drain k core now) w \<longleftrightarrow>
     (\<exists>s c d. sessions w k = Some s \<and> s_pc s = SDrain c d) \<and> core < mc"
| "pcc_enabled mc (SenderClose k) w \<longleftrightarrow>
     (\<exists>s. sessions w k = Some s \<and> s_pc s = SClose \<and> \<not> s_sender_th s)"
| "pcc_enabled mc (Close k) w \<longleftrightarrow> (\<exists>s. sessions w k = Some s \<and> \<not> s_closed s)"
| "pcc_enabled mc (Finish k) w \<longleftrightarrow> (\<exists>s. sessions w k = Some s \<and> s_pc s = SDone \<and> s_send_waiter s = 0)"

text \<open>Runs of the server, with the actions they took, the latest first.\<close>

inductive pcc_run :: "nat \<Rightarrow> pcc \<Rightarrow> pcc_act list \<Rightarrow> pcc \<Rightarrow> bool" for mc :: nat and w0 :: pcc
where
  init: "pcc_run mc w0 [] w0"
| step: "pcc_run mc w0 as w \<Longrightarrow> pcc_enabled mc a w \<Longrightarrow> pcc_exec mc a w = Some w' \<Longrightarrow>
         pcc_run mc w0 (a # as) w'"

inductive_cases pcc_run_ConsE: "pcc_run mc w0 (a # as) w"

section \<open>The invariant\<close>

fun in_flight :: "sender_pc \<Rightarrow> nat set" where
  "in_flight (SSend tmp credit dc) = bm_set tmp"
| "in_flight _ = {}"

fun pc_window_ok :: "sender_pc \<Rightarrow> bool" where
  "pc_window_ok (SSend tmp credit dc) = window_ok tmp"
| "pc_window_ok _ = True"

text \<open>Every slot is free, being executed, completed, or being sent, and in exactly one of the four.\<close>

definition part4 :: "nat set \<Rightarrow> nat set \<Rightarrow> nat set \<Rightarrow> nat set \<Rightarrow> bool" where
  "part4 A C W F \<longleftrightarrow>
     A \<union> C \<union> W \<union> F = {..<64} \<and> A \<inter> C = {} \<and> A \<inter> W = {} \<and> A \<inter> F = {} \<and> C \<inter> W = {} \<and> C \<inter> F = {} \<and>
     W \<inter> F = {}"

definition slots_ok :: "spcc_session \<Rightarrow> bool" where
  "slots_ok s \<longleftrightarrow>
     window_ok (s_avail_slots s) \<and> window_ok (s_completed_slots s) \<and> pc_window_ok (s_pc s) \<and>
     (s_pc s \<noteq> SDone \<longrightarrow>
       part4 (bm_set (s_avail_slots s)) (bm_set (s_completed_slots s)) (s_workers s) (in_flight (s_pc s)) \<and>
       dom (s_slots s) = {..<64} - bm_set (s_avail_slots s)) \<and>
     (\<forall>i c. s_slots s i = Some c \<longrightarrow> c_idx c = i)"

definition sender_ok :: "spcc_session \<Rightarrow> bool" where
  "sender_ok s \<longleftrightarrow>
     (s_sender_th s \<longrightarrow>
        s_pc s = SWait \<and> sender_sleep s \<or>
        s_pc s = SClose \<and> (\<not> s_closed s \<or>
          card (bm_set (s_avail_slots s)) + card (bm_set (s_completed_slots s)) < 64)) \<and>
     s_send_waiter s = (if s_pc s = SDone then 0 else 1) \<and>
     (s_pc s = SDone \<longrightarrow> s_closed s \<and> \<not> s_is_linked s \<and> s_workers s = {})"

definition credit_ok :: "spcc_session \<Rightarrow> bool" where
  "credit_ok s \<longleftrightarrow>
     0 \<le> s_credit s \<and> s_credit s \<le> 63 \<and>
     s_num_pending s =
       (if s_closed s then 0 else int (card (s_workers s)) + int (card (bm_set (s_completed_slots s))))"

definition sess_ok :: "spcc_session \<Rightarrow> bool" where
  "sess_ok s \<longleftrightarrow> slots_ok s \<and> sender_ok s \<and> credit_ok s"

definition open_credit :: "spcc_session \<Rightarrow> int" where
  "open_credit s = (if s_closed s then 0 else s_credit s)"

definition unanswered :: "spcc_session \<Rightarrow> int" where
  "unanswered s = s_num_pending s + int (card (in_flight (s_pc s)))"

definition pcc_ok :: "pcc \<Rightarrow> bool" where
  "pcc_ok w \<longleftrightarrow>
     drained_ok w \<and> ctl_ok (ctl w) \<and> (\<forall>k s. sessions w k = Some s \<longrightarrow> sess_ok s) \<and>
     srpc_num_sess w = msum (\<lambda>s. of_bool (\<not> s_closed s)) (sessions w) \<and>
     srpc_num_pending w = msum unanswered (sessions w) \<and>
     msum open_credit (sessions w) \<le> srpc_credit_used w"

lemma pcc_okD:
  assumes "pcc_ok w"
  shows "drained_ok w" "ctl_ok (ctl w)" "sessions w k = Some s \<Longrightarrow> sess_ok s"
    "finite (dom (sessions w))" "sessions w k = Some s \<Longrightarrow> sess_drained_ok s"
  using assms drained_okD unfolding pcc_ok_def by blast+

text \<open>A step that replaces one session.\<close>

lemma pcc_ok_update:
  assumes ok: "pcc_ok w" and k: "sessions w k = Some s" and w': "sessions w' = (sessions w)(k \<mapsto> s')"
    and s': "sess_ok s'" and d: "drained_ok w'" and c: "ctl_ok (ctl w')"
    and n: "srpc_num_sess w' = srpc_num_sess w - of_bool (\<not> s_closed s) + of_bool (\<not> s_closed s')"
    and p: "srpc_num_pending w' = srpc_num_pending w - unanswered s + unanswered s'"
    and u: "srpc_credit_used w - open_credit s + open_credit s' \<le> srpc_credit_used w'"
  shows "pcc_ok w'"
proof -
  note fin = pcc_okD(4) [OF ok]
  note m = msum_update [OF fin k]
  have "sess_ok t" if "sessions w' j = Some t" for j t
    using that s' pcc_okD(3) [OF ok] by (auto simp: w' split: if_splits)
  then show ?thesis
    using ok d c n p u unfolding pcc_ok_def w' m by auto
qed

section \<open>Runs of the controller\<close>

lemma msum_woken:
  assumes "finite (dom m)" and "distinct ks" and "\<forall>k\<in>set ks. m k \<noteq> None"
  shows "msum f (woken ks m) = msum f m + (\<Sum>k\<leftarrow>ks. f (grant (the (m k))) - f (the (m k)))"
  using assms
proof (induction ks arbitrary: m)
  case (Cons k ks)
  obtain s where s: "m k = Some s" using Cons.prems(3) by auto
  have k: "k \<notin> set ks" using Cons.prems(2) by simp
  let ?m = "m(k \<mapsto> grant s)"
  have "(\<Sum>j\<leftarrow>ks. f (grant (the (?m j))) - f (the (?m j))) = (\<Sum>j\<leftarrow>ks. f (grant (the (m j))) - f (the (m j)))"
    using k by (intro arg_cong [where f = sum_list] map_cong) auto
  moreover have "msum f (woken ks ?m) = msum f ?m + (\<Sum>j\<leftarrow>ks. f (grant (the (?m j))) - f (the (?m j)))"
    using Cons.prems by (intro Cons.IH) (simp_all add: dom_fun_upd del: fun_upd_apply, simp)
  ultimately show ?case
    using s msum_update [OF Cons.prems(1) s, of f "grant s"] woken_Cons [of m k s ks] k by simp
qed simp

lemma msum_woken_same:
  assumes "finite (dom m)" and "distinct ks" and "\<forall>k\<in>set ks. m k \<noteq> None"
    and "\<And>s. f (grant s) = f s"
  shows "msum f (woken ks m) = msum f m"
  using msum_woken [OF assms(1-3), of f] assms(4) by simp

lemma grant_simps [simp]:
  "s_closed (grant s) = s_closed s" "s_num_pending (grant s) = s_num_pending s"
  "s_pc (grant s) = s_pc s" "s_workers (grant s) = s_workers s" "s_slots (grant s) = s_slots s"
  "s_completed_slots (grant s) = s_completed_slots s" "s_avail_slots (grant s) = s_avail_slots s"
  "s_credit (grant s) = 1" "\<not> s_sender_th (grant s)" "\<not> s_is_linked (grant s)"
  "s_send_waiter (grant s) = s_send_waiter s" "unanswered (grant s) = unanswered s"
  "s_demand (grant s) = s_demand s" "s_drained_core (grant s) = -1" "s_wake_up (grant s)"
  "s_need_ecredit (grant s) = s_need_ecredit s"
  by (simp_all add: grant_def unanswered_def)

lemma sess_ok_grant: "sess_ok s \<Longrightarrow> sess_ok (grant s)"
  by (simp add: sess_ok_def slots_ok_def sender_ok_def credit_ok_def)

lemma wokenE:
  assumes "woken ks m k = Some t"
  obtains s where "m k = Some s" and "t = (if k \<in> set ks then grant s else s)"
  using assms by (auto simp: woken_def split: if_splits)

lemma pcc_ok_ctl:
  assumes ok: "pcc_ok w" and e: "ctl_effect ks w w'" and d: "drained_ok w'" and c: "ctl_ok (ctl w')"
  shows "pcc_ok w'"
proof -
  note E = ctl_effect_simps [OF e]
  have some: "\<forall>k\<in>set ks. sessions w k \<noteq> None" using E(7) by blast
  note same = msum_woken_same [OF pcc_okD(4) [OF ok] E(6) some]
  have "sess_ok t" if "sessions w' j = Some t" for j t
    using that pcc_okD(3) [OF ok] sess_ok_grant unfolding E(1) by (metis wokenE)
  moreover have "msum open_credit (sessions w') \<le> msum open_credit (sessions w) + int (length ks)"
  proof -
    have "open_credit (grant (the (sessions w k))) - open_credit (the (sessions w k)) \<le> 1"
      if "k \<in> set ks" for k
      using E(7) [OF that] pcc_okD(5) [OF ok, of k]
      by (auto simp: open_credit_def sess_drained_ok_def)
    then have "(\<Sum>k\<leftarrow>ks. open_credit (grant (the (sessions w k))) - open_credit (the (sessions w k)))
        \<le> (\<Sum>k\<leftarrow>ks. 1)" by (intro sum_list_mono)
    then show ?thesis
      unfolding E(1) msum_woken [OF pcc_okD(4) [OF ok] E(6) some] by (simp add: sum_list_triv)
  qed
  moreover have "msum (\<lambda>s. of_bool (\<not> s_closed s)) (sessions w') = msum (\<lambda>s. of_bool (\<not> s_closed s)) (sessions w)"
    "msum unanswered (sessions w') = msum unanswered (sessions w)"
    unfolding E(1) by (rule same, simp)+
  ultimately show ?thesis
    using ok d c unfolding pcc_ok_def E(2,3,5) by auto
qed

lemma controller_ok:
  assumes "pcc_ok w" and "in_core e < mc"
  obtains ks w' where "srpc_update_credit_pool mc e w = Some w'" and "ctl_effect ks w w'" and "pcc_ok w'"
  using srpc_update_credit_pool_spec [OF pcc_okD(1) [OF assms(1)] assms(2)] pcc_okD(2) [OF assms(1)]
    pcc_ok_ctl [OF assms(1)] by blast

lemma pcc_ok_frame:
  assumes "pcc_ok w" and "sessions w' = sessions w" and "srpc_num_drained w' = srpc_num_drained w"
    and "srpc_drained w' = srpc_drained w" and "ctl_ok (ctl w')"
    and "srpc_num_sess w' = srpc_num_sess w" and "srpc_num_pending w' = srpc_num_pending w"
    and "srpc_credit_used w' = srpc_credit_used w"
  shows "pcc_ok w'"
  using assms drained_ok_frame [of w w'] unfolding pcc_ok_def by simp

section \<open>Slots\<close>

text \<open>Moves of one slot, or of all completed or sent slots, between the four groups.\<close>

lemma part4_moves:
  assumes "part4 A C W F"
  shows "i \<in> W \<Longrightarrow> part4 A (insert i C) (W - {i}) F"
    and "i \<in> A \<Longrightarrow> part4 (A - {i}) C (insert i W) F"
    and "i \<in> A \<Longrightarrow> part4 (A - {i}) (insert i C) W F"
    and "F = {} \<Longrightarrow> part4 A {} W C"
    and "part4 (A \<union> F) C W {}"
  using assms unfolding part4_def by blast+

lemma part4_finite:
  assumes "part4 A C W F"
  shows "finite A" "finite C" "finite W" "finite F" "W \<subseteq> {..<64}" "A \<subseteq> {..<64}" "C \<subseteq> {..<64}" "F \<subseteq> {..<64}"
proof -
  show "W \<subseteq> {..<64}" "A \<subseteq> {..<64}" "C \<subseteq> {..<64}" "F \<subseteq> {..<64}"
    using assms unfolding part4_def by blast+
  then show "finite A" "finite C" "finite W" "finite F" by (auto intro: finite_subset)
qed

lemma part4_card:
  assumes "part4 A C W F"
  shows "card A + card C + card W + card F = 64"
proof -
  note f = part4_finite(1-4) [OF assms]
  have "A \<inter> C = {}" "(A \<union> C) \<inter> W = {}" "(A \<union> C \<union> W) \<inter> F = {}"
    using assms unfolding part4_def by blast+
  then have "card (A \<union> C \<union> W \<union> F) = card A + card C + card W + card F"
    using f by (simp only: card_Un_disjoint finite_UnI)
  moreover have "card (A \<union> C \<union> W \<union> F) = 64" using assms unfolding part4_def by simp
  ultimately show ?thesis by simp
qed

lemma slots_okD:
  assumes "slots_ok s" and "s_pc s \<noteq> SDone"
  shows "window_ok (s_avail_slots s)" "window_ok (s_completed_slots s)" "pc_window_ok (s_pc s)"
    "part4 (bm_set (s_avail_slots s)) (bm_set (s_completed_slots s)) (s_workers s) (in_flight (s_pc s))"
    "dom (s_slots s) = {..<64} - bm_set (s_avail_slots s)"
    "s_slots s i = Some c \<Longrightarrow> c_idx c = i"
  using assms unfolding slots_ok_def by blast+

section \<open>What the small updates leave alone\<close>

lemma ctl_ok_note [simp]:
  "ctl_ok (note_end i t q c) = ctl_ok c" "ctl_ok (note_drop i c) = ctl_ok c"
  "ctl_ok (note_resp i a c) = ctl_ok c" "ctl_ok (c\<lparr>srpc_pcc_in_reqs := f\<rparr>) = ctl_ok c"
  by (simp_all add: ctl_ok_def note_end_def note_drop_def note_resp_def Let_def
      cong: spcc_ctl_state.case_cong)

definition same_books :: "pcc \<Rightarrow> pcc \<Rightarrow> bool" where
  "same_books w w' \<longleftrightarrow>
     sessions w' = sessions w \<and> srpc_num_drained w' = srpc_num_drained w \<and>
     srpc_drained w' = srpc_drained w \<and> srpc_num_sess w' = srpc_num_sess w \<and>
     srpc_num_pending w' = srpc_num_pending w \<and> srpc_credit_used w' = srpc_credit_used w \<and>
     (ctl_ok (ctl w) \<longrightarrow> ctl_ok (ctl w'))"

lemma same_booksD:
  assumes "same_books w w'"
  shows "sessions w' = sessions w" "srpc_num_drained w' = srpc_num_drained w"
    "srpc_drained w' = srpc_drained w" "srpc_num_sess w' = srpc_num_sess w"
    "srpc_num_pending w' = srpc_num_pending w" "srpc_credit_used w' = srpc_credit_used w"
    "ctl_ok (ctl w) \<Longrightarrow> ctl_ok (ctl w')"
  using assms by (simp_all add: same_books_def)

lemma same_books_pcc_ok: "same_books w w' \<Longrightarrow> pcc_ok w \<Longrightarrow> pcc_ok w'"
  by (rule pcc_ok_frame) (auto simp: same_books_def dest: pcc_okD(2))

lemma same_books_intros:
  "same_books w (note_rx w)" "same_books w (note_rx_drop i t q w)" "same_books w (emit es w)"
  "same_books w (note_service_time t w)" "same_books w (stat_dropped w)"
  "same_books w (w\<lparr>stat := st\<rparr>)" "same_books w (w\<lparr>srpc_credit_ds := ds\<rparr>)"
  by (simp_all add: same_books_def note_rx_def note_rx_drop_def emit_def note_service_time_def
      stat_dropped_def Let_def)

lemma same_books_trans: "same_books w w' \<Longrightarrow> same_books w' w'' \<Longrightarrow> same_books w w''"
  by (simp add: same_books_def)

section \<open>What a step does to the sessions one by one\<close>

text \<open>A session that has received nothing yet; a sender that is about to enter the session into a drained
  list finds it outside the lists and without credit.\<close>

definition virgin :: "spcc_session \<Rightarrow> bool" where
  "virgin s \<longleftrightarrow> s_pc s = SWait \<and> \<not> s_is_linked s \<and> s_demand s = 0 \<and> s_workers s = {} \<and>
     bm_set (s_completed_slots s) = {} \<and> \<not> s_need_ecredit s \<and> \<not> s_wake_up s"

definition drain_safe :: "spcc_session \<Rightarrow> bool" where
  "drain_safe s \<longleftrightarrow>
     (\<forall>cr. (s_pc s = SDrain cr (-1) \<or> (\<exists>tmp. s_pc s = SSend tmp cr (-1))) \<longrightarrow>
           \<not> s_is_linked s \<and> s_credit s \<le> cr)"

definition settles :: "spcc_session \<Rightarrow> spcc_session \<Rightarrow> bool" where
  "settles s t \<longleftrightarrow> (drain_safe s \<longrightarrow> drain_safe t) \<and> (s_closed s \<longrightarrow> s_closed t) \<and>
     (virgin s \<longrightarrow> s_closed t \<or> virgin t)"

text \<open>Sessions a step does not act on are at most woken.\<close>

definition only_wakes :: "nat \<Rightarrow> pcc \<Rightarrow> pcc \<Rightarrow> bool" where
  "only_wakes k w w' \<longleftrightarrow>
     (\<forall>j. j \<noteq> k \<longrightarrow> sessions w' j = sessions w j \<or>
       (\<exists>s. sessions w j = Some s \<and> s_is_linked s \<and> sessions w' j = Some (grant s)))"

definition step_local :: "nat \<Rightarrow> pcc \<Rightarrow> pcc \<Rightarrow> bool" where
  "step_local k w w' \<longleftrightarrow> only_wakes k w w' \<and>
     (\<forall>s t. sessions w k = Some s \<longrightarrow> sessions w' k = Some t \<longrightarrow> settles s t)"

lemma only_wakes_put:
  assumes "ctl_effect ks w1 w2" and "sessions w1 = (sessions w)(k := x)" and "sessions w' = (sessions w2)(k := y)"
  shows "only_wakes k w w'"
  unfolding only_wakes_def
proof (intro allI impI)
  fix j assume "j \<noteq> k"
  then show "sessions w' j = sessions w j \<or>
       (\<exists>s. sessions w j = Some s \<and> s_is_linked s \<and> sessions w' j = Some (grant s))"
    using ctl_effect_simps(7) [OF assms(1), of j] assms(2,3)
    by (auto simp: ctl_effect_simps(1) [OF assms(1)] woken_def)
qed

lemma only_wakes_upd: "sessions w' = (sessions w)(k := y) \<Longrightarrow> only_wakes k w w'"
  by (simp add: only_wakes_def)

lemma step_local_upd:
  assumes "sessions w k = Some s" and "sessions w' = (sessions w)(k \<mapsto> t)" and "settles s t"
  shows "step_local k w w'"
  using assms only_wakes_upd [OF assms(2)] by (simp add: step_local_def)

lemma drain_safe_same:
  "drain_safe s \<Longrightarrow> s_pc t = s_pc s \<Longrightarrow> s_credit t \<le> s_credit s \<Longrightarrow> s_is_linked t \<longrightarrow> s_is_linked s \<Longrightarrow> drain_safe t"
  unfolding drain_safe_def by (metis order_trans)

lemma drain_safe_grant: "drain_safe s \<Longrightarrow> s_is_linked s \<Longrightarrow> drain_safe (grant s)"
  by (auto simp: drain_safe_def)

text \<open>The step of a session followed by a run of the controller.\<close>

lemma step_local_ctl:
  assumes s: "sessions w k = Some s" "\<not> virgin s" and e: "ctl_effect ks w1 w2"
    and w: "sessions w1 = (sessions w)(k \<mapsto> t)" "sessions w' = sessions w2"
    and t: "s_pc t = s_pc s" "s_credit t = s_credit s" "s_is_linked t = s_is_linked s" "s_closed t = s_closed s"
  shows "step_local k w w'"
proof -
  have "only_wakes k w w'"
    by (rule only_wakes_put [OF e w(1), where y = "sessions w2 k"]) (simp add: w(2))
  moreover have "settles s u" if u: "sessions w' k = Some u" for u
  proof -
    have "u = (if k \<in> set ks then grant t else t)" "k \<in> set ks \<Longrightarrow> s_is_linked t"
      using u w(1) ctl_effect_simps(7) [OF e, of k] by (auto simp: w(2) ctl_effect_simps(1) [OF e] woken_def)
    moreover have "drain_safe s \<Longrightarrow> drain_safe t" using t by (auto intro: drain_safe_same)
    ultimately show ?thesis using s(2) t(4) drain_safe_grant by (auto simp: settles_def)
  qed
  ultimately show ?thesis using s(1) by (simp add: step_local_def)
qed

section \<open>Opening a session\<close>

lemma drained_ok_insert:
  assumes ok: "drained_ok w" and k: "sessions w k = None" and s: "\<not> s_is_linked s" "s_drained_core s = -1"
    and w': "sessions w' = (sessions w)(k \<mapsto> s)" "srpc_num_drained w' = srpc_num_drained w"
      "srpc_drained w' = srpc_drained w"
  shows "drained_ok w'"
proof -
  have "linked_at w' c j \<longleftrightarrow> linked_at w c j" for c j
    using k s by (auto simp: linked_at_def w'(1))
  moreover have "srpc_num_drained w' = msum (\<lambda>s. of_bool (s_is_linked s)) (sessions w')"
    unfolding w' using s by (simp add: msum_insert [OF drained_okD(1) [OF ok] k] drained_okD(5) [OF ok])
  moreover have "sess_drained_ok s" using s by (simp add: sess_drained_ok_def)
  ultimately show ?thesis
    using ok unfolding drained_ok_def by (auto simp: w' split: if_splits)
qed

lemma pcc_ok_insert:
  assumes ok: "pcc_ok w" and k: "sessions w k = None" and s: "\<not> s_is_linked s" "s_drained_core s = -1"
    and w': "sessions w' = (sessions w)(k \<mapsto> s)" "srpc_num_drained w' = srpc_num_drained w"
      "srpc_drained w' = srpc_drained w" "ctl_ok (ctl w')"
      "srpc_num_sess w' = srpc_num_sess w + of_bool (\<not> s_closed s)"
      "srpc_num_pending w' = srpc_num_pending w + unanswered s"
      "srpc_credit_used w' = srpc_credit_used w + open_credit s"
    and so: "sess_ok s"
  shows "pcc_ok w'"
proof -
  note m = msum_insert [OF pcc_okD(4) [OF ok] k]
  have "drained_ok w'" by (rule drained_ok_insert [OF pcc_okD(1) [OF ok] k s w'(1-3)])
  moreover have "sess_ok t" if "sessions w' j = Some t" for j t
    using that so pcc_okD(3) [OF ok] by (auto simp: w' split: if_splits)
  ultimately show ?thesis using ok w'(4-7) unfolding pcc_ok_def w'(1) m by auto
qed

definition fresh_session :: "int \<Rightarrow> spcc_session" where
  "fresh_session i = zero_session\<lparr>s_drained_core := -1, s_id := i,
     s_avail_slots := bitmap_init SPCC_MAX_WINDOW True, s_send_waiter := 1\<rparr>"

lemma sess_ok_fresh: "sess_ok (fresh_session i)"
proof -
  have "bm_set [0] = {}" "window_ok [0]" by (auto simp: bm_set_def window_ok_def)
  then show ?thesis
    by (auto simp: fresh_session_def zero_session_def sess_ok_def slots_ok_def sender_ok_def
        credit_ok_def part4_def window_init)
qed

lemma open_ok:
  assumes ok: "pcc_ok w" and k: "sessions w k = None" and run: "srpc_server_open ret spawn k w = Some w'"
  shows "pcc_ok w'"
proof -
  have w': "w' = emit [SpawnSender k] (put_sess k (fresh_session (srpc_num_sess w + 1))
      (w\<lparr>srpc_num_sess := srpc_num_sess w + 1\<rparr>))"
    using run by (auto simp: srpc_server_open_def fresh_session_def BUG_ON_def Let_def split: if_splits)
  show ?thesis
    by (rule pcc_ok_insert [OF ok k _ _ _ _ _ _ _ _ _ sess_ok_fresh])
      (simp_all add: w' emit_def put_sess_def pcc_okD(2) [OF ok] unanswered_def open_credit_def,
       simp_all add: fresh_session_def zero_session_def)
qed

section \<open>Workers\<close>

lemma sess_okD:
  assumes "sess_ok s"
  shows "slots_ok s" "sender_ok s" "credit_ok s"
  using assms by (simp_all add: sess_ok_def)

text \<open>A slot that is completed: its context is replaced and the parked sender released.\<close>

lemma sess_ok_complete:
  assumes so: "sess_ok s" and i: "i \<in> s_workers s" and c: "c_idx c = i"
    and s': "s' = s\<lparr>s_slots := (s_slots s)(i \<mapsto> c),
        s_completed_slots := bitmap_set (s_completed_slots s) i,
        s_sender_th := False, s_workers := s_workers s - {i}\<rparr>"
  shows "sess_ok s'" and "unanswered s' = unanswered s"
proof -
  have pc: "s_pc s \<noteq> SDone" using so i by (auto simp: sess_ok_def sender_ok_def)
  note S = slots_okD [OF sess_okD(1) [OF so] pc]
  have i64: "i < 64" using i part4_finite(5) [OF S(4)] by auto
  note b = window_set [OF S(2) i64]
  have ni: "i \<notin> bm_set (s_completed_slots s)" "i \<notin> bm_set (s_avail_slots s)"
    using i S(4) by (auto simp: part4_def)
  have "slots_ok s'"
    unfolding slots_ok_def s' using b S i ni(2) i64 part4_moves(1) [OF S(4) i] c by auto
  moreover have "card (s_workers s) = Suc (card (s_workers s - {i}))"
    using i part4_finite(3) [OF S(4)] by (metis card.remove)
  then have "credit_ok s'"
    using sess_okD(3) [OF so] b ni(1) by (auto simp: s' credit_ok_def)
  moreover have "sender_ok s'" using sess_okD(2) [OF so] pc by (simp add: s' sender_ok_def)
  ultimately show "sess_ok s'" by (simp add: sess_ok_def)
  show "unanswered s' = unanswered s" by (simp add: s' unanswered_def)
qed

lemma worker_ok:
  assumes ok: "pcc_ok w" and en: "pcc_enabled mc (Worker k idx i h) w"
  obtains w' where "srpc_worker h mc i k idx w = Some w'" and "pcc_ok w'" and "step_local k w w'"
proof -
  from en obtain s where s: "sessions w k = Some s" "idx \<in> s_workers s"
    and h: "\<And>c. c_idx (h c) = c_idx c" and core: "in_core (wk_ctl i) < mc" by auto
  note so = pcc_okD(3) [OF ok s(1)]
  have pc: "s_pc s \<noteq> SDone" using so s(2) by (auto simp: sess_ok_def sender_ok_def)
  note S = slots_okD [OF sess_okD(1) [OF so] pc]
  have "idx \<in> dom (s_slots s)" using s(2) S(4) part4_finite(5) [OF S(4)] unfolding S(5)
    by (auto simp: part4_def)
  then obtain c0 where c0: "s_slots s idx = Some c0" by auto
  define c where "c = h (c0\<lparr>c_drop := False\<rparr>)"
  have cidx: "c_idx c = idx" using S(6) [OF c0] h by (simp add: c_def)
  define s' where "s' = s\<lparr>s_slots := (s_slots s)(idx \<mapsto> c),
      s_completed_slots := bitmap_set (s_completed_slots s) idx,
      s_sender_th := False, s_workers := s_workers s - {idx}\<rparr>"
  note s'_ok = sess_ok_complete [OF so s(2) cidx s'_def]
  define w1 where "w1 = (if \<not> c_drop c
      then (note_service_time (wk_t1 i - wk_t0 i) w)\<lparr>srpc_credit_ds := int_of_u64 (c_ds_credit c)\<rparr>
      else stat_dropped w)"
  have b1: "same_books w w1"
    unfolding w1_def by (auto intro: same_books_intros same_books_trans)
  define w2 where "w2 = (if srpc_pcc_micro_exp_id (ctl w1) = c_opaque c0
      then w1\<lparr>ctl := note_end (c_opaque c0) (wk_end_ts i) (wk_queue_us i)
             (if \<not> c_drop c then note_resp (c_opaque c0) (wk_acc_qdel_us i) (ctl w1)
              else note_drop (c_opaque c0) (ctl w1))\<rparr>
      else w1)"
  have b2: "same_books w w2" using b1 by (simp add: w2_def same_books_def)
  note B = same_booksD [OF b2]
  define w3 where "w3 = put_sess k s' w2"
  have d3: "drained_ok w3"
    using pcc_okD(1) [OF ok] s(1) _ _ _ _ _ _
  proof (rule drained_ok_same [where s' = s'])
    show "sess_drained_ok s'" using pcc_okD(5) [OF ok s(1)] by (simp add: s'_def sess_drained_ok_def)
  qed (simp_all add: w3_def put_sess_def B s'_def)
  have "pcc_ok w3"
    by (rule pcc_ok_update [OF ok s(1) _ s'_ok(1) d3])
      (use B pcc_okD(2) [OF ok] s'_ok(2) in \<open>auto simp: w3_def put_sess_def s'_def open_credit_def\<close>)
  then obtain ks w4 where w4: "srpc_update_credit_pool mc (wk_ctl i) w3 = Some w4" "pcc_ok w4"
    "ctl_effect ks w3 w4"
    using controller_ok core by blast
  have "srpc_worker h mc i k idx w = Some (emit (ready_sender k s) w4)"
    using s(1) c0 cidx w4(1) unfolding w3_def w2_def w1_def s'_def c_def
    by (simp add: srpc_worker_def Let_def)
  moreover have "pcc_ok (emit (ready_sender k s) w4)"
    using same_books_pcc_ok [OF same_books_intros(3) w4(2)] .
  moreover have "step_local k w (emit (ready_sender k s) w4)"
    by (rule step_local_ctl [OF s(1) _ w4(3), where t = s'])
      (use s(2) in \<open>auto simp: virgin_def w3_def put_sess_def B emit_def s'_def\<close>)
  ultimately show ?thesis by (rule that)
qed

section \<open>Receiving\<close>

lemma adjust_credit_spec:
  assumes "0 \<le> s_credit s" and "s_credit s \<le> 63"
  obtains c where "0 \<le> c" and "c \<le> s_credit s"
    and "adjust_credit s w = (s\<lparr>s_credit := c\<rparr>, w\<lparr>srpc_credit_used := srpc_credit_used w - (s_credit s - c)\<rparr>)"
proof (cases "u64_of_int (s_credit s) > u64_of_int (s_num_pending s) + s_demand s")
  case True
  let ?want = "u64_of_int (s_num_pending s) + s_demand s"
  have u: "unat (u64_of_int (s_credit s)) = nat (s_credit s)"
    using assms by (intro unat_u64_of_int) auto
  have lt: "unat ?want < nat (s_credit s)" using True u by (simp add: word_less_nat_alt)
  have n63: "nat (s_credit s) \<le> 63" using assms by simp
  have "unat ?want < 2 ^ 31" using lt n63 by simp
  then have small: "int_of_u64 ?want = int (unat ?want)" by (rule int_of_u64_small)
  have "unat (u64_of_int (s_credit s) - ?want) = nat (s_credit s) - unat ?want"
    using True u by (simp add: unat_sub word_le_nat_alt word_less_nat_alt)
  then have "int_of_u64 (u64_of_int (s_credit s) - ?want) = s_credit s - int (unat ?want)"
    using lt n63 assms by (subst int_of_u64_small) (simp_all add: of_nat_diff del: of_nat_unat)
  moreover have "int (unat ?want) \<le> s_credit s" using lt assms by linarith
  ultimately show ?thesis
    using that [of "int (unat ?want)"] True small
    by (simp add: adjust_credit_def Let_def)
next
  case False
  then show ?thesis
    using that [of "s_credit s"] assms by (simp add: adjust_credit_def Let_def)
qed

lemma ctl_effect_put:
  assumes e: "ctl_effect ks w w2" and k: "k \<notin> set ks"
  shows "ctl_effect ks (put_sess k t w) (put_sess k t w2)"
proof -
  have "woken ks ((sessions w)(k \<mapsto> t)) = (woken ks (sessions w))(k \<mapsto> t)"
    using k by (auto simp: woken_def)
  moreover from e obtain d es p c where w2: "w2 = w\<lparr>sessions := woken ks (sessions w), srpc_drained := d,
         srpc_num_drained := srpc_num_drained w - int (length ks), srpc_credit_pool := p,
         srpc_credit_used := srpc_credit_used w + int (length ks), ctl := c, io := io w @ es\<rparr>"
    unfolding ctl_effect_def by blast
  ultimately have "put_sess k t w2 = (put_sess k t w)\<lparr>sessions := woken ks (sessions (put_sess k t w)), srpc_drained := d,
         srpc_num_drained := srpc_num_drained (put_sess k t w) - int (length ks), srpc_credit_pool := p,
         srpc_credit_used := srpc_credit_used (put_sess k t w) + int (length ks), ctl := c,
         io := io (put_sess k t w) @ es\<rparr>"
    by (cases w) (simp add: put_sess_def)
  then show ?thesis
    using e k unfolding ctl_effect_def by (auto simp: put_sess_def)
qed

text \<open>The session when a request has been read into slot \<open>i\<close>, before the slot is handed to a worker or
  marked completed.\<close>

definition took_slot :: "nat \<Rightarrow> spcc_ctx \<Rightarrow> u64 \<Rightarrow> int \<Rightarrow> spcc_session \<Rightarrow> spcc_session" where
  "took_slot i c dem cr s = s\<lparr>s_avail_slots := bitmap_clear (s_avail_slots s) i,
     s_slots := (s_slots s)(i \<mapsto> c), s_demand := dem, s_is_linked := False, s_drained_core := -1,
     s_num_pending := s_num_pending s + 1, s_credit := cr\<rparr>"

lemma took_slot_ok:
  assumes so: "sess_ok s" and op: "\<not> s_closed s" and i: "i \<in> bm_set (s_avail_slots s)"
    and c: "c_idx c = i" and cr: "0 \<le> cr" "cr \<le> 63"
  shows "sess_ok ((took_slot i c dem cr s)\<lparr>s_workers := insert i (s_workers s)\<rparr>)"
    and "sess_ok ((took_slot i c dem cr s)\<lparr>
      s_completed_slots := bitmap_set (s_completed_slots s) i, s_sender_th := False\<rparr>)"
    and "unanswered (took_slot i c dem cr s) = unanswered s + 1"
proof -
  have pc: "s_pc s \<noteq> SDone" using so op by (auto simp: sess_ok_def sender_ok_def)
  note S = slots_okD [OF sess_okD(1) [OF so] pc]
  have i64: "i < 64" using i window_sub [OF S(1)] by auto
  note b = window_clear [OF S(1) i64] window_set [OF S(2) i64]
  have ni: "i \<notin> bm_set (s_completed_slots s)" "i \<notin> s_workers s"
    using i S(4) by (auto simp: part4_def)
  have dom: "insert i ({..<64} - bm_set (s_avail_slots s)) = {..<64} - (bm_set (s_avail_slots s) - {i})"
    using i64 i by auto
  have pend: "s_num_pending s = int (card (s_workers s)) + int (card (bm_set (s_completed_slots s)))"
    using sess_okD(3) [OF so] op by (simp add: credit_ok_def)
  note fin = part4_finite(2,3) [OF S(4)]
  have less: "card (bm_set (s_avail_slots s) - {i}) < card (bm_set (s_avail_slots s))"
    using i by (intro psubset_card_mono) auto
  let ?s1 = "(took_slot i c dem cr s)\<lparr>s_workers := insert i (s_workers s)\<rparr>"
  have "slots_ok ?s1"
    using S b part4_moves(2) [OF S(4) i] c dom by (auto simp: slots_ok_def took_slot_def)
  moreover have "sender_ok ?s1"
    using sess_okD(2) [OF so] pc b less by (auto simp: sender_ok_def took_slot_def sender_sleep_def)
  moreover have "credit_ok ?s1" using cr pend ni fin op by (simp add: credit_ok_def took_slot_def)
  ultimately show "sess_ok ?s1" by (simp add: sess_ok_def)
  let ?s2 = "(took_slot i c dem cr s)\<lparr>s_completed_slots := bitmap_set (s_completed_slots s) i,
      s_sender_th := False\<rparr>"
  have "slots_ok ?s2"
    using S b part4_moves(3) [OF S(4) i] c dom by (auto simp: slots_ok_def took_slot_def)
  moreover have "sender_ok ?s2" using sess_okD(2) [OF so] pc by (simp add: sender_ok_def took_slot_def)
  moreover have "credit_ok ?s2" using cr pend ni fin op b by (simp add: credit_ok_def took_slot_def)
  ultimately show "sess_ok ?s2" by (simp add: sess_ok_def)
  show "unanswered (took_slot i c dem cr s) = unanswered s + 1" by (simp add: unanswered_def took_slot_def)
qed

text \<open>The server when the request is in its slot: \<open>d\<close> are the lists without the session.\<close>

definition took_world :: "(nat \<Rightarrow> srpc_drained_) \<Rightarrow> int \<Rightarrow> spcc_session \<Rightarrow> pcc \<Rightarrow> pcc" where
  "took_world d cr s w = w\<lparr>srpc_drained := d,
     srpc_num_drained := srpc_num_drained w - of_bool (s_is_linked s),
     srpc_credit_used := srpc_credit_used w - (s_credit s - cr),
     srpc_num_pending := srpc_num_pending w + 1\<rparr>"

lemma took_world_drained:
  assumes "drained_ok w" and "sessions w k = Some s" and "\<not> s_is_linked t" and "s_drained_core t = -1"
    and "\<And>c. distinct (list_h (d c) @ list_l (d c))"
    and "\<And>c. set (list_h (d c)) \<union> set (list_l (d c)) = drained_set w c - {k}"
  shows "drained_ok (put_sess k t (took_world d cr s w))"
  using assms(1-4) by (rule drained_ok_removed) (use assms(5,6) in \<open>simp_all add: took_world_def put_sess_def\<close>)

lemma took_world_ok:
  assumes ok: "pcc_ok w" and s: "sessions w k = Some s" "\<not> s_closed s"
    and t: "sess_ok t" "s_closed t = s_closed s" "unanswered t = unanswered s + 1" "s_credit t = cr"
      "\<not> s_is_linked t" "s_drained_core t = -1"
    and d: "\<And>c. distinct (list_h (d c) @ list_l (d c))"
      "\<And>c. set (list_h (d c)) \<union> set (list_l (d c)) = drained_set w c - {k}"
  shows "pcc_ok (put_sess k t (took_world d cr s w))"
  by (rule pcc_ok_update [OF ok s(1) _ t(1) took_world_drained [OF pcc_okD(1) [OF ok] s(1) t(5,6) d]])
    (use t s pcc_okD(2) [OF ok] in \<open>auto simp: took_world_def put_sess_def open_credit_def\<close>)

text \<open>The rest of \<open>recv_call\<close> once the request is in its slot.\<close>

definition recv_took ::
  "nat \<Rightarrow> recv_in \<Rightarrow> nat \<Rightarrow> nat \<Rightarrow> nat \<Rightarrow> spcc_session \<Rightarrow> pcc \<Rightarrow> (recv_res \<times> pcc) option"
where
  "recv_took mc r k i me s4 w4 =
     (if rv_us r \<ge> SPCC_QDELAY_BUDGET
      then do {
        w \<leftarrow> srpc_update_credit_pool mc (rv_ctl r) (put_sess k s4 w4);
        s \<leftarrow> sessions w k;
        c \<leftarrow> s_slots s i;
        let w = put_sess k (s\<lparr>s_slots := (s_slots s)(i \<mapsto> c\<lparr>c_drop := True\<rparr>),
                              s_completed_slots := bitmap_set (s_completed_slots s) i,
                              s_sender_th := False\<rparr>) w;
        Some (RecvAgain, note_rx_drop me (rv_now r) (rv_us r) (emit (ready_sender k s) w))
      }
      else do {
        BUG_ON (rv_spawn r \<noteq> 0);
        Some (RecvRet 0, emit [SpawnWorker k i]
                (put_sess k (s4\<lparr>s_workers := insert i (s_workers s4)\<rparr>) w4))
      })"

text \<open>\<open>recv_call\<close> with a free slot and a payload.\<close>

lemma recv_call_took:
  assumes ok: "pcc_ok w" and s: "sessions w k = Some s" "\<not> s_closed s"
    and av: "bm_set (s_avail_slots s) \<noteq> {}" and pay: "rv_payload_ret r > 0"
  obtains i c cr d where "i \<in> bm_set (s_avail_slots s)" and "c_idx c = i" and "0 \<le> cr" and "cr \<le> 63"
    and "cr \<le> s_credit s"
    and "\<And>e. distinct (list_h (d e) @ list_l (d e))"
    and "\<And>e. set (list_h (d e)) \<union> set (list_l (d e)) = drained_set w e - {k}"
    and "recv_call mc r k w =
      recv_took mc r k i (srpc_pcc_micro_exp_id (ctl w)) (took_slot i c (ch_demand (rv_hdr r)) cr s)
        (took_world d cr s (note_rx w))"
proof -
  note so = pcc_okD(3) [OF ok s(1)]
  have pc: "s_pc s \<noteq> SDone" using so s(2) by (auto simp: sess_ok_def sender_ok_def)
  note S = slots_okD [OF sess_okD(1) [OF so] pc]
  obtain i where i: "i \<in> bm_set (s_avail_slots s)" "i < 64" and
    g: "srpc_get_slot (rv_mem r) s = (int i, s\<lparr>s_avail_slots := bitmap_clear (s_avail_slots s) i,
      s_slots := (s_slots s)(i \<mapsto> (rv_mem r)\<lparr>c_idx := i, c_ds_credit := 0, c_drop := False\<rparr>)\<rparr>)"
    using srpc_get_slot_some [OF S(1) av, of "rv_mem r"] by blast
  define c where "c = (rv_mem r)\<lparr>c_idx := i, c_ds_credit := 0, c_drop := False, c_req_buf := rv_payload r,
    c_req_len := ch_len (rv_hdr r), c_resp_len := 0, c_id := ch_id (rv_hdr r),
    c_ts_sent := ch_ts_sent (rv_hdr r), c_opaque := srpc_pcc_micro_exp_id (ctl w)\<rparr>"
  define s2 where "s2 = s\<lparr>s_avail_slots := bitmap_clear (s_avail_slots s) i,
      s_slots := (s_slots s)(i \<mapsto> c), s_demand := ch_demand (rv_hdr r)\<rparr>"
  note N = same_booksD [OF same_books_intros(1) [of w]]
  have "drained_ok (note_rx w)"
    using pcc_okD(1) [OF ok] by (rule drained_ok_frame) (simp_all add: N)
  then obtain d where d: "srpc_remove_from_drained_list k s2 (note_rx w) =
      (s2\<lparr>s_is_linked := False, s_drained_core := -1\<rparr>,
       (note_rx w)\<lparr>srpc_drained := d, srpc_num_drained := srpc_num_drained (note_rx w) - of_bool (s_is_linked s2)\<rparr>)"
    "\<And>e. distinct (list_h (d e) @ list_l (d e))"
    "\<And>e. set (list_h (d e)) \<union> set (list_l (d e)) = drained_set w e - {k}"
    using remove_drained_spec [of "note_rx w" k s s2] s(1) by (auto simp: s2_def N)
  define s3 where "s3 = s2\<lparr>s_is_linked := False, s_drained_core := -1, s_num_pending := s_num_pending s2 + 1\<rparr>"
  have c3: "0 \<le> s_credit s3" "s_credit s3 \<le> 63"
    using sess_okD(3) [OF so] by (simp_all add: s3_def s2_def credit_ok_def)
  define W where "W = (note_rx w)\<lparr>srpc_drained := d,
        srpc_num_drained := srpc_num_drained (note_rx w) - of_bool (s_is_linked s2)\<rparr>"
  obtain cr where cr: "0 \<le> cr" "cr \<le> s_credit s3" and a: "adjust_credit s3 W =
      (s3\<lparr>s_credit := cr\<rparr>, W\<lparr>srpc_credit_used := srpc_credit_used W - (s_credit s3 - cr)\<rparr>)"
    using adjust_credit_spec [OF c3, of W] by blast
  have cr63: "cr \<le> 63" using cr(2) c3(2) by simp
  have crs: "cr \<le> s_credit s" using cr(2) by (simp add: s3_def s2_def)
  have s4: "s3\<lparr>s_credit := cr\<rparr> = took_slot i c (ch_demand (rv_hdr r)) cr s"
    by (simp add: s3_def s2_def took_slot_def)
  have w4: "W\<lparr>srpc_credit_used := srpc_credit_used W - (s_credit s3 - cr),
        srpc_num_pending := srpc_num_pending W + 1\<rparr> = took_world d cr s (note_rx w)"
    by (simp add: W_def s3_def s2_def took_world_def)
  note rem = d(1) [folded W_def]
  have s3': "s2\<lparr>s_is_linked := False, s_drained_core := - 1,
      s_num_pending := s_num_pending (s2\<lparr>s_is_linked := False, s_drained_core := - 1\<rparr>) + 1\<rparr> = s3"
    by (simp add: s3_def)
  show ?thesis
    apply (rule that [OF i(1), where c = c, OF _ cr(1) cr63 crs d(2,3)])
     apply (simp add: c_def)
    unfolding recv_call_def s(1) g Let_def bind.bind_lunit prod.case
    using pay
    apply (simp add: recv_took_def srpc_handle_req_drop_def Let_def c_def [symmetric])
    unfolding s2_def [symmetric] rem prod.case s3' a s4 w4
    apply (simp add: w4)
    done
qed

text \<open>A step that replaces one session and leaves its list membership, credit and accounts alone.\<close>

lemma pcc_ok_keep:
  assumes ok: "pcc_ok w" and k: "sessions w k = Some s" and t: "sess_ok t"
    and same: "s_closed t = s_closed s" "unanswered t = unanswered s" "s_credit t = s_credit s"
      "s_is_linked t = s_is_linked s" "s_drained_core t = s_drained_core s"
  shows "pcc_ok (put_sess k t w)"
proof -
  have "sess_drained_ok t" using pcc_okD(5) [OF ok k] same by (simp add: sess_drained_ok_def)
  then have "drained_ok (put_sess k t w)"
    by (intro drained_ok_same [OF pcc_okD(1) [OF ok] k]) (simp_all add: put_sess_def same)
  then show ?thesis
    by (intro pcc_ok_update [OF ok k _ t])
      (use pcc_okD(2) [OF ok] in \<open>simp_all add: put_sess_def same open_credit_def\<close>)
qed

lemma recv_call_drop_ok:
  assumes ok: "pcc_ok w" and s: "sessions w k = Some s" "\<not> s_closed s" and core: "in_core e < mc"
    and i: "i \<in> bm_set (s_avail_slots s)" "c_idx c = i" and cr: "0 \<le> cr" "cr \<le> 63"
    and d: "\<And>e. distinct (list_h (d e) @ list_l (d e))"
      "\<And>e. set (list_h (d e)) \<union> set (list_l (d e)) = drained_set w e - {k}"
    and s4: "s4 = took_slot i c dem cr s" and w4: "w4 = took_world d cr s w"
    and s5: "s5 = s4\<lparr>s_slots := (s_slots s4)(i \<mapsto> c\<lparr>c_drop := True\<rparr>),
      s_completed_slots := bitmap_set (s_completed_slots s4) i, s_sender_th := False\<rparr>"
  obtains ks w' where "srpc_update_credit_pool mc e (put_sess k s4 w4) = Some w'" and "sessions w' k = Some s4"
    and "pcc_ok (put_sess k s5 w')" and "ctl_effect ks (put_sess k s4 w4) w'"
proof -
  note so = pcc_okD(3) [OF ok s(1)]
  have un: "\<not> s_is_linked s4" "s_drained_core s4 = -1" by (simp_all add: s4 took_slot_def)
  have d4: "drained_ok (put_sess k s4 w4)"
    unfolding w4 using pcc_okD(1) [OF ok] s(1) un d by (rule took_world_drained)
  from srpc_update_credit_pool_spec [OF d4 core] obtain ks w' where
    w': "srpc_update_credit_pool mc e (put_sess k s4 w4) = Some w'"
      "ctl_effect ks (put_sess k s4 w4) w'" "drained_ok w'"
      "ctl_ok (ctl (put_sess k s4 w4)) \<longrightarrow> ctl_ok (ctl w')" by blast
  note E = ctl_effect_simps [OF w'(2)]
  have kn: "k \<notin> set ks" using E(7) un(1) by (force simp: put_sess_def)
  have k4: "sessions w' k = Some s4" using kn unfolding E(1) by (simp add: woken_def put_sess_def)
  have s5': "s5 = (took_slot i (c\<lparr>c_drop := True\<rparr>) dem cr s)\<lparr>
      s_completed_slots := bitmap_set (s_completed_slots s) i, s_sender_th := False\<rparr>"
    by (simp add: s5 s4 took_slot_def)
  have ok5: "sess_ok s5" "unanswered s5 = unanswered s + 1"
    using took_slot_ok(2,3) [OF so s(2) i(1), of "c\<lparr>c_drop := True\<rparr>" cr dem] i(2) cr
    unfolding s5' by (simp_all add: unanswered_def)
  have "pcc_ok (put_sess k s5 w4)"
    unfolding w4 using ok s ok5(1) _ ok5(2) _ _ _ d
    by (rule took_world_ok) (simp_all add: s5 s4 took_slot_def)
  moreover have "ctl_effect ks (put_sess k s5 w4) (put_sess k s5 w')"
    using ctl_effect_put [OF w'(2) kn, of s5] by (simp add: put_sess_def)
  moreover have "drained_ok (put_sess k s5 w')"
    using w'(3) k4 _ _ _ _ _ _
    by (rule drained_ok_same) (simp_all add: put_sess_def s5 un sess_drained_ok_def)
  moreover have "ctl_ok (ctl (put_sess k s5 w'))"
    using w'(4) pcc_okD(2) [OF ok] by (simp add: put_sess_def w4 took_world_def)
  ultimately have "pcc_ok (put_sess k s5 w')" by (rule pcc_ok_ctl)
  then show ?thesis using that w'(1,2) k4 by blast
qed

lemma recv_took_ok:
  assumes ok: "pcc_ok w" and s: "sessions w k = Some s" "\<not> s_closed s" and core: "in_core (rv_ctl r) < mc"
    and i: "i \<in> bm_set (s_avail_slots s)" "c_idx c = i" and cr: "0 \<le> cr" "cr \<le> 63"
    and d: "\<And>e. distinct (list_h (d e) @ list_l (d e))"
      "\<And>e. set (list_h (d e)) \<union> set (list_l (d e)) = drained_set w e - {k}"
    and s4: "s4 = took_slot i c dem cr s" and w4: "w4 = took_world d cr s w"
    and run: "recv_took mc r k i me s4 w4 = Some (res, w')"
  shows "pcc_ok w'"
proof (cases "rv_us r \<ge> SPCC_QDELAY_BUDGET")
  case True
  let ?t = "s4\<lparr>s_slots := (s_slots s4)(i \<mapsto> c\<lparr>c_drop := True\<rparr>),
     s_completed_slots := bitmap_set (s_completed_slots s4) i, s_sender_th := False\<rparr>"
  obtain ks w5 where w5: "srpc_update_credit_pool mc (rv_ctl r) (put_sess k s4 w4) = Some w5"
    "sessions w5 k = Some s4" "pcc_ok (put_sess k ?t w5)" "ctl_effect ks (put_sess k s4 w4) w5"
    by (rule recv_call_drop_ok [OF ok s core i cr d s4 w4 refl])
  have "s_slots s4 i = Some c" by (simp add: s4 took_slot_def)
  then have "w' = note_rx_drop me (rv_now r) (rv_us r) (emit (ready_sender k s4) (put_sess k ?t w5))"
    using run True w5(1,2) unfolding recv_took_def by simp
  then show ?thesis using w5(3) by (auto intro: same_books_pcc_ok same_books_intros)
next
  case False
  let ?t = "s4\<lparr>s_workers := insert i (s_workers s4)\<rparr>"
  have "w' = emit [SpawnWorker k i] (put_sess k ?t w4)"
    using run False unfolding recv_took_def by (simp add: BUG_ON_def split: if_splits)
  moreover have "pcc_ok (put_sess k ?t w4)"
    unfolding w4 using ok s _ _ _ _ _ _ d
  proof (rule took_world_ok)
    note so = pcc_okD(3) [OF ok s(1)]
    show "sess_ok ?t" using took_slot_ok(1) [OF so s(2) i cr] by (simp add: s4 took_slot_def)
    show "unanswered ?t = unanswered s + 1"
      using took_slot_ok(3) [OF so s(2) i cr] by (simp add: s4 unanswered_def)
  qed (simp_all add: s4 took_slot_def)
  ultimately show ?thesis by (auto intro: same_books_pcc_ok same_books_intros)
qed

lemma recv_call_ok:
  assumes ok: "pcc_ok w" and s: "sessions w k = Some s" "\<not> s_closed s" and core: "in_core (rv_ctl r) < mc"
    and run: "recv_call mc r k w = Some (res, w')"
  shows "pcc_ok w'"
proof -
  note so = pcc_okD(3) [OF ok s(1)]
  have pc: "s_pc s \<noteq> SDone" using so s(2) by (auto simp: sess_ok_def sender_ok_def)
  note S = slots_okD [OF sess_okD(1) [OF so] pc]
  note ok1 = same_books_pcc_ok [OF same_books_intros(1) ok]
  have s1: "sessions (note_rx w) k = Some s" using s(1) same_booksD(1) [OF same_books_intros(1)] by simp
  consider "bm_set (s_avail_slots s) = {}"
    | "bm_set (s_avail_slots s) \<noteq> {}" "rv_payload_ret r \<le> 0"
    | "bm_set (s_avail_slots s) \<noteq> {}" "rv_payload_ret r > 0" by linarith
  then show ?thesis
  proof cases
    case 1
    then have "w' = note_rx_drop (srpc_pcc_micro_exp_id (ctl w)) (rv_now r) (rv_us r) (note_rx w)"
      using run s(1) srpc_get_slot_none [OF S(1)] by (simp add: recv_call_def Let_def)
    then show ?thesis using same_books_pcc_ok [OF same_books_intros(2) ok1] by simp
  next
    case 2
    from srpc_get_slot_some [OF S(1) 2(1)] obtain i where i: "i \<in> bm_set (s_avail_slots s)" "i < 64"
      and g: "srpc_get_slot (rv_mem r) s = (int i, s\<lparr>s_avail_slots := bitmap_clear (s_avail_slots s) i,
        s_slots := (s_slots s)(i \<mapsto> (rv_mem r)\<lparr>c_idx := i, c_ds_credit := 0, c_drop := False\<rparr>)\<rparr>)" by blast
    define t where "t = s\<lparr>s_slots := (s_slots s)(i := None),
      s_avail_slots := bitmap_set (bitmap_clear (s_avail_slots s) i) i\<rparr>"
    have w': "w' = put_sess k t (note_rx w)"
      using run s(1) 2(2) g
      by (simp add: recv_call_def Let_def t_def srpc_put_slot_def bitmap_atomic_simps)
    have av: "window_ok (s_avail_slots t)" "bm_set (s_avail_slots t) = bm_set (s_avail_slots s)"
      using window_clear [OF S(1) i(2)] window_set [OF _ i(2)] i(1) by (auto simp: t_def)
    have sl: "s_slots s i = None" using S(5) i(1) by blast
    then have "s_slots t = s_slots s" by (auto simp: t_def)
    then have "sess_ok t" using so av by (simp add: sess_ok_def slots_ok_def sender_ok_def credit_ok_def
          sender_sleep_def t_def)
    then show ?thesis unfolding w'
      by (rule pcc_ok_keep [OF ok1 s1]) (simp_all add: t_def unanswered_def)
  next
    case 3
    obtain i c cr d where
      i: "i \<in> bm_set (s_avail_slots s)" "c_idx c = i" and cr: "0 \<le> cr" "cr \<le> 63" "cr \<le> s_credit s"
      and d: "\<And>e. distinct (list_h (d e) @ list_l (d e))"
        "\<And>e. set (list_h (d e)) \<union> set (list_l (d e)) = drained_set w e - {k}"
      and eq: "recv_call mc r k w =
        recv_took mc r k i (srpc_pcc_micro_exp_id (ctl w)) (took_slot i c (ch_demand (rv_hdr r)) cr s)
        (took_world d cr s (note_rx w))" by (rule recv_call_took [OF ok s 3, of mc]) blast
    have d': "set (list_h (d e)) \<union> set (list_l (d e)) = drained_set (note_rx w) e - {k}" for e
      using d(2) by (simp add: same_booksD(3) [OF same_books_intros(1)])
    show ?thesis
      by (rule recv_took_ok [OF ok1 s1 s(2) core i cr(1,2) d(1) d' refl refl run [unfolded eq]])
  qed
qed

end
