(* ===== verification/Pcc_Runs.thy ===== *)
theory Pcc_Runs
  imports Pcc_System
begin

text \<open>
  Every step of the PCC server keeps the invariant: the sender's side, sessions that end, and runs.
\<close>

section \<open>Credit messages\<close>

lemma recv_credit_ok:
  assumes ok: "pcc_ok w" and s: "sessions w k = Some s0" "\<not> s_closed s0"
    and run: "recv_credit r k w = Some (res, w')"
  shows "pcc_ok w'"
proof (cases "ch_len (rv_hdr r) \<noteq> 0")
  case True
  then show ?thesis using run ok by (simp add: recv_credit_def)
next
  case False
  note so = pcc_okD(3) [OF ok s(1)]
  define s where "s = s0\<lparr>s_demand := ch_demand (rv_hdr r)\<rparr>"
  let ?d = "srpc_drained w (rv_core r)"
  define p where "p = (if s_num_pending s0 = 0 \<and> ch_demand (rv_hdr r) > 0
      then (s\<lparr>s_sender_th := False, s_need_ecredit := True\<rparr>, w, ready_sender k s)
      else if s_num_pending s0 = 0
      then (s\<lparr>s_is_linked := True, s_drained_core := int (rv_core r), s_advertised := 0\<rparr>,
            (set_drained (rv_core r) (list_h ?d) (list_l ?d @ [k]) w)\<lparr>srpc_num_drained := srpc_num_drained w + 1\<rparr>, [])
      else (s, w, []))"
  obtain s1 w1 io where p1: "p = (s1, w1, io)" by (cases p)
  obtain s2 w2 where a: "adjust_credit s1 w1 = (s2, w2)" by fastforce
  have bugs: "\<not> s_is_linked s0" "s_num_pending s0 = 0 \<Longrightarrow> ch_demand (rv_hdr r) = 0 \<Longrightarrow> s_credit s0 = 0"
    using run False s(1) pcc_okD(5) [OF ok s(1)] sess_okD(3) [OF so]
    by (auto simp: recv_credit_def BUG_ON_def sess_drained_ok_def credit_ok_def split: if_splits)
  have w': "same_books (put_sess k s2 w2) w'"
    using run False s(1) p1 a unfolding p_def
    by (auto simp: recv_credit_def BUG_ON_def Let_def s_def same_books_def emit_def put_sess_def
        split: if_splits)
  have c1: "s_credit s1 = s_credit s0" "s_closed s1 = s_closed s0" "unanswered s1 = unanswered s0"
    and W1: "sessions w1 = sessions w" "srpc_credit_used w1 = srpc_credit_used w" "ctl w1 = ctl w"
      "srpc_num_sess w1 = srpc_num_sess w" "srpc_num_pending w1 = srpc_num_pending w"
    using p1 by (auto simp: p_def s_def set_drained_def unanswered_def split: if_splits)
  have "0 \<le> s_credit s1" "s_credit s1 \<le> 63" using sess_okD(3) [OF so] c1 by (simp_all add: credit_ok_def)
  then obtain c where c: "0 \<le> c" "c \<le> s_credit s0" and a': "adjust_credit s1 w1 =
      (s1\<lparr>s_credit := c\<rparr>, w1\<lparr>srpc_credit_used := srpc_credit_used w1 - (s_credit s1 - c)\<rparr>)"
    using adjust_credit_spec [of s1 w1] c1(1) by metis
  have s2: "s2 = s1\<lparr>s_credit := c\<rparr>"
    and w2: "w2 = w1\<lparr>srpc_credit_used := srpc_credit_used w1 - (s_credit s1 - c)\<rparr>"
    using a a' by simp_all
  have "s_slots s1 = s_slots s0 \<and> s_avail_slots s1 = s_avail_slots s0 \<and> s_wake_up s1 = s_wake_up s0 \<and>
      s_completed_slots s1 = s_completed_slots s0 \<and> s_workers s1 = s_workers s0 \<and> s_pc s1 = s_pc s0 \<and>
      s_send_waiter s1 = s_send_waiter s0 \<and> s_num_pending s1 = s_num_pending s0 \<and>
      (s_sender_th s1 \<longrightarrow> s_sender_th s0 \<and> s_need_ecredit s1 = s_need_ecredit s0)"
    using p1 by (auto simp: p_def s_def split: if_splits)
  moreover have "s_pc s0 \<noteq> SDone" using so s(2) by (auto simp: sess_ok_def sender_ok_def)
  ultimately have "sess_ok s2"
    using so c c1 s(2) unfolding s2 sess_ok_def slots_ok_def sender_ok_def credit_ok_def
    by (simp add: sender_sleep_def)
  moreover have "drained_ok (put_sess k s2 w2)"
  proof (cases "s_num_pending s0 = 0 \<and> \<not> ch_demand (rv_hdr r) > 0")
    case True
    then have "s_credit s0 = 0" using bugs(2) by (simp add: word_gt_0)
    then have "c = 0" using c by simp
    show ?thesis
      by (rule drained_ok_linked [OF pcc_okD(1) [OF ok] s(1) bugs(1), where c = "rv_core r" and s = s2])
        (use True p1 \<open>c = 0\<close> in \<open>auto simp: p_def s2 w2 s_def put_sess_def set_drained_def\<close>)
  next
    case False
    then have "s_is_linked s2 = s_is_linked s0 \<and> s_drained_core s2 = s_drained_core s0 \<and> w1 = w"
      using p1 by (auto simp: p_def s2 s_def split: if_splits)
    then show ?thesis
      by (intro drained_ok_same [OF pcc_okD(1) [OF ok] s(1), where s' = s2])
        (use pcc_okD(5) [OF ok s(1)] bugs(1) in \<open>auto simp: put_sess_def w2 sess_drained_ok_def\<close>)
  qed
  ultimately have "pcc_ok (put_sess k s2 w2)"
    by (intro pcc_ok_update [OF ok s(1), where s' = s2])
      (use c1 W1 s(2) pcc_okD(2) [OF ok] in \<open>simp_all add: put_sess_def s2 w2 unanswered_def open_credit_def\<close>)
  then show ?thesis by (rule same_books_pcc_ok [OF w'])
qed

section \<open>The sender\<close>

lemma any_dropped_total: "set is' \<subseteq> dom (s_slots s) \<Longrightarrow> \<exists>b. any_dropped s is' = Some b"
  by (induction is') auto

text \<open>Leaving the list or not.\<close>

lemma maybe_removed:
  assumes ok: "drained_ok w" and k: "sessions w k = Some s0"
    and s: "s_is_linked s = s_is_linked s0" "s_drained_core s = s_drained_core s0"
  obtains l co d n where "(if b then srpc_remove_from_drained_list k s w else (s, w)) =
      (s\<lparr>s_is_linked := l, s_drained_core := co\<rparr>, w\<lparr>srpc_drained := d, srpc_num_drained := n\<rparr>)"
    and "l \<longrightarrow> s_is_linked s0" and "co = -1 \<longleftrightarrow> \<not> l" and "b \<longrightarrow> \<not> l"
    and "\<And>t w'. s_is_linked t = l \<Longrightarrow> s_drained_core t = co \<Longrightarrow> (l \<longrightarrow> s_credit t = 0) \<Longrightarrow>
      sessions w' = (sessions w)(k \<mapsto> t) \<Longrightarrow> srpc_drained w' = d \<Longrightarrow> srpc_num_drained w' = n \<Longrightarrow> drained_ok w'"
proof (cases b)
  case True
  from remove_drained_spec [OF ok k s] obtain d where d: "srpc_remove_from_drained_list k s w =
      (s\<lparr>s_is_linked := False, s_drained_core := -1\<rparr>,
       w\<lparr>srpc_drained := d, srpc_num_drained := srpc_num_drained w - of_bool (s_is_linked s)\<rparr>)"
    "\<And>c. distinct (list_h (d c) @ list_l (d c))"
    "\<And>c. set (list_h (d c)) \<union> set (list_l (d c)) = drained_set w c - {k}" by blast
  show ?thesis
  proof (rule that [where l = False and co = "-1" and d = d and n = "srpc_num_drained w - of_bool (s_is_linked s0)"])
    fix t and w' :: pcc
    assume "s_is_linked t = False" "s_drained_core t = -1" "sessions w' = (sessions w)(k \<mapsto> t)"
      "srpc_drained w' = d" "srpc_num_drained w' = srpc_num_drained w - of_bool (s_is_linked s0)"
    then show "drained_ok w'" by (intro drained_ok_removed [OF ok k]) (use d(2,3) in simp_all)
  qed (use d s True in simp_all)
next
  case False
  note so = drained_okD(2) [OF ok k]
  show ?thesis
  proof (rule that [where l = "s_is_linked s0" and co = "s_drained_core s0" and d = "srpc_drained w" and
      n = "srpc_num_drained w"])
    show "(if b then srpc_remove_from_drained_list k s w else (s, w)) =
      (s\<lparr>s_is_linked := s_is_linked s0, s_drained_core := s_drained_core s0\<rparr>,
       w\<lparr>srpc_drained := srpc_drained w, srpc_num_drained := srpc_num_drained w\<rparr>)"
      using False s [symmetric] by (cases s, cases w) simp
    fix t and w' :: pcc
    assume "s_is_linked t = s_is_linked s0" "s_drained_core t = s_drained_core s0"
      "s_is_linked s0 \<longrightarrow> s_credit t = 0" "sessions w' = (sessions w)(k \<mapsto> t)"
      "srpc_drained w' = srpc_drained w" "srpc_num_drained w' = srpc_num_drained w"
    then show "drained_ok w'"
      using so by (intro drained_ok_same [OF ok k, where s' = t]) (auto simp: sess_drained_ok_def)
  qed (use so False in \<open>auto simp: sess_drained_ok_def\<close>)
qed

lemma update_credit_any:
  assumes "srpc_num_sess rd \<noteq> 0" and "0 \<le> s_num_pending s" and "0 \<le> s_credit s" and "s_credit s \<le> 63"
  obtains c where "0 \<le> c" and "c \<le> 63" and "s_drained_core s \<noteq> -1 \<longrightarrow> c = s_credit s"
    and "srpc_update_credit mc rd rq s w =
      Some (s\<lparr>s_credit := c\<rparr>, w\<lparr>srpc_credit_used := srpc_credit_used w + (c - s_credit s)\<rparr>)"
proof (cases "s_drained_core s = -1")
  case True
  then show ?thesis using srpc_update_credit_frame [OF True assms(1,2), of mc rq w] that by blast
next
  case False
  then show ?thesis using that [of "s_credit s"] assms(3,4) by (simp add: srpc_update_credit_drained)
qed

text \<open>The session when its completed slots have been taken for sending.\<close>

lemma sess_ok_collected:
  assumes so: "sess_ok s" and op: "\<not> s_closed s" and pc: "s_pc s = SWait"
    and t: "s_slots t = s_slots s" "s_avail_slots t = s_avail_slots s" "s_workers t = s_workers s"
      "s_closed t = s_closed s" "s_send_waiter t = s_send_waiter s" "\<not> s_sender_th t"
      "bm_set (s_completed_slots t) = {}" "window_ok (s_completed_slots t)"
      "s_num_pending t = s_num_pending s - int (card (bm_set (s_completed_slots s)))"
      "0 \<le> s_credit t" "s_credit t \<le> 63"
    and pc': "s_pc t = SSend (s_completed_slots s) cr dc \<or>
      s_pc t = SCredit \<and> bm_set (s_completed_slots s) = {}"
  shows "sess_ok t" and "unanswered t = unanswered s"
proof -
  note S = slots_okD [OF sess_okD(1) [OF so]]
  have "slots_ok t"
    using S pc part4_moves(4) [OF S(4)] t pc' unfolding slots_ok_def by auto
  moreover have "sender_ok t" using sess_okD(2) [OF so] t pc pc' by (auto simp: sender_ok_def)
  moreover have "credit_ok t" using sess_okD(3) [OF so] t op by (simp add: credit_ok_def)
  ultimately show "sess_ok t" by (simp add: sess_ok_def)
  show "unanswered t = unanswered s" using t(9) pc pc' by (auto simp: unanswered_def)
qed

lemma collect_completed_ok:
  assumes ok: "pcc_ok w" and s: "sessions w k = Some s" and pc: "s_pc s = SWait" and op: "\<not> s_closed s"
    and rd: "srpc_num_sess rd \<noteq> 0"
  obtains w' where "collect_completed mc rd now k (s\<lparr>s_sender_th := False\<rparr>) w = Some w'" and "pcc_ok w'"
    and "\<not> virgin s \<Longrightarrow> step_local k w w'"
proof -
  note so = pcc_okD(3) [OF ok s]
  have "s_pc s \<noteq> SDone" using pc by simp
  note S = slots_okD [OF sess_okD(1) [OF so] this]
  let ?tmp = "s_completed_slots s"
  define s1 where "s1 = s\<lparr>s_sender_th := False, s_completed_slots := bitmap_init SPCC_MAX_WINDOW False\<rparr>"
  have "set (bitmap_for_each_set ?tmp SPCC_MAX_WINDOW) \<subseteq> dom (s_slots s1)"
    using window_each(1) [OF S(2)] S(4) part4_finite(7) [OF S(4)] by (auto simp: s1_def S(5) part4_def)
  then obtain b where b: "any_dropped s1 (bitmap_for_each_set ?tmp SPCC_MAX_WINDOW) = Some b"
    using any_dropped_total by blast
  have "s_is_linked s1 = s_is_linked s" "s_drained_core s1 = s_drained_core s" by (simp_all add: s1_def)
  then obtain l co d n where
    rem: "(if s_wake_up s1 then srpc_remove_from_drained_list k s1 w else (s1, w)) =
      (s1\<lparr>s_is_linked := l, s_drained_core := co\<rparr>, w\<lparr>srpc_drained := d, srpc_num_drained := n\<rparr>)"
    and l: "l \<longrightarrow> s_is_linked s" "co = -1 \<longleftrightarrow> \<not> l"
    and dok: "\<And>t w'. s_is_linked t = l \<Longrightarrow> s_drained_core t = co \<Longrightarrow> (l \<longrightarrow> s_credit t = 0) \<Longrightarrow>
      sessions w' = (sessions w)(k \<mapsto> t) \<Longrightarrow> srpc_drained w' = d \<Longrightarrow> srpc_num_drained w' = n \<Longrightarrow> drained_ok w'"
    by (rule maybe_removed [OF pcc_okD(1) [OF ok] s, where b = "s_wake_up s1"]) blast
  define w2 where "w2 = w\<lparr>srpc_drained := d, srpc_num_drained := n\<rparr>"
  have np: "bitmap_popcount ?tmp SPCC_MAX_WINDOW = card (bm_set ?tmp)" by (rule window_popcount [OF S(2)])
  define s3 where "s3 = s1\<lparr>s_is_linked := l, s_drained_core := co,
      s_num_pending := s_num_pending s1 - int (card (bm_set ?tmp))\<rparr>"
  have "0 \<le> s_num_pending s3" "0 \<le> s_credit s3" "s_credit s3 \<le> 63"
    using sess_okD(3) [OF so] op by (simp_all add: s3_def s1_def credit_ok_def)
  then obtain c where c: "0 \<le> c" "c \<le> 63" "co \<noteq> -1 \<longrightarrow> c = s_credit s"
    and up: "srpc_update_credit mc rd b s3 w2 =
      Some (s3\<lparr>s_credit := c\<rparr>, w2\<lparr>srpc_credit_used := srpc_credit_used w2 + (c - s_credit s)\<rparr>)"
    using update_credit_any [OF rd, of s3 mc b w2] by (auto simp: s3_def s1_def)
  have lc: "l \<longrightarrow> c = 0" using l c(3) pcc_okD(5) [OF ok s] by (auto simp: sess_drained_ok_def)
  define x where "x \<longleftrightarrow> (s_need_ecredit s \<or> s_wake_up s) \<and> bm_set ?tmp = {} \<and> s_advertised s < c"
  define t where "t = s3\<lparr>s_credit := c, s_advertised := (if 0 < card (bm_set ?tmp) \<or> x then c else s_advertised s),
      s_need_ecredit := False, s_wake_up := False,
      s_last_ecredit_timestamp := (if x then now else s_last_ecredit_timestamp s),
      s_pc := (if x then SCredit else SSend ?tmp c co)\<rparr>"
  define w4 where "w4 = w2\<lparr>srpc_credit_used := srpc_credit_used w2 + (c - s_credit s),
      stat := (stat w)\<lparr>srpc_stat_credit_tx := srpc_stat_credit_tx (stat w) +
        word_of_int (max 0 (c - s_credit s + int (card (bm_set ?tmp))))\<rparr>\<rparr>"
  have fin: "finite (bm_set ?tmp)" using part4_finite(2) [OF S(4)] .
  have "collect_completed mc rd now k (s\<lparr>s_sender_th := False\<rparr>) w = Some (put_sess k t w4)"
    using b rem up np fin
    by (simp add: collect_completed_def s1_def [symmetric] Let_def w2_def [symmetric] s3_def [symmetric])
      (auto simp: t_def w4_def x_def s3_def s1_def w2_def)
  moreover have "sess_ok t \<and> unanswered t = unanswered s"
    using sess_ok_collected [OF so op pc, of t c co] c window_init [of False]
    by (auto simp: t_def s3_def s1_def x_def)
  moreover from this have "pcc_ok (put_sess k t w4)"
    by (intro pcc_ok_update [OF ok s, where s' = t] dok [of t])
      (use lc op pcc_okD(2) [OF ok] in \<open>simp_all add: put_sess_def w4_def w2_def t_def s3_def s1_def open_credit_def\<close>)
  moreover have "step_local k w (put_sess k t w4)" if "\<not> virgin s"
    by (rule step_local_upd [OF s, where t = t])
      (use that l(2) in \<open>auto simp: settles_def drain_safe_def t_def s3_def s1_def put_sess_def w4_def w2_def\<close>)
  ultimately show ?thesis using that by blast
qed

lemma collect_ok:
  assumes ok: "pcc_ok w" and en: "pcc_enabled mc (Collect k rd now) w"
  obtains w' where "srpc_sender_collect (int mc) rd now k w = Some w'" and "pcc_ok w'"
    and "step_local k w w'"
proof -
  from en obtain s where s: "sessions w k = Some s" "s_pc s = SWait" "\<not> s_sender_th s"
    and rd: "srpc_num_sess rd \<noteq> 0" by auto
  note so = pcc_okD(3) [OF ok s(1)]
  consider "sender_sleep s" | "\<not> sender_sleep s" "s_closed s" | "\<not> sender_sleep s" "\<not> s_closed s" by blast
  then show ?thesis
  proof cases
    case 1
    have "pcc_ok (put_sess k (s\<lparr>s_sender_th := True\<rparr>) w)"
      by (rule pcc_ok_keep [OF ok s(1)])
        (use so s 1 in \<open>simp_all add: sess_ok_def slots_ok_def sender_ok_def credit_ok_def sender_sleep_def unanswered_def\<close>)
    moreover have "step_local k w (put_sess k (s\<lparr>s_sender_th := True\<rparr>) w)"
      by (rule step_local_upd [OF s(1)]) (auto simp: put_sess_def settles_def virgin_def drain_safe_def)
    ultimately show ?thesis using that s(1) 1 by (simp add: srpc_sender_collect_def)
  next
    case 2
    have "pcc_ok (put_sess k (s\<lparr>s_sender_th := False, s_pc := SClose\<rparr>) w)"
      by (rule pcc_ok_keep [OF ok s(1)])
        (use so s 2 in \<open>simp_all add: sess_ok_def slots_ok_def sender_ok_def credit_ok_def unanswered_def\<close>)
    moreover have "step_local k w (put_sess k (s\<lparr>s_sender_th := False, s_pc := SClose\<rparr>) w)"
      by (rule step_local_upd [OF s(1)]) (use 2(2) in \<open>auto simp: put_sess_def settles_def drain_safe_def\<close>)
    ultimately show ?thesis using that s(1) 2 by (simp add: srpc_sender_collect_def)
  next
    case 3
    have "s_pc s \<noteq> SDone" using s(2) by simp
    note S = slots_okD [OF sess_okD(1) [OF so] this]
    have "\<not> virgin s" using 3 window_popcount [OF S(2)] by (auto simp: virgin_def sender_sleep_def)
    with collect_completed_ok [OF ok s(1,2) 3(2) rd, of "int mc" now] obtain w' where
      "collect_completed (int mc) rd now k (s\<lparr>s_sender_th := False\<rparr>) w = Some w'" "pcc_ok w'" "step_local k w w'"
      by metis
    then show ?thesis using that s(1) 3 by (simp add: srpc_sender_collect_def)
  qed
qed

lemma ecredit_ok:
  assumes ok: "pcc_ok w" and en: "pcc_enabled mc (Ecredit k junk ret) w"
  obtains w' where "srpc_sender_ecredit junk ret k w = Some w'" and "pcc_ok w'" and "step_local k w w'"
proof -
  from en obtain s where s: "sessions w k = Some s" "s_pc s = SCredit" by auto
  obtain ret' w1 where e: "srpc_send_ecredit junk ret k s w = (ret', w1)" by fastforce
  then have b: "same_books w w1"
    by (auto simp: srpc_send_ecredit_def Let_def same_books_def emit_def split: if_splits)
  let ?t = "s\<lparr>s_pc := (if ret' \<noteq> 0 then SClose else SWait)\<rparr>"
  have "pcc_ok (put_sess k ?t w1)"
    by (rule pcc_ok_keep [OF same_books_pcc_ok [OF b ok], of _ s])
      (use pcc_okD(3) [OF ok s(1)] s same_booksD(1) [OF b]
       in \<open>simp_all add: sess_ok_def slots_ok_def sender_ok_def credit_ok_def unanswered_def\<close>)
  moreover have "step_local k w (put_sess k ?t w1)"
    by (rule step_local_upd [OF s(1), where t = ?t])
      (use s(2) same_booksD(1) [OF b] in \<open>auto simp: put_sess_def settles_def virgin_def drain_safe_def\<close>)
  ultimately show ?thesis using that s(1) e by (simp add: srpc_sender_ecredit_def)
qed

lemma respond_ok:
  assumes ok: "pcc_ok w" and s: "sessions w k = Some s" and pc: "s_pc s = SSend tmp cr dc"
  obtains w' where "srpc_sender_respond ret tmp cr dc k w = Some w'" and "pcc_ok w'"
    and "step_local k w w'"
proof -
  note so = pcc_okD(3) [OF ok s(1)]
  have "s_pc s \<noteq> SDone" using pc by simp
  note S = slots_okD [OF sess_okD(1) [OF so] this]
  have wt: "window_ok tmp" and p4: "part4 (bm_set (s_avail_slots s)) (bm_set (s_completed_slots s)) (s_workers s) (bm_set tmp)"
    using S(3,4) pc by simp_all
  let ?is = "bitmap_for_each_set tmp SPCC_MAX_WINDOW"
  note each = window_each [OF wt]
  have sub: "set ?is \<subseteq> {..<64}" using each(1) part4_finite(8) [OF p4] by simp
  have "set ?is \<subseteq> dom (s_slots s)" using each(1) sub p4 unfolding S(5) by (auto simp: part4_def)
  note es = completion_entries_some [OF this]
  from fold_put_slot [OF S(1) sub] obtain a where
    a: "fold srpc_put_slot ?is s = s\<lparr>s_slots := s_slots s |` (- set ?is), s_avail_slots := a\<rparr>"
      "window_ok a" "bm_set a = bm_set (s_avail_slots s) \<union> bm_set tmp" using each(1) by auto
  define t where "t = s\<lparr>s_slots := s_slots s |` (- bm_set tmp), s_avail_slots := a, s_pc := SDrain cr dc\<rparr>"
  have "dom (s_slots t) = {..<64} - bm_set a" using S(5) a(3) by (auto simp: t_def)
  moreover have "c_idx c = i" if "s_slots t i = Some c" for i c
    using that S(6) by (auto simp: t_def restrict_map_def split: if_splits)
  ultimately have "slots_ok t"
    using S(2) a(2,3) part4_moves(5) [OF p4] unfolding slots_ok_def by (simp add: t_def)
  then have t_ok: "sess_ok t" "unanswered t = unanswered s - int (card (bm_set tmp))"
    using so pc by (simp_all add: t_def sess_ok_def sender_ok_def credit_ok_def unanswered_def)
  show ?thesis
  proof (cases "?is = []")
    case True
    then have e: "bm_set tmp = {}" using each(1) by simp
    let ?t = "s\<lparr>s_pc := SDrain cr dc\<rparr>"
    have "sess_ok ?t" using so pc e by (simp add: sess_ok_def slots_ok_def sender_ok_def credit_ok_def)
    then have "pcc_ok (put_sess k ?t w)"
      by (rule pcc_ok_keep [OF ok s]) (simp_all add: unanswered_def pc e)
    moreover have "step_local k w (put_sess k ?t w)"
      by (rule step_local_upd [OF s]) (use pc in \<open>auto simp: put_sess_def settles_def virgin_def drain_safe_def\<close>)
    ultimately show ?thesis
      using that s es True by (simp add: srpc_sender_respond_def srpc_send_completion_vector_def)
  next
    case False
    define w1 where "w1 = (emit [Write k (map (\<lambda>i. completion_entry s (the (s_slots s i))) ?is)] w)
      \<lparr>srpc_num_pending := srpc_num_pending w - int (card (bm_set tmp)),
       stat := (stat w)\<lparr>srpc_stat_resp_tx := srpc_stat_resp_tx (stat w) + of_nat (card (bm_set tmp))\<rparr>\<rparr>"
    have "srpc_sender_respond ret tmp cr dc k w = Some (put_sess k t w1)"
      using s es False each(3) a(1)
      by (simp add: srpc_sender_respond_def srpc_send_completion_vector_def Let_def w1_def t_def each(1) emit_def)
    moreover have "drained_ok (put_sess k t w1)"
      by (rule drained_ok_same [OF pcc_okD(1) [OF ok] s, where s' = t])
        (use pcc_okD(5) [OF ok s] in \<open>simp_all add: put_sess_def w1_def t_def emit_def sess_drained_ok_def\<close>)
    then have "pcc_ok (put_sess k t w1)"
      by (intro pcc_ok_update [OF ok s _ t_ok(1)])
        (use t_ok(2) pcc_okD(2) [OF ok] in \<open>simp_all add: put_sess_def w1_def emit_def\<close>,
         simp_all add: t_def open_credit_def)
    moreover have "step_local k w (put_sess k t w1)"
      by (rule step_local_upd [OF s, where t = t])
        (use pc in \<open>auto simp: put_sess_def settles_def virgin_def drain_safe_def w1_def emit_def t_def\<close>)
    ultimately show ?thesis by (rule that)
  qed
qed

lemma drain_ok:
  assumes ok: "pcc_ok w" and s: "sessions w k = Some s" and pc: "s_pc s = SDrain cr dc"
    and run: "srpc_sender_drain core now cr dc k w = Some w'"
  shows "pcc_ok w'"
proof -
  note so = pcc_okD(3) [OF ok s(1)]
  let ?P = "cr = 0 \<and> dc = -1 \<and> bitmap_popcount (s_avail_slots s) SPCC_MAX_WINDOW = SPCC_MAX_WINDOW"
  show ?thesis
  proof (cases ?P)
    case False
    then have "w' = put_sess k (s\<lparr>s_pc := SWait\<rparr>) w" using run s by (auto simp: srpc_sender_drain_def)
    moreover have "pcc_ok (put_sess k (s\<lparr>s_pc := SWait\<rparr>) w)"
      by (rule pcc_ok_keep [OF ok s])
        (use so pc in \<open>simp_all add: sess_ok_def slots_ok_def sender_ok_def credit_ok_def unanswered_def\<close>)
    ultimately show ?thesis by simp
  next
    case True
    let ?d = "srpc_drained w core"
    define t where "t = (if s_demand s > 0 then s\<lparr>s_drained_ts := now\<rparr> else s)
      \<lparr>s_is_linked := True, s_drained_core := int core, s_pc := SWait\<rparr>"
    define w1 where "w1 = (if s_demand s > 0 then set_drained core (k # list_h ?d) (list_l ?d) w
      else set_drained core (list_h ?d) (list_l ?d @ [k]) w)\<lparr>srpc_num_drained := srpc_num_drained w + 1\<rparr>"
    have w': "w' = put_sess k t w1" and un: "\<not> s_is_linked s" "s_credit s = 0"
      using run s True sess_okD(3) [OF so]
      by (auto simp: srpc_sender_drain_def BUG_ON_def t_def w1_def Let_def set_drained_def credit_ok_def
          split: if_splits)
    have "sess_ok t"
      using so pc by (simp add: t_def sess_ok_def slots_ok_def sender_ok_def credit_ok_def)
    moreover have "drained_ok w'"
      by (rule drained_ok_linked [OF pcc_okD(1) [OF ok] s un(1), where c = core and s = t
            and h = "if s_demand s > 0 then k # list_h ?d else list_h ?d"
            and l = "if s_demand s > 0 then list_l ?d else list_l ?d @ [k]"])
        (auto simp: w' t_def w1_def put_sess_def set_drained_def un)
    ultimately show ?thesis
      by (intro pcc_ok_update [OF ok s, where s' = t])
        (use pcc_okD(2) [OF ok] in \<open>simp_all add: w' put_sess_def w1_def t_def set_drained_def
           open_credit_def unanswered_def pc\<close>)
  qed
qed

lemma drain_local:
  assumes s: "sessions w k = Some s" and pc: "s_pc s = SDrain cr dc"
    and run: "srpc_sender_drain core now cr dc k w = Some w'"
  shows "step_local k w w'"
proof -
  obtain t where "sessions w' = (sessions w)(k \<mapsto> t)" "s_pc t = SWait" "s_closed t = s_closed s"
    using run s by (auto simp: srpc_sender_drain_def put_sess_def set_drained_def BUG_ON_def Let_def
        split: if_splits)
  then show ?thesis
    using s pc by (intro step_local_upd [OF s, where t = t]) (auto simp: settles_def virgin_def drain_safe_def)
qed

lemma sender_close_ok:
  assumes ok: "pcc_ok w" and en: "pcc_enabled mc (SenderClose k) w"
  obtains w' where "srpc_sender_close k w = Some w'" and "pcc_ok w'" and "step_local k w w'"
proof -
  from en obtain s where s: "sessions w k = Some s" "s_pc s = SClose" "\<not> s_sender_th s" by auto
  note so = pcc_okD(3) [OF ok s(1)]
  have "s_pc s \<noteq> SDone" using s by simp
  note S = slots_okD [OF sess_okD(1) [OF so] this]
  note pop = window_popcount [OF S(1)] window_popcount [OF S(2)]
  let ?wait = "\<not> s_closed s \<or> card (bm_set (s_avail_slots s)) + card (bm_set (s_completed_slots s)) < 64"
  show ?thesis
  proof (cases ?wait)
    case True
    have "pcc_ok (put_sess k (s\<lparr>s_sender_th := True\<rparr>) w)"
      by (rule pcc_ok_keep [OF ok s(1)])
        (use so s True in \<open>simp_all add: sess_ok_def slots_ok_def sender_ok_def credit_ok_def unanswered_def\<close>)
    moreover have "step_local k w (put_sess k (s\<lparr>s_sender_th := True\<rparr>) w)"
      by (rule step_local_upd [OF s(1)]) (auto simp: put_sess_def settles_def virgin_def drain_safe_def)
    ultimately show ?thesis
      using that s(1) True pop by (simp add: srpc_sender_close_def SPCC_MAX_WINDOW_def)
  next
    case False
    have "card (s_workers s) = 0" using False part4_card [OF S(4)] by simp
    then have no: "s_workers s = {}" using part4_finite(3) [OF S(4)] by simp
    let ?s1 = "s\<lparr>s_sender_th := False\<rparr>"
    obtain d where d: "srpc_remove_from_drained_list k ?s1 w =
      (?s1\<lparr>s_is_linked := False, s_drained_core := -1\<rparr>,
       w\<lparr>srpc_drained := d, srpc_num_drained := srpc_num_drained w - of_bool (s_is_linked s)\<rparr>)"
      "\<And>c. distinct (list_h (d c) @ list_l (d c))"
      "\<And>c. set (list_h (d c)) \<union> set (list_l (d c)) = drained_set w c - {k}"
      using remove_drained_spec [OF pcc_okD(1) [OF ok] s(1), of ?s1] by auto
    let ?s2 = "?s1\<lparr>s_is_linked := False, s_drained_core := -1\<rparr>"
    let ?is = "filter (\<lambda>i. s_slots ?s2 i \<noteq> None) [0..<SPCC_MAX_WINDOW]"
    have "window_ok (s_avail_slots ?s2)" "set ?is \<subseteq> {..<64}" using S(1) by (auto simp: SPCC_MAX_WINDOW_def)
    from fold_put_slot [OF this] obtain a where
      a: "fold srpc_put_slot ?is ?s2 = ?s2\<lparr>s_slots := s_slots s |` (- set ?is), s_avail_slots := a\<rparr>"
        "window_ok a" by auto
    define t where "t = ?s2\<lparr>s_slots := s_slots s |` (- set ?is), s_avail_slots := a,
      s_send_waiter := s_send_waiter s - 1, s_pc := SDone\<rparr>"
    define w1 where "w1 = w\<lparr>srpc_drained := d, srpc_num_drained := srpc_num_drained w - of_bool (s_is_linked s)\<rparr>"
    have "c_idx c = i" if "s_slots t i = Some c" for i c
      using that S(6) by (auto simp: t_def restrict_map_def split: if_splits)
    then have t_ok: "sess_ok t"
      using so S(2) a(2) False no s(2)
      by (simp add: sess_ok_def slots_ok_def sender_ok_def credit_ok_def t_def)
    have "srpc_sender_close k w = Some (put_sess k t w1)"
      using False pop s(1) d(1) a(1)
      by (simp add: srpc_sender_close_def SPCC_MAX_WINDOW_def Let_def t_def w1_def)
    moreover have "drained_ok (put_sess k t w1)"
      by (rule drained_ok_removed [OF pcc_okD(1) [OF ok] s(1), where s = t])
        (use d(2,3) in \<open>simp_all add: put_sess_def w1_def t_def\<close>)
    then have "pcc_ok (put_sess k t w1)"
      by (intro pcc_ok_update [OF ok s(1) _ t_ok])
        (use pcc_okD(2) [OF ok] s(2) in \<open>simp_all add: put_sess_def w1_def t_def open_credit_def unanswered_def\<close>)
    moreover have "step_local k w (put_sess k t w1)"
      by (rule step_local_upd [OF s(1), where t = t])
        (use s(2) in \<open>auto simp: put_sess_def settles_def virgin_def drain_safe_def w1_def t_def\<close>)
    ultimately show ?thesis by (rule that)
  qed
qed

lemma close_ok:
  assumes ok: "pcc_ok w" and s: "sessions w k = Some s" "\<not> s_closed s"
  obtains w' where "srpc_server_close k w = Some w'" and "pcc_ok w'" and "step_local k w w'"
proof -
  note so = pcc_okD(3) [OF ok s(1)]
  have pc: "s_pc s \<noteq> SDone" using so s(2) by (auto simp: sess_ok_def sender_ok_def)
  let ?s1 = "s\<lparr>s_sender_th := False, s_closed := True\<rparr>"
  have "s_is_linked ?s1 = s_is_linked s" "s_drained_core ?s1 = s_drained_core s" by simp_all
  then obtain l co d n where
    rem: "(if s_is_linked ?s1 then srpc_remove_from_drained_list k ?s1 w else (?s1, w)) =
      (?s1\<lparr>s_is_linked := l, s_drained_core := co\<rparr>, w\<lparr>srpc_drained := d, srpc_num_drained := n\<rparr>)"
    and l: "l \<longrightarrow> s_is_linked s" "s_is_linked ?s1 \<longrightarrow> \<not> l"
    and dok: "\<And>t w'. s_is_linked t = l \<Longrightarrow> s_drained_core t = co \<Longrightarrow> (l \<longrightarrow> s_credit t = 0) \<Longrightarrow>
      sessions w' = (sessions w)(k \<mapsto> t) \<Longrightarrow> srpc_drained w' = d \<Longrightarrow> srpc_num_drained w' = n \<Longrightarrow> drained_ok w'"
    by (rule maybe_removed [OF pcc_okD(1) [OF ok] s(1), where b = "s_is_linked ?s1"]) blast
  have nl: "\<not> l" using l by auto
  define t where "t = ?s1\<lparr>s_is_linked := l, s_drained_core := co, s_num_pending := 0, s_demand := 0\<rparr>"
  define w1 where "w1 = w\<lparr>srpc_drained := d, srpc_num_drained := n,
      srpc_credit_used := srpc_credit_used w - s_credit s,
      srpc_num_pending := srpc_num_pending w - s_num_pending s\<rparr>"
  have "srpc_server_close k w = Some (emit (ready_sender k s) ((put_sess k t w1)
      \<lparr>srpc_num_sess := srpc_num_sess w - 1\<rparr>))"
    using s(1) rem by (simp add: srpc_server_close_def Let_def t_def w1_def put_sess_def)
  moreover have t_ok: "sess_ok t"
    using so pc by (simp add: t_def sess_ok_def slots_ok_def sender_ok_def credit_ok_def)
  have "pcc_ok ((put_sess k t w1)\<lparr>srpc_num_sess := srpc_num_sess w - 1\<rparr>)"
    by (intro pcc_ok_update [OF ok s(1) _ t_ok] dok [of t])
      (use nl s(2) pcc_okD(2) [OF ok] in \<open>simp_all add: put_sess_def w1_def t_def open_credit_def unanswered_def\<close>)
  then have "pcc_ok (emit (ready_sender k s) ((put_sess k t w1)\<lparr>srpc_num_sess := srpc_num_sess w - 1\<rparr>))"
    by (rule same_books_pcc_ok [OF same_books_intros(3)])
  moreover have "step_local k w (emit (ready_sender k s) ((put_sess k t w1)\<lparr>srpc_num_sess := srpc_num_sess w - 1\<rparr>))"
    by (rule step_local_upd [OF s(1), where t = t])
      (use nl in \<open>auto simp: put_sess_def settles_def drain_safe_def w1_def t_def emit_def\<close>)
  ultimately show ?thesis by (rule that)
qed

lemma finish_ok:
  assumes ok: "pcc_ok w" and s: "sessions w k = Some s" "s_pc s = SDone"
  obtains w' where "srpc_server_finish mc k w = Some w'" and "pcc_ok w'" and "step_local k w w'"
proof -
  note so = pcc_okD(3) [OF ok s(1)]
  note fin = pcc_okD(4) [OF ok]
  note m = msum_delete [OF fin s(1)]
  have z: "s_closed s" "\<not> s_is_linked s" "unanswered s = 0" "open_credit s = 0"
    using so s(2) by (auto simp: sess_ok_def sender_ok_def credit_ok_def unanswered_def open_credit_def)
  let ?ss = "(sessions w)(k := None)"
  have 1: "pcc_ok w'" if w': "sessions w' = ?ss" "srpc_drained w' = srpc_drained w" "ctl w' = ctl w"
      "srpc_num_drained w' = srpc_num_drained w" "srpc_num_sess w' = srpc_num_sess w"
      "srpc_num_pending w' = srpc_num_pending w" and u: "msum open_credit ?ss \<le> srpc_credit_used w'" for w'
  proof -
    have "linked_at w' c j \<longleftrightarrow> linked_at w c j" for c j
      using s(1) z(2) by (auto simp: linked_at_def w'(1))
    then have "drained_ok w'"
      using pcc_okD(1) [OF ok] z(2) m unfolding drained_ok_def
      by (auto simp: w' split: if_splits)
    then show ?thesis
      using ok u z m unfolding pcc_ok_def by (auto simp: w' split: if_splits)
  qed
  have u0: "msum open_credit ?ss \<le> srpc_credit_used w" using ok m z(4) by (simp add: pcc_ok_def)
  have "msum open_credit ?ss \<le> 0" if "srpc_num_sess w = 0"
  proof -
    have "msum (\<lambda>s. of_bool (\<not> s_closed s)) (sessions w) = 0" using that ok by (simp add: pcc_ok_def)
    then have "s_closed t" if "sessions w j = Some t" for j t
      using msum_member_le [OF fin that, of "\<lambda>s. of_bool (\<not> s_closed s)"] by (cases "s_closed t") auto
    then have "msum open_credit ?ss = msum (\<lambda>_. 0) ?ss"
      by (intro msum_cong_on) (auto simp: open_credit_def split: if_splits)
    then show ?thesis by (simp add: msum_def)
  qed
  then show ?thesis
    using u0 by (intro that)
      (auto simp: srpc_server_finish_def Let_def step_local_def only_wakes_def intro!: 1
        split: if_splits)
qed

section \<open>Steps and runs\<close>

lemma pcc_step_ok:
  assumes ok: "pcc_ok w" and en: "pcc_enabled mc a w" and run: "pcc_exec mc a w = Some w'"
  shows "pcc_ok w'"
proof (cases a)
  case (Open k ret spawn)
  then show ?thesis using open_ok [OF ok, of k ret spawn w'] en run by simp
next
  case (Recv k r)
  then obtain s res where s: "sessions w k = Some s" "\<not> s_closed s" and core: "in_core (rv_ctl r) < mc"
    and m: "srpc_recv_msg mc r k w = Some (res, w')" using en run by auto
  show ?thesis
    using m recv_call_ok [OF ok s core, of res w'] recv_credit_ok [OF ok s, of r res w'] ok
    by (auto simp: srpc_recv_msg_def split: if_splits)
next
  case (Worker k idx i h)
  then show ?thesis using worker_ok [OF ok, of mc k idx i h] en run by auto
next
  case (Collect k rd now)
  then show ?thesis using collect_ok [OF ok, of mc k rd now] en run by auto
next
  case (Ecredit k junk ret)
  then show ?thesis using ecredit_ok [OF ok, of mc k junk ret] en run by auto
next
  case (Respond k ret)
  then obtain s tmp c d where s: "sessions w k = Some s" "s_pc s = SSend tmp c d" using en by auto
  then show ?thesis using respond_ok [OF ok s, of ret] Respond run by auto
next
  case (Drain k core now)
  then obtain s c d where s: "sessions w k = Some s" "s_pc s = SDrain c d" using en by auto
  then show ?thesis using drain_ok [OF ok s, of core now w'] Drain run by simp
next
  case (SenderClose k)
  then show ?thesis using sender_close_ok [OF ok, of mc k] en run by auto
next
  case (Close k)
  then obtain s where s: "sessions w k = Some s" "\<not> s_closed s" using en by auto
  then show ?thesis using close_ok [OF ok s] Close run by auto
next
  case (Finish k)
  then obtain s where s: "sessions w k = Some s" "s_pc s = SDone" using en by auto
  then show ?thesis using finish_ok [OF ok s, of "int mc"] Finish run by auto
qed

lemma init_ok: "sessions w = Map.empty \<Longrightarrow> pcc_ok (srpc_listener_init mc t1 t2 rnd w)"
  by (simp add: pcc_ok_def drained_ok_def srpc_listener_init_def linked_at_def ctl_ok_def
      srpc_pcc_gen_micro_exp_dirs_def SPCC_MAX_NUM_MICRO_EXPS_def)

lemma pcc_run_ok: "pcc_run mc w0 as w \<Longrightarrow> pcc_ok w0 \<Longrightarrow> pcc_ok w"
  by (induction rule: pcc_run.induct) (auto intro: pcc_step_ok)

end
