(* ===== verification/Pcc_Safety.thy ===== *)
theory Pcc_Safety
  imports Pcc_Runs
begin

text \<open>
  What the PCC server guarantees in every run.  The first part follows the sessions of a run
  whose clients keep to the protocol: a credit message is the first message of its session and
  carries a demand.  The properties at the end speak of the program's own counters, lists and
  slots.
\<close>

section \<open>Compliant clients\<close>

text \<open>No message of session \<open>k\<close> since it was opened; the actions are listed latest first.  A receive
  that finds the connection closed reads no message.\<close>

fun quiet :: "nat \<Rightarrow> pcc_act list \<Rightarrow> bool" where
  "quiet k [] \<longleftrightarrow> True"
| "quiet k (Open j ret spawn # as) \<longleftrightarrow> j = k \<or> quiet k as"
| "quiet k (Recv j r # as) \<longleftrightarrow> (j \<noteq> k \<or> rv_ret r \<le> 0) \<and> quiet k as"
| "quiet k (_ # as) \<longleftrightarrow> quiet k as"

text \<open>The session information is read, threads are spawned, and a credit message comes first and with a
  demand.\<close>

fun polite_act :: "pcc_act list \<Rightarrow> pcc_act \<Rightarrow> bool" where
  "polite_act as (Open k ret spawn) \<longleftrightarrow> 0 < ret \<and> spawn = 0"
| "polite_act as (Recv k r) \<longleftrightarrow>
     rv_spawn r = 0 \<and>
     (0 < rv_ret r \<and> ch_op (rv_hdr r) = PCC_OP_CREDIT \<longrightarrow> quiet k as \<and> 0 < ch_demand (rv_hdr r))"
| "polite_act as _ \<longleftrightarrow> True"

fun polite :: "pcc_act list \<Rightarrow> bool" where
  "polite [] \<longleftrightarrow> True"
| "polite (a # as) \<longleftrightarrow> polite_act as a \<and> polite as"

fun act_key :: "pcc_act \<Rightarrow> nat" where
  "act_key (Open k ret spawn) = k"
| "act_key (Recv k r) = k"
| "act_key (Worker k idx i h) = k"
| "act_key (Collect k rd now) = k"
| "act_key (Ecredit k junk ret) = k"
| "act_key (Respond k ret) = k"
| "act_key (Drain k core now) = k"
| "act_key (SenderClose k) = k"
| "act_key (Close k) = k"
| "act_key (Finish k) = k"

lemma quiet_other: "act_key a \<noteq> k \<Longrightarrow> quiet k (a # as) \<longleftrightarrow> quiet k as"
  by (cases a) auto

definition calm :: "pcc_act list \<Rightarrow> pcc \<Rightarrow> bool" where
  "calm as w \<longleftrightarrow>
     (\<forall>k s. sessions w k = Some s \<longrightarrow> drain_safe s \<and> (quiet k as \<longrightarrow> s_closed s \<or> virgin s))"

lemma calm_step:
  assumes calm: "calm as w" and o: "only_wakes (act_key a) w w'"
    and own: "\<And>t. sessions w' (act_key a) = Some t \<Longrightarrow>
        drain_safe t \<and> (quiet (act_key a) (a # as) \<longrightarrow> s_closed t \<or> virgin t)"
  shows "calm (a # as) w'"
  unfolding calm_def
proof (intro allI impI)
  fix j t assume t: "sessions w' j = Some t"
  show "drain_safe t \<and> (quiet j (a # as) \<longrightarrow> s_closed t \<or> virgin t)"
  proof (cases "j = act_key a")
    case True
    then show ?thesis using own t by simp
  next
    case False
    with o t consider "sessions w j = Some t"
      | s where "sessions w j = Some s" "s_is_linked s" "t = grant s"
      unfolding only_wakes_def by (metis option.inject)
    then show ?thesis
    proof cases
      case 1
      then show ?thesis using calm quiet_other [of a j as] False unfolding calm_def by auto
    next
      case 2
      then have "drain_safe s" "quiet j as \<Longrightarrow> s_closed s"
        using calm unfolding calm_def by (auto simp: virgin_def)
      then show ?thesis
        using 2 quiet_other [of a j as] False drain_safe_grant by auto
    qed
  qed
qed

lemma calm_local:
  assumes calm: "calm as w" and l: "step_local (act_key a) w w'" and s: "sessions w (act_key a) = Some s"
    and q: "quiet (act_key a) (a # as) \<longrightarrow> quiet (act_key a) as"
  shows "calm (a # as) w'"
proof (rule calm_step [OF calm])
  show "only_wakes (act_key a) w w'" using l by (simp add: step_local_def)
  fix t assume "sessions w' (act_key a) = Some t"
  then show "drain_safe t \<and> (quiet (act_key a) (a # as) \<longrightarrow> s_closed t \<or> virgin t)"
    using calm l s q unfolding calm_def settles_def step_local_def by blast
qed

lemma recv_call_result:
  assumes ok: "pcc_ok w" and s: "sessions w k = Some s" "\<not> s_closed s" and core: "in_core (rv_ctl r) < mc"
    and spawn: "rv_spawn r = 0"
  obtains res w' t where "recv_call mc r k w = Some (res, w')" and "only_wakes k w w'"
    and "sessions w' k = Some t" and "s_pc t = s_pc s" and "s_credit t \<le> s_credit s"
    and "s_is_linked t \<longrightarrow> s_is_linked s"
proof -
  note so = pcc_okD(3) [OF ok s(1)]
  have pc: "s_pc s \<noteq> SDone" using so s(2) by (auto simp: sess_ok_def sender_ok_def)
  note S = slots_okD [OF sess_okD(1) [OF so] pc]
  note ok1 = same_books_pcc_ok [OF same_books_intros(1) ok]
  note B = same_booksD(1) [OF same_books_intros(1)] same_booksD(1) [OF same_books_intros(2)]
    same_booksD(1) [OF same_books_intros(3)]
  have s1: "sessions (note_rx w) k = Some s" using s(1) B(1) by simp
  consider "bm_set (s_avail_slots s) = {}"
    | "bm_set (s_avail_slots s) \<noteq> {}" "rv_payload_ret r \<le> 0"
    | "bm_set (s_avail_slots s) \<noteq> {}" "rv_payload_ret r > 0" by linarith
  then show ?thesis
  proof cases
    case 1
    show ?thesis
      by (rule that [of "RecvRet 0" "note_rx_drop (srpc_pcc_micro_exp_id (ctl w)) (rv_now r) (rv_us r) (note_rx w)" s])
        (use s(1) srpc_get_slot_none [OF S(1) 1] in \<open>simp_all add: recv_call_def Let_def only_wakes_def B\<close>)
  next
    case 2
    obtain i s' where
      g: "srpc_get_slot (rv_mem r) s = (int i, s')" "s_pc s' = s_pc s" "s_credit s' = s_credit s"
        "s_is_linked s' = s_is_linked s" by (rule srpc_get_slot_some [OF S(1) 2(1), of "rv_mem r"]) auto
    show ?thesis
      by (rule that [of "RecvRet (if rv_payload_ret r = 0 then - EIO else rv_payload_ret r)"
            "put_sess k (srpc_put_slot i s') (note_rx w)" "srpc_put_slot i s'"])
        (use s(1) 2(2) g in \<open>simp_all add: recv_call_def Let_def only_wakes_def put_sess_def srpc_put_slot_def B\<close>)
  next
    case 3
    obtain i c cr d where
      i: "i \<in> bm_set (s_avail_slots s)" "c_idx c = i" and cr: "0 \<le> cr" "cr \<le> 63" "cr \<le> s_credit s"
      and d: "\<And>e. distinct (list_h (d e) @ list_l (d e))"
        "\<And>e. set (list_h (d e)) \<union> set (list_l (d e)) = drained_set w e - {k}"
      and eq: "recv_call mc r k w =
        recv_took mc r k i (srpc_pcc_micro_exp_id (ctl w)) (took_slot i c (ch_demand (rv_hdr r)) cr s)
        (took_world d cr s (note_rx w))" by (rule recv_call_took [OF ok s 3, of mc]) blast
    define s4 where "s4 = took_slot i c (ch_demand (rv_hdr r)) cr s"
    define w4 where "w4 = took_world d cr s (note_rx w)"
    have f4: "s_pc s4 = s_pc s" "s_credit s4 = cr" "\<not> s_is_linked s4" "s_slots s4 i = Some c"
      "sessions w4 = sessions w" by (simp_all add: s4_def took_slot_def w4_def took_world_def B)
    show ?thesis
    proof (cases "rv_us r \<ge> SPCC_QDELAY_BUDGET")
      case True
      have d': "set (list_h (d e)) \<union> set (list_l (d e)) = drained_set (note_rx w) e - {k}" for e
        using d(2) by (simp add: same_booksD(3) [OF same_books_intros(1)])
      let ?t = "s4\<lparr>s_slots := (s_slots s4)(i \<mapsto> c\<lparr>c_drop := True\<rparr>),
        s_completed_slots := bitmap_set (s_completed_slots s4) i, s_sender_th := False\<rparr>"
      obtain ks w5 where w5: "srpc_update_credit_pool mc (rv_ctl r) (put_sess k s4 w4) = Some w5"
        "sessions w5 k = Some s4" "ctl_effect ks (put_sess k s4 w4) w5"
        by (rule recv_call_drop_ok [OF ok1 s1 s(2) core i cr(1,2) d(1) d' s4_def w4_def refl])
      define w6 where "w6 = note_rx_drop (srpc_pcc_micro_exp_id (ctl w)) (rv_now r) (rv_us r)
        (emit (ready_sender k s4) (put_sess k ?t w5))"
      have w6: "sessions w6 = (sessions w5)(k \<mapsto> ?t)" by (simp add: w6_def B put_sess_def)
      have "only_wakes k w w6"
        by (rule only_wakes_put [OF w5(3) _ w6]) (simp add: put_sess_def f4 del: fun_upd_apply)
      moreover have "recv_call mc r k w = Some (RecvAgain, w6)"
        using True w5(1,2) f4(4) unfolding eq s4_def [symmetric] w4_def [symmetric]
        by (simp add: recv_took_def w6_def)
      ultimately show ?thesis using w6 f4 cr(3) by (intro that [of RecvAgain w6 ?t]) simp_all
    next
      case False
      let ?t = "s4\<lparr>s_workers := insert i (s_workers s4)\<rparr>"
      let ?w = "emit [SpawnWorker k i] (put_sess k ?t w4)"
      have w: "sessions ?w = (sessions w)(k \<mapsto> ?t)" by (simp add: B put_sess_def f4)
      moreover have "recv_call mc r k w = Some (RecvRet 0, ?w)"
        using False spawn unfolding eq s4_def [symmetric] w4_def [symmetric]
        by (simp add: recv_took_def BUG_ON_def)
      ultimately show ?thesis
        using only_wakes_upd [OF w] f4 cr(3) by (intro that [of "RecvRet 0" ?w ?t]) simp_all
    qed
  qed
qed

lemma adjust_credit_frame:
  "adjust_credit s w = (s', w') \<Longrightarrow> s_pc s' = s_pc s \<and> sessions w' = sessions w"
  by (auto simp: adjust_credit_def Let_def split: if_splits)

lemma recv_credit_first:
  assumes ok: "pcc_ok w" and s: "sessions w k = Some s" "\<not> s_closed s" and v: "virgin s"
    and dem: "0 < ch_demand (rv_hdr r)"
  obtains res w' t where "recv_credit r k w = Some (res, w')" and "only_wakes k w w'"
    and "sessions w' k = Some t" and "s_pc t = SWait"
proof (cases "ch_len (rv_hdr r) = 0")
  case True
  let ?s = "s\<lparr>s_demand := ch_demand (rv_hdr r), s_sender_th := False, s_need_ecredit := True\<rparr>"
  obtain t w1 where a: "adjust_credit ?s w = (t, w1)" by fastforce
  have "s_num_pending s = 0"
    using sess_okD(3) [OF pcc_okD(3) [OF ok s(1)]] s(2) v by (simp add: credit_ok_def virgin_def)
  moreover have "s_drained_core s = -1" using pcc_okD(5) [OF ok s(1)] v by (simp add: sess_drained_ok_def virgin_def)
  ultimately obtain es st where "recv_credit r k w = Some (RecvAgain, (emit es (put_sess k t w1))\<lparr>stat := st\<rparr>)"
    using True s(1) v dem a by (simp add: recv_credit_def BUG_ON_def virgin_def Let_def)
  moreover have "sessions ((emit es (put_sess k t w1))\<lparr>stat := st\<rparr>) = (sessions w)(k \<mapsto> t)"
    using adjust_credit_frame [OF a] by (simp add: emit_def put_sess_def)
  ultimately show ?thesis
    using adjust_credit_frame [OF a] v only_wakes_upd [of _ w k]
    by (intro that [of RecvAgain "(emit es (put_sess k t w1))\<lparr>stat := st\<rparr>" t]) (auto simp: virgin_def)
next
  case False
  then show ?thesis
    using s(1) v that [of "RecvRet (- EINVAL)" w s] by (simp add: recv_credit_def only_wakes_def virgin_def)
qed

lemma calm_open:
  assumes "calm as w" and "sessions w k = None" and "srpc_server_open ret spawn k w = Some w'"
  shows "calm (Open k ret spawn # as) w'"
proof (rule calm_step [OF assms(1)])
  have w': "sessions w' = (sessions w)(k \<mapsto> fresh_session (srpc_num_sess w + 1))"
    using assms(3) by (auto simp: srpc_server_open_def fresh_session_def BUG_ON_def Let_def emit_def
        put_sess_def split: if_splits)
  then show "only_wakes (act_key (Open k ret spawn)) w w'" using only_wakes_upd by simp
  have "bm_set [0] = {}" by (auto simp: bm_set_def)
  then show "drain_safe t \<and> (quiet (act_key (Open k ret spawn)) (Open k ret spawn # as) \<longrightarrow>
      s_closed t \<or> virgin t)" if "sessions w' (act_key (Open k ret spawn)) = Some t" for t
    using that w' by (auto simp: fresh_session_def zero_session_def drain_safe_def virgin_def)
qed

lemma recv_polite:
  assumes ok: "pcc_ok w" and calm: "calm as w" and en: "pcc_enabled mc (Recv k r) w"
    and p: "polite_act as (Recv k r)"
  obtains w' where "pcc_exec mc (Recv k r) w = Some w'" and "calm (Recv k r # as) w'"
proof -
  from en obtain s where s: "sessions w k = Some s" "\<not> s_closed s" and core: "in_core (rv_ctl r) < mc" by auto
  have ds: "drain_safe s" using calm s(1) by (simp add: calm_def)
  have step: "calm (Recv k r # as) w'"
    if "only_wakes k w w'" "sessions w' k = Some t" "drain_safe t" "0 < rv_ret r" for w' t
    by (rule calm_step [OF calm]) (use that in auto)
  have stay: "calm (Recv k r # as) w" using calm by (auto simp: calm_def)
  show ?thesis
  proof (cases "rv_ret r \<le> 0 \<or> ch_magic (rv_hdr r) \<noteq> PCC_REQ_MAGIC \<or> ch_len (rv_hdr r) > SRPC_BUF_SIZE \<or>
      ch_op (rv_hdr r) \<noteq> PCC_OP_CALL \<and> ch_op (rv_hdr r) \<noteq> PCC_OP_CREDIT")
    case True
    then show ?thesis by (intro that [OF _ stay]) (auto simp: srpc_recv_msg_def)
  next
    case False
    show ?thesis
    proof (cases "ch_op (rv_hdr r) = PCC_OP_CALL")
      case True
      obtain res w' t where r: "recv_call mc r k w = Some (res, w')" "only_wakes k w w'"
        "sessions w' k = Some t" "s_pc t = s_pc s" "s_credit t \<le> s_credit s" "s_is_linked t \<longrightarrow> s_is_linked s"
        by (rule recv_call_result [OF ok s core]) (use p in auto)
      have "drain_safe t" using drain_safe_same [OF ds r(4-6)] .
      then show ?thesis using that step [OF r(2,3)] r(1) True False by (auto simp: srpc_recv_msg_def)
    next
      case credit: False
      then have c: "quiet k as" "0 < ch_demand (rv_hdr r)" using False p by auto
      have "virgin s" using calm s c(1) by (auto simp: calm_def)
      from recv_credit_first [OF ok s this c(2)] obtain res w' t where r: "recv_credit r k w = Some (res, w')"
        "only_wakes k w w'" "sessions w' k = Some t" "s_pc t = SWait" by blast
      have "drain_safe t" using r(4) by (simp add: drain_safe_def)
      then show ?thesis using that step [OF r(2,3)] r(1) credit False by (auto simp: srpc_recv_msg_def)
    qed
  qed
qed

lemma drain_total:
  assumes "pcc_ok w" and "calm as w" and s: "sessions w k = Some s" and "s_pc s = SDrain cr dc"
  shows "srpc_sender_drain core now cr dc k w \<noteq> None"
proof -
  have "\<not> s_is_linked s \<and> s_credit s \<le> 0" if "cr = 0" "dc = -1"
    using assms that by (auto simp: calm_def drain_safe_def)
  then show ?thesis using s by (auto simp: srpc_sender_drain_def BUG_ON_def Let_def)
qed

lemma polite_step:
  assumes ok: "pcc_ok w" and calm: "calm as w" and en: "pcc_enabled mc a w" and p: "polite_act as a"
  obtains w' where "pcc_exec mc a w = Some w'" and "calm (a # as) w'"
proof (cases a)
  case (Open k ret spawn)
  then have "srpc_server_open ret spawn k w \<noteq> None" using p by (simp add: srpc_server_open_def BUG_ON_def Let_def)
  then obtain w' where "srpc_server_open ret spawn k w = Some w'" by auto
  then show ?thesis using that calm_open [OF calm] en Open by simp
next
  case (Recv k r)
  then show ?thesis using that recv_polite [OF ok calm] en p by metis
next
  case (Worker k idx i h)
  then obtain s where s: "sessions w k = Some s" using en by auto
  from worker_ok [OF ok, of mc k idx i h] en Worker obtain w' where
    "srpc_worker h mc i k idx w = Some w'" "step_local k w w'" by auto
  then show ?thesis using that calm_local [OF calm, of a w' s] s Worker by simp
next
  case (Collect k rd now)
  then obtain s where s: "sessions w k = Some s" using en by auto
  from collect_ok [OF ok, of mc k rd now] en Collect obtain w' where
    "srpc_sender_collect (int mc) rd now k w = Some w'" "step_local k w w'" by auto
  then show ?thesis using that calm_local [OF calm, of a w' s] s Collect by simp
next
  case (Ecredit k junk ret)
  then obtain s where s: "sessions w k = Some s" using en by auto
  from ecredit_ok [OF ok, of mc k junk ret] en Ecredit obtain w' where
    "srpc_sender_ecredit junk ret k w = Some w'" "step_local k w w'" by auto
  then show ?thesis using that calm_local [OF calm, of a w' s] s Ecredit by simp
next
  case (Respond k ret)
  then obtain s tmp c d where s: "sessions w k = Some s" "s_pc s = SSend tmp c d" using en by auto
  from respond_ok [OF ok s, of ret] obtain w' where
    "srpc_sender_respond ret tmp c d k w = Some w'" "step_local k w w'" by auto
  then show ?thesis using that calm_local [OF calm, of a w' s] s Respond by simp
next
  case (Drain k core now)
  then obtain s c d where s: "sessions w k = Some s" "s_pc s = SDrain c d" using en by auto
  then obtain w' where w': "srpc_sender_drain core now c d k w = Some w'"
    using drain_total [OF ok calm] by blast
  then show ?thesis using that calm_local [OF calm, of a w' s] drain_local [OF s w'] s Drain by simp
next
  case (SenderClose k)
  then obtain s where s: "sessions w k = Some s" using en by auto
  from sender_close_ok [OF ok, of mc k] en SenderClose obtain w' where
    "srpc_sender_close k w = Some w'" "step_local k w w'" by auto
  then show ?thesis using that calm_local [OF calm, of a w' s] s SenderClose by simp
next
  case (Close k)
  then obtain s where s: "sessions w k = Some s" "\<not> s_closed s" using en by auto
  from close_ok [OF ok s] obtain w' where "srpc_server_close k w = Some w'" "step_local k w w'" by blast
  then show ?thesis using that calm_local [OF calm, of a w' s] s Close by simp
next
  case (Finish k)
  then obtain s where s: "sessions w k = Some s" "s_pc s = SDone" using en by auto
  from finish_ok [OF ok s] obtain w' where "srpc_server_finish (int mc) k w = Some w'" "step_local k w w'" by blast
  then show ?thesis using that calm_local [OF calm, of a w' s] s Finish by simp
qed

lemma polite_run:
  assumes "pcc_run mc w0 as w" and "polite as" and "pcc_ok w0" and "sessions w0 = Map.empty"
  shows "pcc_ok w \<and> calm as w"
  using assms
proof (induction rule: pcc_run.induct)
  case init
  then show ?case by (simp add: calm_def)
next
  case (step as w a w')
  then have "pcc_ok w" "calm as w" "polite_act as a" by auto
  then show ?case using polite_step [of w as mc a] pcc_step_ok step.hyps by (metis option.inject)
qed

section \<open>A closed session ends\<close>

fun rank :: "sender_pc \<Rightarrow> nat" where
  "rank (SSend tmp cr dc) = 6"
| "rank (SDrain cr dc) = 5"
| "rank SCredit = 5"
| "rank SWait = 4"
| "rank SClose = 3"
| "rank SDone = 2"

text \<open>The next action of the sender, or of the session's thread once the sender is done.\<close>

fun next_act :: "nat \<Rightarrow> pcc \<Rightarrow> sender_pc \<Rightarrow> pcc_act" where
  "next_act k w SWait = Collect k (w\<lparr>srpc_num_sess := 1\<rparr>) 0"
| "next_act k w SCredit = Ecredit k undefined 0"
| "next_act k w (SSend tmp cr dc) = Respond k 0"
| "next_act k w (SDrain cr dc) = Drain k 0 0"
| "next_act k w SClose = SenderClose k"
| "next_act k w SDone = Finish k"

definition idle :: "spcc_session \<Rightarrow> bool" where
  "idle s \<longleftrightarrow> s_closed s \<and> s_workers s = {}"

lemma fold_put_slot_frame:
  "s_workers (fold srpc_put_slot is' s) = s_workers s \<and> s_closed (fold srpc_put_slot is' s) = s_closed s"
  by (induction is' arbitrary: s) (simp_all add: srpc_put_slot_def)

lemma remove_frame:
  "s_workers (fst (srpc_remove_from_drained_list k s w)) = s_workers s \<and>
   s_closed (fst (srpc_remove_from_drained_list k s w)) = s_closed s"
  by (simp add: srpc_remove_from_drained_list_def Let_def)

lemma idle_not_parked:
  assumes so: "sess_ok s" and i: "idle s"
  shows "\<not> s_sender_th s"
proof
  assume th: "s_sender_th s"
  have "s_pc s = SClose" "card (bm_set (s_avail_slots s)) + card (bm_set (s_completed_slots s)) < 64"
    using sess_okD(2) [OF so] i th by (auto simp: sender_ok_def idle_def sender_sleep_def)
  moreover from this have "s_pc s \<noteq> SDone" by simp
  note S = slots_okD(4) [OF sess_okD(1) [OF so] this]
  ultimately show False using part4_card [OF S] i by (simp add: idle_def)
qed

lemma idle_step:
  assumes ok: "pcc_ok w" and calm: "calm as w" and s: "sessions w k = Some s" and i: "idle s" and mc: "0 < mc"
  shows "pcc_enabled mc (next_act k w (s_pc s)) w" and "polite_act as (next_act k w (s_pc s))"
    and "pcc_exec mc (next_act k w (s_pc s)) w = Some w' \<Longrightarrow> sessions w' k = Some t \<Longrightarrow>
      idle t \<and> rank (s_pc t) < rank (s_pc s)"
proof -
  note so = pcc_okD(3) [OF ok s]
  have th: "\<not> s_sender_th s" using idle_not_parked [OF so i] .
  show "pcc_enabled mc (next_act k w (s_pc s)) w"
    using s th mc sess_okD(2) [OF so] by (cases "s_pc s") (auto simp: sender_ok_def)
  show "polite_act as (next_act k w (s_pc s))" by (cases "s_pc s") auto
  assume run: "pcc_exec mc (next_act k w (s_pc s)) w = Some w'" and t: "sessions w' k = Some t"
  show "idle t \<and> rank (s_pc t) < rank (s_pc s)"
  proof (cases "s_pc s")
    case SWait
    then show ?thesis
      using run s t i by (auto simp: idle_def srpc_sender_collect_def sender_sleep_def put_sess_def)
  next
    case SCredit
    then show ?thesis
      using run s t i by (auto simp: idle_def srpc_sender_ecredit_def put_sess_def Let_def
          srpc_send_ecredit_def split: if_splits)
  next
    case (SSend tmp cr dc)
    then show ?thesis
      using run s t i fold_put_slot_frame by (auto simp: idle_def srpc_sender_respond_def put_sess_def
          srpc_send_completion_vector_def Let_def bind_eq_Some_conv split: if_splits)
  next
    case (SDrain cr dc)
    then show ?thesis
      using run s t i by (auto simp: idle_def srpc_sender_drain_def put_sess_def set_drained_def
          BUG_ON_def Let_def split: if_splits)
  next
    case SClose
    then have "s_pc s \<noteq> SDone" by simp
    note S = slots_okD [OF sess_okD(1) [OF so] this]
    have "\<not> card (bm_set (s_avail_slots s)) + card (bm_set (s_completed_slots s)) < 64"
      using part4_card [OF S(4)] i SClose by (simp add: idle_def)
    then have "\<not> bitmap_popcount (s_avail_slots s) SPCC_MAX_WINDOW +
        bitmap_popcount (s_completed_slots s) SPCC_MAX_WINDOW < SPCC_MAX_WINDOW"
      using window_popcount [OF S(1)] window_popcount [OF S(2)] by (simp add: SPCC_MAX_WINDOW_def)
    then show ?thesis
      using run s t i SClose fold_put_slot_frame remove_frame
      by (auto simp: idle_def srpc_sender_close_def put_sess_def Let_def split_beta)
  next
    case SDone
    then show ?thesis using run s t by (auto simp: srpc_server_finish_def Let_def split: if_splits)
  qed
qed

lemma pcc_run_trans:
  "pcc_run mc w1 bs w2 \<Longrightarrow> pcc_run mc w0 as w1 \<Longrightarrow> pcc_run mc w0 (bs @ as) w2"
  by (induction rule: pcc_run.induct) (auto intro: pcc_run.intros)

lemma idle_ends:
  assumes "pcc_ok w" and "calm as w" and "sessions w k = Some s" and "idle s" and "0 < mc"
  shows "\<exists>bs w'. pcc_run mc w bs w' \<and> sessions w' k = None \<and> length bs \<le> 5 \<and> (\<forall>b\<in>set bs. act_key b = k)"
proof -
  have "\<exists>bs w'. pcc_run mc w bs w' \<and> sessions w' k = None \<and> length bs \<le> rank (s_pc s) - 1 \<and>
      (\<forall>b\<in>set bs. act_key b = k)"
    using assms(1-4)
  proof (induction "rank (s_pc s)" arbitrary: as w s rule: less_induct)
    case less
    let ?a = "next_act k w (s_pc s)"
    note st = idle_step [OF less.prems assms(5)]
    from polite_step [OF less.prems(1,2) st(1,2)] obtain w1 where
      w1: "pcc_exec mc ?a w = Some w1" "calm (?a # as) w1" by blast
    have ok1: "pcc_ok w1" using pcc_step_ok [OF less.prems(1) st(1) w1(1)] .
    have run1: "pcc_run mc w [?a] w1" using st(1) w1(1) by (auto intro: pcc_run.intros)
    have key: "act_key ?a = k" by (cases "s_pc s") auto
    have r2: "2 \<le> rank (s_pc s)" by (cases "s_pc s") auto
    show ?case
    proof (cases "sessions w1 k")
      case None
      then show ?thesis using run1 key r2 by (intro exI [of _ "[?a]"] exI [of _ w1]) auto
    next
      case (Some t)
      note t = st(3) [OF w1(1) Some]
      have "rank (s_pc t) < rank (s_pc s)" "idle t" using t by auto
      from less.hyps [OF this(1) ok1 w1(2) Some this(2)] obtain bs w' where
        w': "pcc_run mc w1 bs w'" "sessions w' k = None" "length bs \<le> rank (s_pc t) - 1"
          "\<forall>b\<in>set bs. act_key b = k" by blast
      have "pcc_run mc w (bs @ [?a]) w'" using pcc_run_trans [OF w'(1) run1] .
      moreover have "2 \<le> rank (s_pc t)" by (cases "s_pc t") auto
      ultimately show ?thesis
        using w'(2-4) t key by (intro exI [of _ "bs @ [?a]"] exI [of _ w']) auto
    qed
  qed
  moreover have "rank (s_pc s) - 1 \<le> 5" by (cases "s_pc s") auto
  ultimately show ?thesis by (meson order_trans)
qed

lemma msum_count:
  assumes "finite (dom m)"
  shows "msum (\<lambda>s. of_bool (P s)) m = int (card {k. \<exists>s. m k = Some s \<and> P s})"
proof -
  have "{k. \<exists>s. m k = Some s \<and> P s} = {k \<in> dom m. P (the (m k))}" by (auto simp: dom_def)
  moreover have "(\<Sum>k\<in>dom m. of_bool (P (the (m k)))) = int (card {k \<in> dom m. P (the (m k))})"
    using assms by (simp add: of_bool_def sum.If_cases Int_def)
  ultimately show ?thesis by (simp add: msum_def)
qed

section \<open>A small run\<close>

text \<open>The server after initialisation; one session opened; its sender parked; its connection closed.\<close>

definition init_pcc :: pcc where
  "init_pcc = srpc_listener_init 4 0 0 0 zero_pcc"

definition opened_pcc :: pcc where
  "opened_pcc = emit [SpawnSender 0] (put_sess 0 (fresh_session 1) (init_pcc\<lparr>srpc_num_sess := 1\<rparr>))"

definition parked_session :: spcc_session where
  "parked_session = (fresh_session 1)\<lparr>s_sender_th := True\<rparr>"

definition parked_pcc :: pcc where
  "parked_pcc = put_sess 0 parked_session opened_pcc"

definition closed_session :: spcc_session where
  "closed_session = parked_session\<lparr>s_sender_th := False, s_closed := True, s_num_pending := 0, s_demand := 0\<rparr>"

definition closed_pcc :: pcc where
  "closed_pcc = the (srpc_server_close 0 parked_pcc)"

abbreviation small_run :: "pcc_act list" where
  "small_run \<equiv> [Close 0, Collect 0 opened_pcc 0, Open 0 1 0]"

lemma init_pcc_ok: "pcc_ok init_pcc" "sessions init_pcc = Map.empty"
  unfolding init_pcc_def by (rule init_ok) (simp_all add: zero_pcc_def srpc_listener_init_def)

lemma opened_sessions: "sessions opened_pcc = [0 \<mapsto> fresh_session 1]" "srpc_num_sess opened_pcc = 1"
  by (simp_all add: opened_pcc_def emit_def put_sess_def init_pcc_ok(2))

lemma fresh_simps:
  "s_pc (fresh_session i) = SWait" "\<not> s_sender_th (fresh_session i)" "\<not> s_closed (fresh_session i)"
  "sender_sleep (fresh_session i)" "\<not> s_is_linked (fresh_session i)" "s_credit (fresh_session i) = 0"
  "s_num_pending (fresh_session i) = 0" "s_demand (fresh_session i) = 0" "s_drained_core (fresh_session i) = -1"
  "s_workers (fresh_session i) = {}"
proof -
  have "bm_set [0] = {}" "window_ok [0]" by (auto simp: bm_set_def window_ok_def)
  then show "sender_sleep (fresh_session i)"
    using window_popcount [of "[0]"] by (simp add: sender_sleep_def fresh_session_def zero_session_def)
qed (simp_all add: fresh_session_def zero_session_def)

lemma small_runs:
  "pcc_run 4 init_pcc [Open 0 1 0] opened_pcc"
  "pcc_run 4 init_pcc [Collect 0 opened_pcc 0, Open 0 1 0] parked_pcc"
  "pcc_run 4 init_pcc small_run closed_pcc" "sessions closed_pcc 0 = Some closed_session"
proof -
  show 1: "pcc_run 4 init_pcc [Open 0 1 0] opened_pcc"
    by (rule pcc_run.step [OF pcc_run.init])
      (simp_all add: init_pcc_ok srpc_server_open_def BUG_ON_def Let_def opened_pcc_def fresh_session_def,
       simp add: init_pcc_def srpc_listener_init_def)
  show 2: "pcc_run 4 init_pcc [Collect 0 opened_pcc 0, Open 0 1 0] parked_pcc"
    by (rule pcc_run.step [OF 1])
      (simp_all add: opened_sessions fresh_simps srpc_sender_collect_def parked_pcc_def parked_session_def)
  have c: "srpc_server_close 0 parked_pcc = Some closed_pcc"
    by (simp add: parked_pcc_def put_sess_def srpc_server_close_def closed_pcc_def parked_session_def
        fresh_simps Let_def)
  show "pcc_run 4 init_pcc small_run closed_pcc"
    by (rule pcc_run.step [OF 2]) (simp_all add: c, simp add: parked_pcc_def put_sess_def parked_session_def fresh_simps)
  show "sessions closed_pcc 0 = Some closed_session"
    by (simp add: closed_pcc_def srpc_server_close_def parked_pcc_def put_sess_def parked_session_def
        closed_session_def fresh_simps Let_def emit_def)
qed

definition zero_ctx :: spcc_ctx where
  "zero_ctx = \<lparr>c_idx = 0, c_id = 0, c_req_len = 0, c_resp_len = 0, c_req_buf = [], c_resp_buf = [],
     c_drop = False, c_ds_credit = 0, c_ts_sent = 0, c_opaque = 0\<rparr>"

definition credit_msg :: recv_in where
  "credit_msg = \<lparr>rv_ret = 48, rv_hdr = \<lparr>ch_magic = PCC_REQ_MAGIC, ch_op = PCC_OP_CREDIT, ch_len = 0,
     ch_id = 0, ch_demand = 3, ch_ts_sent = 0, ch_flags = 0\<rparr>, rv_mem = zero_ctx,
     rv_payload_ret = 0, rv_payload = [], rv_us = 0, rv_now = 0, rv_core = 0, rv_spawn = 0, rv_ctl = zero_in\<rparr>"

definition asked_session :: spcc_session where
  "asked_session = (fresh_session 1)\<lparr>s_demand := 3, s_sender_th := False, s_need_ecredit := True\<rparr>"

definition asked_pcc :: pcc where
  "asked_pcc = the (pcc_exec 4 (Recv 0 credit_msg) opened_pcc)"

lemma asked: "pcc_exec 4 (Recv 0 credit_msg) opened_pcc = Some asked_pcc" "sessions asked_pcc 0 = Some asked_session"
  "srpc_num_drained asked_pcc = 0"
  by (simp_all add: asked_pcc_def srpc_recv_msg_def credit_msg_def PCC_OP_CREDIT_def PCC_OP_CALL_def
      SRPC_BUF_SIZE_def recv_credit_def opened_sessions fresh_simps BUG_ON_def Let_def adjust_credit_def
      u64_of_int_def asked_session_def emit_def put_sess_def)
    (simp add: opened_pcc_def emit_def put_sess_def init_pcc_def srpc_listener_init_def)

definition busy_reading :: pcc where
  "busy_reading = zero_pcc\<lparr>srpc_num_sess := 5\<rparr>"

lemma busy_credit:
  assumes "s_drained_core s = -1" and "s_credit s = 0" and "\<not> s_wake_up s" and "s_num_pending s = 0"
  shows "srpc_update_credit 4 busy_reading b s w = Some (s, w)"
proof -
  have c: "credit_unclamped 4 busy_reading b s = 0"
    using assms by (simp add: credit_unclamped_def busy_reading_def zero_pcc_def seen_pool_def Let_def)
  have "int_of_u64 (min (u64_of_int 0) d) = 0" for d
    by (simp add: u64_of_int_def int_of_u64_def)
  then show ?thesis
    using assms by (simp add: srpc_update_credit_def c Let_def SPCC_MAX_WINDOW_def)
      (simp add: busy_reading_def)
qed

lemma empty_window:
  "bitmap_for_each_set [0] SPCC_MAX_WINDOW = []" "bitmap_popcount [0] SPCC_MAX_WINDOW = 0" "bm_set [0] = {}"
proof -
  show e: "bm_set [0] = {}" by (auto simp: bm_set_def)
  have "window_ok [0]" by (simp add: window_ok_def)
  then show "bitmap_for_each_set [0] SPCC_MAX_WINDOW = []" "bitmap_popcount [0] SPCC_MAX_WINDOW = 0"
    using window_each(1) [of "[0]"] window_popcount [of "[0]"] e by simp_all
qed

lemma collected:
  "\<exists>w s. pcc_exec 4 (Collect 0 busy_reading 0) asked_pcc = Some w \<and> sessions w 0 = Some s \<and>
    s_pc s = SSend [0] 0 (-1) \<and> s_credit s = 0 \<and> \<not> s_is_linked s \<and> \<not> s_closed s \<and>
    srpc_num_drained w = 0 \<and> bm_set (s_avail_slots s) = {..<64}"
proof -
  have f: "s_completed_slots (fresh_session 1) = [0]" "\<not> s_wake_up (fresh_session 1)"
    "s_advertised (fresh_session 1) = 0" "bm_set (s_avail_slots (fresh_session 1)) = {..<64}"
    by (simp_all add: fresh_session_def zero_session_def window_init)
  show ?thesis using asked(2,3)
    by (simp add: srpc_sender_collect_def asked_session_def sender_sleep_def fresh_simps collect_completed_def
        Let_def empty_window f busy_credit put_sess_def)
qed

lemma collected_run:
  obtains w s where "pcc_run 4 init_pcc [Collect 0 busy_reading 0, Recv 0 credit_msg, Open 0 1 0] w"
    and "sessions w 0 = Some s" and "s_pc s = SSend [0] 0 (-1)" and "s_credit s = 0" and "\<not> s_is_linked s"
    and "\<not> s_closed s" and "srpc_num_drained w = 0" and "bm_set (s_avail_slots s) = {..<64}"
proof -
  have r: "pcc_run 4 init_pcc [Recv 0 credit_msg, Open 0 1 0] asked_pcc"
    by (rule pcc_run.step [OF small_runs(1) _ asked(1)])
      (simp add: opened_sessions fresh_simps credit_msg_def zero_in_def)
  from collected obtain w s where w: "pcc_exec 4 (Collect 0 busy_reading 0) asked_pcc = Some w"
    and s: "sessions w 0 = Some s" "s_pc s = SSend [0] 0 (-1)" "s_credit s = 0" "\<not> s_is_linked s"
      "\<not> s_closed s" "srpc_num_drained w = 0" "bm_set (s_avail_slots s) = {..<64}" by blast
  have "pcc_run 4 init_pcc [Collect 0 busy_reading 0, Recv 0 credit_msg, Open 0 1 0] w"
    by (rule pcc_run.step [OF r _ w]) (simp add: asked asked_session_def fresh_simps busy_reading_def)
  then show ?thesis using s by (rule that)
qed

lemma leak_run:
  obtains as w s where "pcc_run 4 init_pcc as w" and "sessions w 0 = Some s" and "s_closed s"
    and "s_pc s = SDrain 0 (-1)" and "bm_set (s_avail_slots s) = {..<64}" and "\<not> s_is_linked s"
    and "s_credit s = 0" and "srpc_num_drained w = 0"
proof -
  let ?as = "[Collect 0 busy_reading 0, Recv 0 credit_msg, Open 0 1 0]"
  obtain w s where r1: "pcc_run 4 init_pcc ?as w" and s: "sessions w 0 = Some s" "s_pc s = SSend [0] 0 (-1)"
    and f: "s_credit s = 0" "\<not> s_is_linked s" "\<not> s_closed s" "srpc_num_drained w = 0"
      "bm_set (s_avail_slots s) = {..<64}" by (rule collected_run)
  let ?s1 = "s\<lparr>s_pc := SDrain 0 (-1)\<rparr>"
  let ?w1 = "put_sess 0 ?s1 w"
  have r2: "pcc_run 4 init_pcc (Respond 0 0 # ?as) ?w1"
    by (rule pcc_run.step [OF r1])
      (use s empty_window in \<open>simp_all add: srpc_sender_respond_def srpc_send_completion_vector_def\<close>)
  obtain w2 where w2: "srpc_server_close 0 ?w1 = Some w2" "srpc_num_drained w2 = 0"
    "sessions w2 0 = Some (?s1\<lparr>s_sender_th := False, s_closed := True, s_num_pending := 0, s_demand := 0\<rparr>)"
    using f by (simp add: srpc_server_close_def put_sess_def emit_def Let_def)
  have "pcc_run 4 init_pcc (Close 0 # Respond 0 0 # ?as) w2"
    by (rule pcc_run.step [OF r2]) (use w2(1) f(3) in \<open>simp_all add: put_sess_def\<close>)
  then show ?thesis using w2(3) by (rule that) (use f w2(2) in simp_all)
qed

section \<open>Properties of the server\<close>


lemma zero_sessions: "sessions zero_pcc = Map.empty"
  by (simp add: zero_pcc_def)


text \<open>C2. In every run, each of the 64 slots of a session that has not ended is in exactly one
  of four states: free, held by a running worker, completed, or taken by the sender for
  transmission; a request context exists exactly for the slots that are not free, and knows its slot.\<close>

theorem slots_partition:
  assumes "pcc_run mc (srpc_listener_init (int mc) t1 t2 rnd w0) as w" and "sessions w0 = Map.empty"
    and "sessions w k = Some s" and "s_pc s \<noteq> SDone"
  shows "bm_set (s_avail_slots s) \<union> bm_set (s_completed_slots s) \<union> s_workers s \<union> in_flight (s_pc s) = {..<64} \<and>
    card (bm_set (s_avail_slots s)) + card (bm_set (s_completed_slots s)) + card (s_workers s) +
      card (in_flight (s_pc s)) = 64 \<and>
    (\<forall>i. s_slots s i \<noteq> None \<longleftrightarrow> i < 64 \<and> i \<notin> bm_set (s_avail_slots s)) \<and>
    (\<forall>i c. s_slots s i = Some c \<longrightarrow> c_idx c = i)"
proof -
  have ok: "pcc_ok w" using pcc_run_ok [OF assms(1) init_ok [OF assms(2)]] .
  note S = slots_okD [OF sess_okD(1) [OF pcc_okD(3) [OF ok assms(3)]] assms(4)]
  have "s_slots s i \<noteq> None \<longleftrightarrow> i \<in> dom (s_slots s)" for i by (simp add: domIff)
  then have "s_slots s i \<noteq> None \<longleftrightarrow> i < 64 \<and> i \<notin> bm_set (s_avail_slots s)" for i
    unfolding S(5) by simp
  then show ?thesis using S(4) part4_card [OF S(4)] S(6) by (simp add: part4_def)
qed

theorem slots_partition_witness:
  "(\<forall>i. s_slots (fresh_session 1) i \<noteq> None \<longleftrightarrow> i < 64 \<and> i \<notin> bm_set (s_avail_slots (fresh_session 1)))"
  using slots_partition [of 4 0 0 0 zero_pcc "[Open 0 1 0]" opened_pcc 0 "fresh_session 1"]
    small_runs(1) zero_sessions by (simp add: init_pcc_def opened_sessions fresh_simps)









text \<open>C9. Every completed request is answered once.  When the sender has taken the slots \<open>tmp\<close> it writes, in
  one message, one response for each of them, carrying the identifier of the request in the slot; it
  then frees exactly these slots and takes their number off \<open>srpc_num_pending\<close>.  With no slot taken
  it writes nothing.\<close>

theorem respond_answers_all:
  assumes "pcc_run mc (srpc_listener_init (int mc) t1 t2 rnd w0) as w" and "sessions w0 = Map.empty"
    and "sessions w k = Some s" and "s_pc s = SSend tmp cr dc"
  shows "\<exists>w' t es. pcc_exec mc (Respond k ret) w = Some w' \<and> sessions w' k = Some t \<and>
    bm_set (s_avail_slots t) = bm_set (s_avail_slots s) \<union> bm_set tmp \<and>
    (\<forall>i. s_slots t i = (if i \<in> bm_set tmp then None else s_slots s i)) \<and>
    srpc_num_pending w' = srpc_num_pending w - int (card (bm_set tmp)) \<and>
    map (\<lambda>e. sh_id (fst e)) es =
      map (\<lambda>i. c_id (the (s_slots s i))) (sorted_list_of_set (bm_set tmp)) \<and>
    io w' = io w @ (if bm_set tmp = {} then [] else [Write k es])"
proof -
  have ok: "pcc_ok w" using pcc_run_ok [OF assms(1) init_ok [OF assms(2)]] .
  have "s_pc s \<noteq> SDone" using assms(4) by simp
  note S = slots_okD [OF sess_okD(1) [OF pcc_okD(3) [OF ok assms(3)]] this]
  have wt: "window_ok tmp" and p4: "part4 (bm_set (s_avail_slots s)) (bm_set (s_completed_slots s)) (s_workers s) (bm_set tmp)"
    using S(3,4) assms(4) by simp_all
  let ?is = "bitmap_for_each_set tmp SPCC_MAX_WINDOW"
  note each = window_each [OF wt]
  have sub: "set ?is \<subseteq> {..<64}" using each(1) part4_finite(8) [OF p4] by simp
  have "set ?is \<subseteq> dom (s_slots s)" using each(1) sub p4 unfolding S(5) by (auto simp: part4_def)
  note es = completion_entries_some [OF this]
  have sorted: "?is = sorted_list_of_set (bm_set tmp)"
    using each(1,2) by (intro sorted_distinct_set_unique) (simp_all add: bitmap_for_each_set_filter sorted_wrt_filter part4_finite(4) [OF p4])
  have ids: "sh_id (fst (completion_entry s c)) = c_id c" for c
    by (simp add: completion_entry_def split_beta)
  from fold_put_slot [OF S(1) sub] obtain a where
    a: "fold srpc_put_slot ?is s = s\<lparr>s_slots := s_slots s |` (- set ?is), s_avail_slots := a\<rparr>"
      "bm_set a = bm_set (s_avail_slots s) \<union> bm_set tmp" using each(1) by auto
  show ?thesis
  proof (cases "?is = []")
    case True
    then show ?thesis
      using assms(3,4) each(1) es sorted
      by (auto simp: srpc_sender_respond_def srpc_send_completion_vector_def put_sess_def)
  next
    case False
    then have "bm_set tmp \<noteq> {}" using sorted by auto
    then show ?thesis
      using assms(3,4) es a each(1,3) False sorted [symmetric] ids
      by (simp add: srpc_sender_respond_def srpc_send_completion_vector_def put_sess_def emit_def Let_def
          restrict_map_def comp_def)
  qed
qed

theorem respond_answers_all_witness:
  "\<exists>w s w'. sessions w 0 = Some s \<and> s_pc s = SSend [0] 0 (-1) \<and> pcc_exec 4 (Respond 0 0) w = Some w' \<and> io w' = io w"
proof -
  obtain w s where w: "pcc_run 4 init_pcc [Collect 0 busy_reading 0, Recv 0 credit_msg, Open 0 1 0] w"
    "sessions w 0 = Some s" "s_pc s = SSend [0] 0 (-1)" by (rule collected_run)
  have "bm_set [0] = {}" by (auto simp: bm_set_def)
  then show ?thesis
    using respond_answers_all [of 4 0 0 0 zero_pcc "[Collect 0 busy_reading 0, Recv 0 credit_msg, Open 0 1 0]" w 0 s "[0]" 0 "-1" 0]
      w zero_sessions by (auto simp: init_pcc_def simp del: pcc_exec.simps)
qed

text \<open>C38. A session that is closed while its sender is on its way into the drained lists takes a
  credit with it.  The sender enters the closed session, without credit, into a list; the next
  wake-up grants it a credit and counts the credit in \<open>srpc_credit_used\<close>, although no open session
  has it.\<close>

theorem closed_session_leaks_credit:
  assumes ok: "pcc_ok w" and s: "sessions w k = Some s" "s_closed s" "s_pc s = SDrain 0 (-1)"
    and free: "bm_set (s_avail_slots s) = {..<64}" and un: "\<not> s_is_linked s" "s_credit s = 0"
    and none: "srpc_num_drained w = 0" and core: "core < mc"
  shows "\<exists>w1 w2. pcc_exec mc (Drain k core now) w = Some w1 \<and>
    wakeup_drained_session tm core mc 1 w1 = Some w2 \<and>
    srpc_credit_used w2 = srpc_credit_used w + 1 \<and>
    msum open_credit (sessions w2) = msum open_credit (sessions w)"
proof -
  have "s_pc s \<noteq> SDone" using s(3) by simp
  note S = slots_okD(1) [OF sess_okD(1) [OF pcc_okD(3) [OF ok s(1)]] this]
  have pop: "bitmap_popcount (s_avail_slots s) SPCC_MAX_WINDOW = SPCC_MAX_WINDOW"
    using window_popcount [OF S] free by (simp add: SPCC_MAX_WINDOW_def)
  then have "srpc_sender_drain core now 0 (-1) k w \<noteq> None"
    using s(1) un by (auto simp: srpc_sender_drain_def BUG_ON_def Let_def)
  then obtain w1 where w1: "srpc_sender_drain core now 0 (-1) k w = Some w1" by auto
  then obtain t where t: "sessions w1 = (sessions w)(k \<mapsto> t)" "s_is_linked t" "s_drained_core t = int core" "s_closed t"
    and u: "srpc_credit_used w1 = srpc_credit_used w" "srpc_num_drained w1 = 1"
    using s(1,2) un none pop
    by (auto simp: srpc_sender_drain_def BUG_ON_def Let_def set_drained_def put_sess_def split: if_splits)
  have ok1: "pcc_ok w1" by (rule drain_ok [OF ok s(1,3) w1])
  have un1: "\<not> s_is_linked r" if "sessions w j = Some r" for j r
    using msum_member_le [OF pcc_okD(4) [OF ok] that, of "\<lambda>s. of_bool (s_is_linked s)"]
      drained_okD(5) [OF pcc_okD(1) [OF ok]] none by (cases "s_is_linked r") auto
  have "cores_below mc w1" using t un1 core by (auto simp: cores_below_def split: if_splits)
  with wakeup_spec [OF pcc_okD(1) [OF ok1] core, of tm 1] obtain ks w2 where
    w2: "wakeup_drained_session tm core mc 1 w1 = Some w2" "woke ks w1 w2" "length ks \<le> 1"
      "length ks < 1 \<longrightarrow> srpc_num_drained w2 = 0" by blast
  have W: "sessions w2 = woken ks (sessions w1)" "srpc_credit_used w2 = srpc_credit_used w1 + int (length ks)"
    "srpc_num_drained w2 = 1 - int (length ks)" "\<forall>j\<in>set ks. \<exists>s. sessions w1 j = Some s \<and> s_is_linked s"
    using w2(2) u(2) by (auto simp: woke_def)
  have len: "length ks = 1" using W(3) w2(3,4) by (cases ks) auto
  then obtain j where ks: "ks = [j]" by (cases ks) auto
  have "j = k" using W(4) ks t(1) un1 by (auto split: if_splits)
  then have "sessions w2 = (sessions w)(k \<mapsto> grant t)"
    using W(1) t(1) ks by (auto simp: woken_def)
  then have "msum open_credit (sessions w2) = msum open_credit (sessions w)"
    using msum_update [OF pcc_okD(4) [OF ok] s(1), of open_credit "grant t"] t(4) s(2) by (simp add: open_credit_def)
  then show ?thesis using w1 w2(1) W(2) u(1) len s(1,3) by auto
qed

theorem closed_session_leaks_credit_witness:
  "\<exists>as w w1 w2. pcc_run 4 init_pcc as w \<and> pcc_exec 4 (Drain 0 0 0) w = Some w1 \<and>
    wakeup_drained_session (\<lambda>_. 0) 0 4 1 w1 = Some w2 \<and> srpc_credit_used w2 = srpc_credit_used w + 1 \<and>
    msum open_credit (sessions w2) = msum open_credit (sessions w)"
proof -
  obtain as w s where w: "pcc_run 4 init_pcc as w" "sessions w 0 = Some s" "s_closed s"
    "s_pc s = SDrain 0 (-1)" "bm_set (s_avail_slots s) = {..<64}" "\<not> s_is_linked s"
    "s_credit s = 0" "srpc_num_drained w = 0" by (rule leak_run)
  have "pcc_ok w" using pcc_run_ok [OF w(1)] init_pcc_ok by simp
  from closed_session_leaks_credit [OF this w(2-8), of 0 4 0 "\<lambda>_. 0"] w(1) show ?thesis by auto
qed

end
