(* ===== verification/Pcc_Client.thy ===== *)
theory Pcc_Client
  imports Pcc_State
begin

text \<open>
  The client of the PCC protocol, \<^verbatim>\<open>breakwater/src/pcc_client.c\<close>: the bounded queue of
  requests that wait for credit, the credit of each connection, and the messages the client
  writes.  A session's mutex makes each function one step.  What the transport returns, the
  clock, and memory the code leaves uninitialised are inputs; writes and the calls of the drop handlers
  are appended to \<open>cs_io\<close>.

  \<^verbatim>\<open>head\<close> and \<^verbatim>\<open>tail\<close> are 32-bit counters that wrap around; \<open>queue\<close> is the sequence of
  requests between them, and the second half of the theory shows that the operations on the ring
  are the operations on that sequence.
\<close>

section \<open>State\<close>

definition SRPC_PORT :: u32 where "SRPC_PORT = 8123"
definition CRPC_QLEN :: nat where "CRPC_QLEN = 16"
definition CRPC_MAX_REPLICA :: nat where "CRPC_MAX_REPLICA = 256"

text \<open>\<^verbatim>\<open>buf\<close> holds \<^verbatim>\<open>SRPC_BUF_SIZE\<close> bytes; \<^verbatim>\<open>arg\<close> is opaque.\<close>

record crpc_ctx =
  q_len :: nat
  q_id :: u64
  q_ts :: u64
  q_buf :: "u8 list"
  q_arg :: nat

record cpcc_conn =
  cc_waiting_resp :: bool
  cc_credit :: u32
  cc_credit_used :: u32
  cc_ecredit_rx :: u64
  cc_cupdate_tx :: u64
  cc_resp_rx :: u64
  cc_req_tx :: u64
  cc_credit_expired :: u64

type_synonym cpcc_msg = "cpcc_hdr \<times> u8 list"

datatype cpcc_io =
    CWrite nat "cpcc_msg list"
  | LDrop crpc_ctx
  | RDrop "u8 list" int
  | TimerSignal

text \<open>\<open>cs_conns\<close> are the first \<^verbatim>\<open>nconns\<close> entries of \<^verbatim>\<open>cmn.c\<close>.\<close>

record cpcc_session =
  cs_id :: u64
  cs_req_id :: u64
  cs_next_conn_idx :: nat
  cs_running :: bool
  cs_init :: bool
  cs_head :: u32
  cs_tail :: u32
  cs_qreq :: "crpc_ctx list"
  cs_req_dropped :: u64
  cs_conns :: "cpcc_conn list"
  cs_session_type :: int
  cs_io :: "cpcc_io list"

definition zero_conn :: cpcc_conn where
  "zero_conn = \<lparr>cc_waiting_resp = False, cc_credit = 0, cc_credit_used = 0, cc_ecredit_rx = 0,
     cc_cupdate_tx = 0, cc_resp_rx = 0, cc_req_tx = 0, cc_credit_expired = 0\<rparr>"

definition cl_emit :: "cpcc_io list \<Rightarrow> cpcc_session \<Rightarrow> cpcc_session" where
  "cl_emit es s = s\<lparr>cs_io := cs_io s @ es\<rparr>"

definition put_conn :: "nat \<Rightarrow> cpcc_conn \<Rightarrow> cpcc_session \<Rightarrow> cpcc_session" where
  "put_conn i cc s = s\<lparr>cs_conns := (cs_conns s)[i := cc]\<rparr>"

text \<open>\<^verbatim>\<open>s->head - s->tail\<close>, a 32-bit difference, as it is stored in the 64-bit \<^verbatim>\<open>demand\<close>\<close>

definition cl_demand :: "u32 \<Rightarrow> u32 \<Rightarrow> u64" where
  "cl_demand head tail = ucast (head - tail)"

definition ring_pos :: "u32 \<Rightarrow> nat" where
  "ring_pos n = unat n mod CRPC_QLEN"

section \<open>Sending\<close>

text \<open>\<open>junk\<close> is the header as the stack had it: \<^verbatim>\<open>ts_sent\<close> of a credit message is not set.\<close>

definition crpc_send_cupdate :: "cpcc_hdr \<Rightarrow> int \<Rightarrow> nat \<Rightarrow> cpcc_session \<Rightarrow> int \<times> cpcc_session" where
  "crpc_send_cupdate junk ret i s =
     (let chdr = junk\<lparr>ch_magic := PCC_REQ_MAGIC, ch_op := PCC_OP_CREDIT, ch_len := 0, ch_id := 0,
                      ch_demand := cl_demand (cs_head s) (cs_tail s), ch_flags := 0\<rparr>;
          s = cl_emit [CWrite i [(chdr, [])]] s;
          cc = cs_conns s ! i
      in if ret < 0 then (ret, s)
         else (0, put_conn i (cc\<lparr>cc_cupdate_tx := cc_cupdate_tx cc + 1\<rparr>) s))"

definition call_hdr :: "u64 \<Rightarrow> nat \<Rightarrow> u64 \<Rightarrow> u64 \<Rightarrow> cpcc_hdr" where
  "call_hdr rid len demand now =
     \<lparr>ch_magic = PCC_REQ_MAGIC, ch_op = PCC_OP_CALL, ch_len = len, ch_id = rid, ch_demand = demand,
      ch_ts_sent = now, ch_flags = 0\<rparr>"

lemma unat_minus_Suc:
  fixes head tail :: u32
  assumes "head \<noteq> tail"
  shows "unat (head - (tail + 1)) = unat (head - tail) - 1"
proof -
  have "1 \<le> head - tail" using assms by (simp add: word_le_nat_alt Suc_le_eq unat_gt_0)
  then have "unat ((head - tail) - 1) = unat (head - tail) - unat (1 :: u32)" by (rule unat_sub)
  then show ?thesis by (simp add: diff_diff_eq)
qed

text \<open>The loop that takes requests from the queue while there is credit.\<close>

function take_requests ::
  "u64 \<Rightarrow> crpc_ctx list \<Rightarrow> u32 \<Rightarrow> u32 \<Rightarrow> u32 \<Rightarrow> u32 \<Rightarrow> u32 \<times> u32 \<times> cpcc_msg list"
where
  "take_requests now q head credit tail used =
     (if head \<noteq> tail \<and> used < credit
      then let c = q ! ring_pos tail;
               tail = tail + 1;
               chdr = call_hdr (q_id c) (q_len c) (cl_demand head tail) now;
               (tail, used, ms) = take_requests now q head credit tail (used + 1)
           in (tail, used, (chdr, take (q_len c) (q_buf c)) # ms)
      else (tail, used, []))"
  by pat_completeness auto

termination
proof (relation "measure (\<lambda>(now, q, head, credit, tail, used). unat (head - tail))")
  fix now :: u64 and q c and head credit tail used x :: u32 and chdr
  assume a: "head \<noteq> tail \<and> used < credit" and x: "x = tail + 1"
  have "unat (head - tail) \<noteq> 0" using a by (simp add: unat_eq_0)
  then show "((now, q, head, credit, x, used + 1), now, q, head, credit, tail, used)
      \<in> measure (\<lambda>(now, q, head, credit, tail, used). unat (head - tail))"
    using a x unat_minus_Suc [of head tail] by simp
qed simp

declare take_requests.simps [simp del]

definition crpc_send_request_vector :: "u64 \<Rightarrow> int \<Rightarrow> nat \<Rightarrow> cpcc_session \<Rightarrow> int \<times> cpcc_session" where
  "crpc_send_request_vector now ret i s =
     (let cc = cs_conns s ! i
      in if cs_head s = cs_tail s \<or> cc_credit_used cc \<ge> cc_credit cc then (0, s)
         else
           let (tail, used, ms) =
                 take_requests now (cs_qreq s) (cs_head s) (cc_credit cc) (cs_tail s) (cc_credit_used cc);
               cc = cc\<lparr>cc_credit_used := used\<rparr>;
               s = s\<lparr>cs_tail := tail\<rparr>;
               s = (if cs_head s = cs_tail s then s\<lparr>cs_head := 0, cs_tail := 0\<rparr> else s);
               s = cl_emit [CWrite i ms] s;
               cc = cc\<lparr>cc_req_tx := cc_req_tx cc + of_nat (length ms)\<rparr>
           in (if ret < 0 then ret else 0, put_conn i cc s))"

definition crpc_send_raw ::
  "u64 \<Rightarrow> int \<Rightarrow> nat \<Rightarrow> u8 list \<Rightarrow> nat \<Rightarrow> u64 \<Rightarrow> cpcc_session \<Rightarrow> int \<times> cpcc_session"
where
  "crpc_send_raw now ret i buf len rid s =
     (let chdr = call_hdr rid len (cl_demand (cs_head s) (cs_tail s)) now;
          s = cl_emit [CWrite i [(chdr, take len buf)]] s;
          cc = cs_conns s ! i
      in if ret < 0 then (ret, s)
         else (int len, put_conn i (cc\<lparr>cc_req_tx := cc_req_tx cc + 1\<rparr>) s))"

section \<open>The queue of requests\<close>

text \<open>\<^verbatim>\<open>now - c->ts <= CPCC_MAX_CLIENT_DELAY_US\<close>, with the 64-bit difference\<close>

definition in_time :: "u64 \<Rightarrow> crpc_ctx \<Rightarrow> bool" where
  "in_time now c \<longleftrightarrow> now - q_ts c \<le> u64_of_int CPCC_MAX_CLIENT_DELAY_US"

text \<open>The loops that drop requests from the tail of the queue while \<open>keep\<close> does not hold of them.\<close>

function drop_tail :: "(crpc_ctx \<Rightarrow> bool) \<Rightarrow> crpc_ctx list \<Rightarrow> u32 \<Rightarrow> u32 \<Rightarrow> u32 \<times> crpc_ctx list" where
  "drop_tail keep q head tail =
     (if head \<noteq> tail
      then let c = q ! ring_pos tail
           in if keep c then (tail, [])
              else let (tail, ds) = drop_tail keep q head (tail + 1) in (tail, c # ds)
      else (tail, []))"
  by pat_completeness auto

termination
proof (relation "measure (\<lambda>(keep, q, head, tail). unat (head - tail))")
  fix keep :: "crpc_ctx \<Rightarrow> bool" and q and head tail :: u32 and c
  assume a: "head \<noteq> tail"
  have "unat (head - tail) \<noteq> 0" using a by (simp add: unat_eq_0)
  then show "((keep, q, head, tail + 1), keep, q, head, tail)
      \<in> measure (\<lambda>(keep, q, head, tail). unat (head - tail))"
    using a unat_minus_Suc [of head tail] by simp
qed simp

declare drop_tail.simps [simp del]

definition drop_expired :: "(crpc_ctx \<Rightarrow> bool) \<Rightarrow> cpcc_session \<Rightarrow> cpcc_session" where
  "drop_expired keep s =
     (let (tail, ds) = drop_tail keep (cs_qreq s) (cs_head s) (cs_tail s)
      in cl_emit (map LDrop ds)
           (s\<lparr>cs_tail := tail, cs_req_dropped := cs_req_dropped s + of_nat (length ds)\<rparr>))"

text \<open>The connections in the order in which the queue tries them.\<close>

definition conn_order :: "cpcc_session \<Rightarrow> nat list" where
  "conn_order s =
     map (\<lambda>i. (cs_next_conn_idx s + i) mod length (cs_conns s)) [0..<length (cs_conns s)]"

definition can_send :: "cpcc_conn \<Rightarrow> bool" where
  "can_send cc \<longleftrightarrow> \<not> cc_waiting_resp cc \<and> cc_credit_used cc < cc_credit cc"

definition crpc_drain_queue :: "u64 \<Rightarrow> u64 \<Rightarrow> int \<Rightarrow> cpcc_session \<Rightarrow> cpcc_session" where
  "crpc_drain_queue now vec_now ret s =
     (if cs_head s = cs_tail s then s
      else
        let s = drop_expired (\<lambda>c. CPCC_MAX_CLIENT_DELAY_US = 0 \<or> in_time now c) s
        in case find (\<lambda>i. can_send (cs_conns s ! i)) (conn_order s) of
             None \<Rightarrow> s
           | Some i \<Rightarrow>
               (snd (crpc_send_request_vector vec_now ret i s))
                 \<lparr>cs_next_conn_idx := (i + 1) mod length (cs_conns s)\<rparr>)"

definition first_cupdate :: "cpcc_hdr \<Rightarrow> (nat \<Rightarrow> int) \<Rightarrow> nat \<Rightarrow> cpcc_session \<Rightarrow> cpcc_session" where
  "first_cupdate junk rets i s =
     (let s = snd (crpc_send_cupdate junk (rets i) i s)
      in put_conn i ((cs_conns s ! i)\<lparr>cc_waiting_resp := True\<rparr>) s)"

definition crpc_enqueue_one ::
  "u64 \<Rightarrow> cpcc_hdr \<Rightarrow> (nat \<Rightarrow> int) \<Rightarrow> u8 list \<Rightarrow> nat \<Rightarrow> nat \<Rightarrow> cpcc_session \<Rightarrow> bool \<times> cpcc_session"
where
  "crpc_enqueue_one now junk rets buf len arg s =
     (let s = (if unat (cs_head s - cs_tail s) \<ge> CRPC_QLEN
               then cl_emit [LDrop (cs_qreq s ! ring_pos (cs_tail s))]
                      (s\<lparr>cs_tail := cs_tail s + 1, cs_req_dropped := cs_req_dropped s + 1\<rparr>)
               else s);
          pos = ring_pos (cs_head s);
          s = s\<lparr>cs_head := cs_head s + 1\<rparr>;
          c = cs_qreq s ! pos;
          c = c\<lparr>q_buf := take len buf @ drop len (q_buf c), q_id := cs_req_id s, q_ts := now,
                q_len := len, q_arg := arg\<rparr>;
          s = s\<lparr>cs_qreq := (cs_qreq s)[pos := c], cs_req_id := cs_req_id s + 1\<rparr>;
          s = (if \<not> cs_init s
               then (fold (first_cupdate junk rets) [0..<length (cs_conns s)] s)\<lparr>cs_init := True\<rparr>
               else s);
          s = (if cs_head s - cs_tail s = 1 then cl_emit [TimerSignal] s else s)
      in (True, s))"

section \<open>Requests and responses\<close>

definition E2BIG :: int where "E2BIG = 7"
definition ENOBUFS :: int where "ENOBUFS = 105"
definition ENOMEM :: int where "ENOMEM = 12"
definition CL_EINVAL :: int where "CL_EINVAL = 22"

record cpcc_in =
  in_raw_now :: u64
  in_raw_ret :: int
  in_enq_now :: u64
  in_enq_junk :: cpcc_hdr
  in_enq_rets :: "nat \<Rightarrow> int"
  in_drain_now :: u64
  in_vec_now :: u64
  in_vec_ret :: int

definition cpcc_send_one :: "cpcc_in \<Rightarrow> u8 list \<Rightarrow> nat \<Rightarrow> nat \<Rightarrow> cpcc_session \<Rightarrow> int \<times> cpcc_session" where
  "cpcc_send_one e buf len arg s =
     (if len > SRPC_BUF_SIZE then (- E2BIG, s)
      else
        let i = cs_next_conn_idx s;
            cc = cs_conns s ! i
        in if cc_credit_used cc < cc_credit cc \<and> cs_head s = cs_tail s
           then let s = put_conn i (cc\<lparr>cc_credit_used := cc_credit_used cc + 1\<rparr>) s;
                    rid = cs_req_id s;
                    s = s\<lparr>cs_req_id := cs_req_id s + 1\<rparr>;
                    (ret, s) = crpc_send_raw (in_raw_now e) (in_raw_ret e) i buf len rid s
                in (ret, s\<lparr>cs_next_conn_idx := (cs_next_conn_idx s + 1) mod length (cs_conns s)\<rparr>)
           else let (ok, s) = crpc_enqueue_one (in_enq_now e) (in_enq_junk e) (in_enq_rets e) buf len arg s;
                    s = crpc_drain_queue (in_drain_now e) (in_vec_now e) (in_vec_ret e) s
                in (if ok then int len else - ENOBUFS, s))"

datatype cpcc_res = ClAgain | ClRet int

record cpcc_rx =
  rx_ret :: int
  rx_hdr :: spcc_hdr
  rx_payload_ret :: int
  rx_payload :: "u8 list"
  rx_drain_now :: u64
  rx_vec_now :: u64
  rx_vec_ret :: int

definition took_credit :: "cpcc_rx \<Rightarrow> nat \<Rightarrow> cpcc_conn \<Rightarrow> cpcc_session \<Rightarrow> cpcc_session" where
  "took_credit r i cc s =
     (let cc = cc\<lparr>cc_credit := ucast (sh_credit (rx_hdr r)), cc_waiting_resp := False\<rparr>;
          s = put_conn i cc s
      in if cc_credit cc > 0
         then crpc_drain_queue (rx_drain_now r) (rx_vec_now r) (rx_vec_ret r) s else s)"

definition crpc_recv_call :: "cpcc_rx \<Rightarrow> nat \<Rightarrow> cpcc_session \<Rightarrow> cpcc_res \<times> cpcc_session" where
  "crpc_recv_call r i s =
     (let shdr = rx_hdr r;
          cc = cs_conns s ! i;
          dropped = (sh_flags shdr AND PCC_SFLAG_DROP \<noteq> 0);
          ret = (if sh_len shdr > 0 then rx_payload_ret r else rx_ret r)
      in if sh_len shdr > 0 \<and> ret \<le> 0 then (ClRet ret, s)
         else
           let cc = (if sh_len shdr > 0 \<and> \<not> dropped
                     then cc\<lparr>cc_resp_rx := cc_resp_rx cc + 1\<rparr> else cc);
               cc = cc\<lparr>cc_credit_used := cc_credit_used cc - 1\<rparr>;
               s = took_credit r i cc s
           in if dropped then (ClAgain, cl_emit [RDrop (rx_payload r) ret] s)
              else (ClRet (int (sh_len shdr)), s))"

definition crpc_recv_credit :: "cpcc_rx \<Rightarrow> nat \<Rightarrow> cpcc_session \<Rightarrow> cpcc_res \<times> cpcc_session" where
  "crpc_recv_credit r i s =
     (if sh_len (rx_hdr r) \<noteq> 0 then (ClRet (- CL_EINVAL), s)
      else
        let s = took_credit r i (cs_conns s ! i) s;
            cc = cs_conns s ! i
        in (ClAgain, put_conn i (cc\<lparr>cc_ecredit_rx := cc_ecredit_rx cc + 1\<rparr>) s))"

text \<open>One round of the loop behind the label \<^verbatim>\<open>again\<close>, then the loop on the rounds it makes;
  \<open>None\<close> is a client that waits for the next header.\<close>

definition cpcc_recv_msg :: "nat \<Rightarrow> cpcc_rx \<Rightarrow> nat \<Rightarrow> cpcc_session \<Rightarrow> cpcc_res \<times> cpcc_session" where
  "cpcc_recv_msg buflen r i s =
     (if rx_ret r \<le> 0 then (ClRet (rx_ret r), s)
      else if sh_magic (rx_hdr r) \<noteq> PCC_RESP_MAGIC then (ClRet (- CL_EINVAL), s)
      else if sh_len (rx_hdr r) > min SRPC_BUF_SIZE buflen then (ClRet (- CL_EINVAL), s)
      else if sh_op (rx_hdr r) = PCC_OP_CALL then crpc_recv_call r i s
      else if sh_op (rx_hdr r) = PCC_OP_CREDIT then crpc_recv_credit r i s
      else (ClRet (- CL_EINVAL), s))"

fun cpcc_recv_one :: "nat \<Rightarrow> cpcc_rx list \<Rightarrow> nat \<Rightarrow> cpcc_session \<Rightarrow> int option \<times> cpcc_session" where
  "cpcc_recv_one buflen [] i s = (None, s)"
| "cpcc_recv_one buflen (r # rs) i s =
     (let (res, s) = cpcc_recv_msg buflen r i s
      in case res of ClAgain \<Rightarrow> cpcc_recv_one buflen rs i s | ClRet ret \<Rightarrow> (Some ret, s))"

section \<open>The expiration thread\<close>

datatype timer_res = TDone | TWait | TSleep u64

text \<open>One turn of the loop of \<^verbatim>\<open>crpc_timer\<close> with the lock held: it ends, waits on
  \<^verbatim>\<open>timer_cv\<close>, or releases the lock and sleeps until the given time.\<close>

definition crpc_timer :: "u64 \<Rightarrow> cpcc_session \<Rightarrow> timer_res \<times> cpcc_session" where
  "crpc_timer now s =
     (if \<not> cs_running s then (TDone, s)
      else if cs_head s = cs_tail s then (TWait, s)
      else
        let s = drop_expired (in_time now) s
        in if cs_head s = cs_tail s then (TWait, s)
           else let c = cs_qreq s ! ring_pos (cs_head s - 1)
                in (TSleep (q_ts c + u64_of_int CPCC_MAX_CLIENT_DELAY_US), s))"

section \<open>Sessions\<close>

text \<open>\<open>dial\<close> and \<open>wr\<close> are the results of dialling and of writing the session information, \<open>mem\<close>
  whether the connection could be allocated.\<close>

definition cpcc_add_connection :: "u32 \<Rightarrow> int \<Rightarrow> int \<Rightarrow> bool \<Rightarrow> cpcc_session \<Rightarrow> int \<times> cpcc_session" where
  "cpcc_add_connection port dial wr mem s =
     (if length (cs_conns s) \<ge> CRPC_MAX_REPLICA then (- ENOMEM, s)
      else if port \<noteq> SRPC_PORT then (- CL_EINVAL, s)
      else if dial \<noteq> 0 then (dial, s)
      else if wr < 0 then (wr, s)
      else if \<not> mem then (- ENOMEM, s)
      else (0, s\<lparr>cs_conns := cs_conns s @ [zero_conn]\<rparr>))"

text \<open>\<open>mem\<close> are the request buffers as \<^verbatim>\<open>smalloc\<close> returned them, or \<open>None\<close> when an allocation
  failed; \<open>spawn\<close> is the result of spawning the expiration thread.\<close>

definition cpcc_open ::
  "u32 \<Rightarrow> int \<Rightarrow> int \<Rightarrow> crpc_ctx list option \<Rightarrow> u64 \<Rightarrow> int \<Rightarrow> int \<Rightarrow> (int + cpcc_session) option"
where
  "cpcc_open port dial wr mem sid session_type spawn =
     (if port \<noteq> SRPC_PORT then Some (Inl (- CL_EINVAL))
      else if dial \<noteq> 0 then Some (Inl dial)
      else if wr < 0 then Some (Inl wr)
      else case mem of
             None \<Rightarrow> Some (Inl (- ENOMEM))
           | Some q \<Rightarrow>
               if CPCC_MAX_CLIENT_DELAY_US > 0 \<and> spawn \<noteq> 0 then None
               else Some (Inr \<lparr>cs_id = sid, cs_req_id = 1, cs_next_conn_idx = 0, cs_running = True,
                      cs_init = False, cs_head = 0, cs_tail = 0, cs_qreq = q, cs_req_dropped = 0,
                      cs_conns = [zero_conn], cs_session_type = session_type, cs_io = []\<rparr>))"

text \<open>What \<^verbatim>\<open>cpcc_close\<close> does before it waits for the expiration thread and frees the session.\<close>

definition cpcc_close :: "cpcc_session \<Rightarrow> cpcc_session" where
  "cpcc_close s = cl_emit [TimerSignal] (s\<lparr>cs_running := False\<rparr>)"

section \<open>Statistics\<close>

definition cpcc_conn_credit :: "cpcc_conn \<Rightarrow> u32" where
  "cpcc_conn_credit cc = cc_credit cc"

definition cpcc_sess_credit :: "cpcc_session \<Rightarrow> u32" where
  "cpcc_sess_credit s = foldl (\<lambda>ret cc. ret + cpcc_conn_credit cc) 0 (cs_conns s)"

definition cpcc_conn_stat_clear :: "cpcc_conn \<Rightarrow> cpcc_conn" where
  "cpcc_conn_stat_clear cc =
     cc\<lparr>cc_credit_expired := 0, cc_ecredit_rx := 0, cc_cupdate_tx := 0, cc_resp_rx := 0, cc_req_tx := 0\<rparr>"

definition cpcc_sess_stat_clear :: "cpcc_session \<Rightarrow> cpcc_session" where
  "cpcc_sess_stat_clear s =
     s\<lparr>cs_req_dropped := 0, cs_conns := map cpcc_conn_stat_clear (cs_conns s)\<rparr>"

definition cpcc_conn_stat_credit_expired :: "cpcc_conn \<Rightarrow> u64" where
  "cpcc_conn_stat_credit_expired cc = cc_credit_expired cc"

definition cpcc_sess_stat_credit_expired :: "cpcc_session \<Rightarrow> u64" where
  "cpcc_sess_stat_credit_expired s = foldl (\<lambda>ret cc. ret + cpcc_conn_stat_credit_expired cc) 0 (cs_conns s)"

definition cpcc_conn_stat_ecredit_rx :: "cpcc_conn \<Rightarrow> u64" where
  "cpcc_conn_stat_ecredit_rx cc = cc_ecredit_rx cc"

definition cpcc_sess_stat_ecredit_rx :: "cpcc_session \<Rightarrow> u64" where
  "cpcc_sess_stat_ecredit_rx s = foldl (\<lambda>ret cc. ret + cpcc_conn_stat_ecredit_rx cc) 0 (cs_conns s)"

definition cpcc_conn_stat_cupdate_tx :: "cpcc_conn \<Rightarrow> u64" where
  "cpcc_conn_stat_cupdate_tx cc = cc_cupdate_tx cc"

definition cpcc_sess_stat_cupdate_tx :: "cpcc_session \<Rightarrow> u64" where
  "cpcc_sess_stat_cupdate_tx s = foldl (\<lambda>ret cc. ret + cpcc_conn_stat_cupdate_tx cc) 0 (cs_conns s)"

definition cpcc_conn_stat_resp_rx :: "cpcc_conn \<Rightarrow> u64" where
  "cpcc_conn_stat_resp_rx cc = cc_resp_rx cc"

definition cpcc_sess_stat_resp_rx :: "cpcc_session \<Rightarrow> u64" where
  "cpcc_sess_stat_resp_rx s = foldl (\<lambda>ret cc. ret + cpcc_conn_stat_resp_rx cc) 0 (cs_conns s)"

definition cpcc_conn_stat_req_tx :: "cpcc_conn \<Rightarrow> u64" where
  "cpcc_conn_stat_req_tx cc = cc_req_tx cc"

definition cpcc_sess_stat_req_tx :: "cpcc_session \<Rightarrow> u64" where
  "cpcc_sess_stat_req_tx s = foldl (\<lambda>ret cc. ret + cpcc_conn_stat_req_tx cc) 0 (cs_conns s)"

definition cpcc_sess_stat_req_dropped :: "cpcc_session \<Rightarrow> u64" where
  "cpcc_sess_stat_req_dropped s = cs_req_dropped s"

end
