(* ===== verification/Pcc_Client_Queue.thy ===== *)
theory Pcc_Client_Queue
  imports Pcc_Client
begin

text \<open>
  The client's request ring as a bounded first-in first-out queue: a locale states the queue's
  contract and the ring of \<^verbatim>\<open>pcc_client.c\<close> is its instance.  The theory then says what each
  operation does to the queue, and which messages a drain of the queue writes on a connection.
\<close>

section \<open>The ring as a sequence\<close>

definition ring_queue :: "crpc_ctx list \<Rightarrow> u32 \<Rightarrow> u32 \<Rightarrow> crpc_ctx list" where
  "ring_queue q head tail = map (\<lambda>j. q ! ring_pos (tail + of_nat j)) [0..<unat (head - tail)]"

definition queue :: "cpcc_session \<Rightarrow> crpc_ctx list" where
  "queue s = ring_queue (cs_qreq s) (cs_head s) (cs_tail s)"

lemma length_queue: "length (queue s) = unat (cs_head s - cs_tail s)"
  by (simp add: queue_def ring_queue_def)

lemma queue_Nil: "queue s = [] \<longleftrightarrow> cs_head s = cs_tail s"
  using length_queue [of s] by (metis length_0_conv right_minus_eq unat_eq_0)

lemma ring_queue_Nil [simp]: "ring_queue q head head = []"
  by (simp add: ring_queue_def)

lemma ring_pos_less: "ring_pos n < CRPC_QLEN"
  by (simp add: ring_pos_def CRPC_QLEN_def)

text \<open>The counters wrap at a multiple of the ring's size, so positions advance by one.\<close>

lemma ring_pos_add: "ring_pos (n + of_nat j) = (unat n + j) mod CRPC_QLEN"
proof -
  have "(16 :: nat) dvd 2 ^ 32" by simp
  then have m: "x mod 2 ^ 32 mod 16 = x mod 16" for x :: nat by (rule mod_mod_cancel)
  have "unat (n + of_nat j :: u32) = (unat n + j) mod 2 ^ 32"
    by (simp add: unat_word_ariths unat_of_nat mod_add_right_eq)
  then show ?thesis using m by (simp add: ring_pos_def CRPC_QLEN_def)
qed

lemma ring_queue_Cons:
  assumes "head \<noteq> tail"
  shows "ring_queue q head tail = q ! ring_pos tail # ring_queue q head (tail + 1)"
proof -
  have n: "unat (head - tail) = Suc (unat (head - (tail + 1)))"
    using unat_minus_Suc [OF assms] assms by (simp add: unat_gt_0)
  show ?thesis
    by (simp add: ring_queue_def n map_upt_Suc add.assoc del: upt_Suc)
qed

lemma mod16_neq:
  fixes a j n :: nat
  assumes "j < n" and "n < 16"
  shows "(a + j) mod 16 \<noteq> (a + n) mod 16"
proof
  assume "(a + j) mod 16 = (a + n) mod 16"
  then have "16 dvd (a + n) - (a + j)"
    using assms(1) by (metis mod_eq_dvd_iff_nat add_le_mono1 add.commute less_imp_le)
  then have "16 \<le> n - j" using assms(1) by (intro dvd_imp_le) simp_all
  with assms(2) show False by simp
qed

lemma ring_queue_push:
  assumes n: "unat (head - tail) < CRPC_QLEN" and q: "length q = CRPC_QLEN"
  shows "ring_queue (q[ring_pos head := c]) (head + 1) tail = ring_queue q head tail @ [c]"
proof -
  let ?n = "unat (head - tail)"
  have h: "head = tail + of_nat ?n" by simp
  have "head + 1 - tail = (head - tail) + 1" by (simp add: algebra_simps)
  moreover have "unat (head - tail + 1) = ?n + 1"
    using n by (simp add: unat_word_ariths CRPC_QLEN_def)
  ultimately have n1: "unat (head + 1 - tail) = Suc ?n" by (simp only: Suc_eq_plus1)
  have pos: "ring_pos head \<noteq> ring_pos (tail + of_nat j)" if "j < ?n" for j
  proof -
    have "(unat tail + j) mod 16 \<noteq> (unat tail + ?n) mod 16"
      using that n by (intro mod16_neq) (simp_all add: CRPC_QLEN_def)
    then have "ring_pos (tail + of_nat ?n) \<noteq> ring_pos (tail + of_nat j)"
      unfolding ring_pos_add CRPC_QLEN_def by simp
    then show ?thesis using h by simp
  qed
  have "ring_pos (tail + of_nat ?n) = ring_pos head" using h by simp
  then show ?thesis
    unfolding ring_queue_def n1 using pos ring_pos_less [of head] q by simp
qed

section \<open>A queue that drops its oldest entry when it is full\<close>

locale bounded_fifo =
  fixes cap :: nat and ok :: "'s \<Rightarrow> bool" and cont :: "'s \<Rightarrow> 'a list"
    and push :: "'a \<Rightarrow> 's \<Rightarrow> 's" and pop :: "'s \<Rightarrow> 's"
  assumes cap: "0 < cap" and bound: "ok s \<Longrightarrow> length (cont s) \<le> cap"
    and push: "ok s \<Longrightarrow> length (cont s) < cap \<Longrightarrow> ok (push x s) \<and> cont (push x s) = cont s @ [x]"
    and pop: "ok s \<Longrightarrow> cont s \<noteq> [] \<Longrightarrow> ok (pop s) \<and> cont (pop s) = tl (cont s)"
begin

definition push_drop :: "'a \<Rightarrow> 's \<Rightarrow> 's" where
  "push_drop x s = (if length (cont s) \<ge> cap then push x (pop s) else push x s)"

lemma push_drop:
  assumes "ok s"
  shows "ok (push_drop x s)"
    and "cont (push_drop x s) = drop (length (cont s) + 1 - cap) (cont s @ [x])"
proof -
  have "ok (push_drop x s) \<and> cont (push_drop x s) = drop (length (cont s) + 1 - cap) (cont s @ [x])"
  proof (cases "length (cont s) \<ge> cap")
    case True
    then have len: "length (cont s) = cap" using bound [OF assms] by simp
    then have ne: "cont s \<noteq> []" using cap by auto
    note p = pop [OF assms ne]
    have "length (cont (pop s)) < cap" using p cap len by simp
    with p push have "ok (push x (pop s)) \<and> cont (push x (pop s)) = tl (cont s) @ [x]" by simp
    moreover have "drop 1 (cont s @ [x]) = tl (cont s) @ [x]" using ne by (cases "cont s") simp_all
    ultimately show ?thesis using True len by (simp add: push_drop_def)
  next
    case False
    then show ?thesis using push [OF assms] by (simp add: push_drop_def)
  qed
  then show "ok (push_drop x s)"
    and "cont (push_drop x s) = drop (length (cont s) + 1 - cap) (cont s @ [x])" by blast+
qed

text \<open>After any sequence of insertions the queue holds the last \<open>cap\<close> entries, in order.\<close>

lemma keeps_latest:
  "ok s \<Longrightarrow> ok (fold push_drop xs s) \<and>
    cont (fold push_drop xs s) = drop (length (cont s) + length xs - cap) (cont s @ xs)"
proof (induction xs arbitrary: s)
  case Nil
  then show ?case using bound [of s] by simp
next
  case (Cons x xs)
  note p = push_drop [OF Cons.prems, of x]
  have b: "length (cont s) \<le> cap" using bound [OF Cons.prems] .
  have "drop (length (cont (push_drop x s)) + length xs - cap) (cont (push_drop x s) @ xs)
      = drop (length (cont s) + length (x # xs) - cap) (cont s @ x # xs)"
  proof (cases "length (cont s) = cap")
    case True
    then have "length (cont s) + 1 - cap = 1" by simp
    then show ?thesis using True cap by (simp add: p(2) drop_Suc)
  next
    case False
    then show ?thesis using b by (simp add: p(2))
  qed
  then show ?case using Cons.IH [OF p(1)] by simp
qed

end

text \<open>The request ring is such a queue.\<close>

definition ring_ok :: "cpcc_session \<Rightarrow> bool" where
  "ring_ok s \<longleftrightarrow> length (cs_qreq s) = CRPC_QLEN \<and> length (queue s) \<le> CRPC_QLEN"

definition ring_push :: "crpc_ctx \<Rightarrow> cpcc_session \<Rightarrow> cpcc_session" where
  "ring_push c s = s\<lparr>cs_head := cs_head s + 1, cs_qreq := (cs_qreq s)[ring_pos (cs_head s) := c]\<rparr>"

definition ring_pop :: "cpcc_session \<Rightarrow> cpcc_session" where
  "ring_pop s = s\<lparr>cs_tail := cs_tail s + 1\<rparr>"

lemma ring_pop_queue: "queue s \<noteq> [] \<Longrightarrow> queue (ring_pop s) = tl (queue s)"
  using ring_queue_Cons [of "cs_head s" "cs_tail s"] by (simp add: queue_Nil) (simp add: queue_def ring_pop_def)

interpretation rq: bounded_fifo CRPC_QLEN ring_ok queue ring_push ring_pop
proof unfold_locales
  show "0 < CRPC_QLEN" by (simp add: CRPC_QLEN_def)
  show "ring_ok s \<Longrightarrow> length (queue s) \<le> CRPC_QLEN" for s by (simp add: ring_ok_def)
  show "ring_ok (ring_push c s) \<and> queue (ring_push c s) = queue s @ [c]"
    if "ring_ok s" "length (queue s) < CRPC_QLEN" for s c
  proof -
    have "queue (ring_push c s) = queue s @ [c]"
      using that ring_queue_push [of "cs_head s" "cs_tail s" "cs_qreq s" c] length_queue [of s]
      by (simp add: ring_ok_def queue_def ring_push_def)
    then show ?thesis using that by (simp add: ring_ok_def ring_push_def)
  qed
  show "ring_ok (ring_pop s) \<and> queue (ring_pop s) = tl (queue s)" if "ring_ok s" "queue s \<noteq> []" for s
  proof -
    have "cs_qreq (ring_pop s) = cs_qreq s" by (simp add: ring_pop_def)
    then show ?thesis using that ring_pop_queue [OF that(2)] by (auto simp: ring_ok_def)
  qed
qed

section \<open>The loops\<close>

fun call_msgs :: "u64 \<Rightarrow> nat \<Rightarrow> crpc_ctx list \<Rightarrow> cpcc_msg list" where
  "call_msgs now 0 cs = []"
| "call_msgs now (Suc n) [] = []"
| "call_msgs now (Suc n) (c # cs) =
     (call_hdr (q_id c) (q_len c) (of_nat (length cs)) now, take (q_len c) (q_buf c)) # call_msgs now n cs"

lemma length_call_msgs: "length (call_msgs now n cs) = min n (length cs)"
  by (induction now n cs rule: call_msgs.induct) auto

lemma demand_queue: "cl_demand head tail = of_nat (length (ring_queue q head tail))"
  by (simp add: cl_demand_def ring_queue_def)

lemma take_requests_spec:
  assumes "used \<le> credit" and "n = min (length (ring_queue q head tail)) (unat credit - unat used)"
  shows "take_requests now q head credit tail used =
    (tail + of_nat n, used + of_nat n, call_msgs now n (ring_queue q head tail)) \<and>
    ring_queue q head (tail + of_nat n) = drop n (ring_queue q head tail)"
  using assms
proof (induction now q head credit tail used arbitrary: n rule: take_requests.induct)
  case (1 now q head credit tail used)
  show ?case
  proof (cases "head \<noteq> tail \<and> used < credit")
    case True
    note Q = ring_queue_Cons [of head tail q]
    have lt: "unat used < unat credit" using True by (simp add: word_less_nat_alt)
    then have u: "unat (used + 1) = Suc (unat used)"
      using unat_u32_less [of credit] by (simp add: unat_word_ariths)
    have le: "used + 1 \<le> credit" using lt u by (simp add: word_le_nat_alt)
    define m where m: "m = min (length (ring_queue q head (tail + 1))) (unat credit - unat (used + 1))"
    have "unat credit - unat used = Suc (unat credit - unat (used + 1))" using lt u by simp
    then have n: "n = Suc m" using "1.prems"(2) Q True by (simp add: m)
    note ih = "1.IH" [OF True refl refl refl le m]
    show ?thesis
      using ih True Q demand_queue [of head "tail + 1" q] unfolding n
      by (subst take_requests.simps) (simp add: Let_def ac_simps)
  next
    case False
    have "n = 0"
    proof (cases "head = tail")
      case False
      with \<open>\<not> (head \<noteq> tail \<and> used < credit)\<close> "1.prems"(1) have "used = credit" by auto
      then show ?thesis using "1.prems"(2) by simp
    qed (use "1.prems"(2) in simp)
    then show ?thesis using False by (subst take_requests.simps) auto
  qed
qed

lemma drop_tail_spec:
  "drop_tail keep q head tail = (t, ds) \<Longrightarrow>
    ds = takeWhile (\<lambda>c. \<not> keep c) (ring_queue q head tail) \<and>
    ring_queue q head t = dropWhile (\<lambda>c. \<not> keep c) (ring_queue q head tail)"
proof (induction keep q head tail arbitrary: t ds rule: drop_tail.induct)
  case (1 keep q head tail)
  show ?case
  proof (cases "head \<noteq> tail")
    case True
    note Q = ring_queue_Cons [OF True, of q]
    show ?thesis
    proof (cases "keep (q ! ring_pos tail)")
      case k: True
      then show ?thesis using "1.prems" True Q by (subst (asm) drop_tail.simps) (simp add: Let_def)
    next
      case k: False
      obtain t' ds' where d: "drop_tail keep q head (tail + 1) = (t', ds')" by fastforce
      then have "t = t'" "ds = q ! ring_pos tail # ds'"
        using "1.prems" True k by (subst (asm) (2) drop_tail.simps, simp add: Let_def)+
      with "1.IH" [OF True refl k d] Q k show ?thesis by simp
    qed
  next
    case False
    then show ?thesis using "1.prems" by (subst (asm) drop_tail.simps) simp
  qed
qed

section \<open>What the operations do to the queue\<close>

lemma queue_simps [simp]:
  "queue (cl_emit es s) = queue s" "queue (put_conn i cc s) = queue s"
  "queue (s\<lparr>cs_next_conn_idx := n\<rparr>) = queue s" "queue (s\<lparr>cs_req_id := d\<rparr>) = queue s"
  "queue (s\<lparr>cs_init := b\<rparr>) = queue s" "queue (s\<lparr>cs_running := b\<rparr>) = queue s"
  "queue (s\<lparr>cs_conns := ccs\<rparr>) = queue s" "queue (s\<lparr>cs_req_dropped := d\<rparr>) = queue s"
  by (simp_all add: queue_def cl_emit_def put_conn_def)

lemma drop_expired_spec:
  obtains t where "drop_expired keep s = (s\<lparr>cs_tail := t,
      cs_req_dropped := cs_req_dropped s + of_nat (length (takeWhile (\<lambda>c. \<not> keep c) (queue s))),
      cs_io := cs_io s @ map LDrop (takeWhile (\<lambda>c. \<not> keep c) (queue s))\<rparr>)"
    and "queue (drop_expired keep s) = dropWhile (\<lambda>c. \<not> keep c) (queue s)"
proof -
  obtain t ds where d: "drop_tail keep (cs_qreq s) (cs_head s) (cs_tail s) = (t, ds)" by fastforce
  note sp = drop_tail_spec [OF d, folded queue_def]
  show ?thesis
  proof (rule that [of t])
    show "drop_expired keep s = (s\<lparr>cs_tail := t,
      cs_req_dropped := cs_req_dropped s + of_nat (length (takeWhile (\<lambda>c. \<not> keep c) (queue s))),
      cs_io := cs_io s @ map LDrop (takeWhile (\<lambda>c. \<not> keep c) (queue s))\<rparr>)"
      using sp by (simp add: drop_expired_def d cl_emit_def)
    show "queue (drop_expired keep s) = dropWhile (\<lambda>c. \<not> keep c) (queue s)"
      using sp by (simp add: drop_expired_def d queue_def cl_emit_def)
  qed
qed

definition credit_left :: "cpcc_conn \<Rightarrow> nat" where
  "credit_left cc = unat (cc_credit cc) - unat (cc_credit_used cc)"

lemma credit_left_0: "credit_left cc = 0 \<longleftrightarrow> cc_credit_used cc \<ge> cc_credit cc"
  by (simp add: credit_left_def word_le_nat_alt)

lemma send_vector_spec:
  assumes n: "n = min (length (queue s)) (credit_left (cs_conns s ! i))"
  obtains h t where "snd (crpc_send_request_vector now ret i s) =
      (if n = 0 then s else
        put_conn i ((cs_conns s ! i)\<lparr>cc_credit_used := cc_credit_used (cs_conns s ! i) + of_nat n,
            cc_req_tx := cc_req_tx (cs_conns s ! i) + of_nat n\<rparr>)
          (s\<lparr>cs_head := h, cs_tail := t, cs_io := cs_io s @ [CWrite i (call_msgs now n (queue s))]\<rparr>))"
    and "queue (snd (crpc_send_request_vector now ret i s)) = drop n (queue s)"
proof (cases "n = 0")
  case True
  then have "cs_head s = cs_tail s \<or> cc_credit (cs_conns s ! i) \<le> cc_credit_used (cs_conns s ! i)"
    using n credit_left_0 [of "cs_conns s ! i"] queue_Nil [of s] by (auto simp: min_def split: if_splits)
  then have "snd (crpc_send_request_vector now ret i s) = s"
    by (simp add: crpc_send_request_vector_def Let_def)
  then show ?thesis using that True by simp
next
  case False
  let ?cc = "cs_conns s ! i"
  have g: "\<not> (cs_head s = cs_tail s \<or> cc_credit ?cc \<le> cc_credit_used ?cc)"
    using False n credit_left_0 [of ?cc] queue_Nil [of s] by auto
  then have le: "cc_credit_used ?cc \<le> cc_credit ?cc" by auto
  have n': "n = min (length (ring_queue (cs_qreq s) (cs_head s) (cs_tail s)))
      (unat (cc_credit ?cc) - unat (cc_credit_used ?cc))"
    using n by (simp add: queue_def credit_left_def)
  note T = take_requests_spec [OF le n', of now]
  have len: "length (call_msgs now n (queue s)) = n" using n by (simp add: length_call_msgs)
  let ?t = "cs_tail s + of_nat n"
  let ?h = "if cs_head s = ?t then 0 else cs_head s"
  let ?t' = "if cs_head s = ?t then 0 else ?t"
  let ?r = "put_conn i (?cc\<lparr>cc_credit_used := cc_credit_used ?cc + of_nat n,
      cc_req_tx := cc_req_tx ?cc + of_nat n\<rparr>)
      (s\<lparr>cs_head := ?h, cs_tail := ?t', cs_io := cs_io s @ [CWrite i (call_msgs now n (queue s))]\<rparr>)"
  have r: "snd (crpc_send_request_vector now ret i s) = ?r"
    using g T len by (simp add: crpc_send_request_vector_def Let_def queue_def [symmetric] cl_emit_def put_conn_def)
  have "queue ?r = drop n (queue s)"
  proof (cases "cs_head s = ?t")
    case True
    then have "drop n (queue s) = []" using T by (metis queue_def ring_queue_Nil)
    then show ?thesis using True by (simp add: queue_def put_conn_def)
  next
    case False
    then show ?thesis using T by (simp add: queue_def put_conn_def)
  qed
  then show ?thesis using that [where h = ?h and t = ?t'] False r by simp
qed

text \<open>Contents of the slot in which a request is stored.\<close>

definition enq_ctx :: "u64 \<Rightarrow> u8 list \<Rightarrow> nat \<Rightarrow> nat \<Rightarrow> cpcc_session \<Rightarrow> crpc_ctx" where
  "enq_ctx now buf len arg s =
     (let c = cs_qreq s ! ring_pos (cs_head s)
      in c\<lparr>q_buf := take len buf @ drop len (q_buf c), q_id := cs_req_id s, q_ts := now, q_len := len,
           q_arg := arg\<rparr>)"

lemma first_cupdate_frame:
  "queue (fold (first_cupdate junk rets) is' s) = queue s \<and>
   cs_qreq (fold (first_cupdate junk rets) is' s) = cs_qreq s \<and>
   cs_head (fold (first_cupdate junk rets) is' s) = cs_head s \<and>
   cs_tail (fold (first_cupdate junk rets) is' s) = cs_tail s \<and>
   cs_next_conn_idx (fold (first_cupdate junk rets) is' s) = cs_next_conn_idx s \<and>
   length (cs_conns (fold (first_cupdate junk rets) is' s)) = length (cs_conns s)"
  by (induction is' arbitrary: s)
    (simp_all add: first_cupdate_def crpc_send_cupdate_def Let_def queue_def cl_emit_def put_conn_def)

lemma enqueue_queue:
  assumes ok: "ring_ok s"
  shows "queue (snd (crpc_enqueue_one now junk rets buf len arg s)) =
      drop (length (queue s) + 1 - CRPC_QLEN) (queue s @ [enq_ctx now buf len arg s])"
    and "ring_ok (snd (crpc_enqueue_one now junk rets buf len arg s))"
proof -
  let ?c = "enq_ctx now buf len arg s"
  have full: "length (queue s) \<ge> CRPC_QLEN \<longleftrightarrow> unat (cs_head s - cs_tail s) \<ge> CRPC_QLEN"
    by (simp add: length_queue)
  let ?s1 = "rq.push_drop ?c s"
  let ?r = "snd (crpc_enqueue_one now junk rets buf len arg s)"
  have "cs_qreq ?r = cs_qreq ?s1 \<and> cs_head ?r = cs_head ?s1 \<and> cs_tail ?r = cs_tail ?s1"
    by (simp add: crpc_enqueue_one_def rq.push_drop_def full first_cupdate_frame Let_def enq_ctx_def
        ring_push_def ring_pop_def cl_emit_def)
  then have "queue ?r = queue ?s1" "ring_ok ?r = ring_ok ?s1" by (simp_all add: queue_def ring_ok_def)
  then show "queue ?r = drop (length (queue s) + 1 - CRPC_QLEN) (queue s @ [?c])" and "ring_ok ?r"
    using rq.push_drop [OF ok, of ?c] by simp_all
qed

section \<open>The messages on a connection\<close>

fun sent_on :: "nat \<Rightarrow> cpcc_io list \<Rightarrow> cpcc_msg list" where
  "sent_on i [] = []"
| "sent_on i (CWrite j ms # es) = (if j = i then ms else []) @ sent_on i es"
| "sent_on i (_ # es) = sent_on i es"

lemma sent_on_append [simp]: "sent_on i (xs @ ys) = sent_on i xs @ sent_on i ys"
  by (induction i xs rule: sent_on.induct) auto

lemma sent_on_drops [simp]: "sent_on i (map LDrop ds) = []"
  by (induction ds) auto

definition call_ok :: "cpcc_msg \<Rightarrow> bool" where
  "call_ok m \<longleftrightarrow> ch_magic (fst m) = PCC_REQ_MAGIC \<and> ch_op (fst m) = PCC_OP_CALL \<and>
     ch_len (fst m) = length (snd m) \<and> ch_len (fst m) \<le> SRPC_BUF_SIZE"

definition credit_ok_msg :: "cpcc_msg \<Rightarrow> bool" where
  "credit_ok_msg m \<longleftrightarrow> ch_magic (fst m) = PCC_REQ_MAGIC \<and> ch_op (fst m) = PCC_OP_CREDIT \<and>
     ch_len (fst m) = 0 \<and> snd m = [] \<and> 0 < ch_demand (fst m)"

definition stream_ok :: "cpcc_msg list \<Rightarrow> bool" where
  "stream_ok ms \<longleftrightarrow> (case ms of [] \<Rightarrow> True | m # ms \<Rightarrow> credit_ok_msg m \<and> (\<forall>m\<in>set ms. call_ok m))"

lemma stream_ok_append: "stream_ok ms \<Longrightarrow> ms \<noteq> [] \<Longrightarrow> \<forall>m\<in>set ns. call_ok m \<Longrightarrow> stream_ok (ms @ ns)"
  by (cases ms) (auto simp: stream_ok_def)

definition ctx_good :: "crpc_ctx \<Rightarrow> bool" where
  "ctx_good c \<longleftrightarrow> q_len c \<le> SRPC_BUF_SIZE \<and> q_len c \<le> length (q_buf c)"

lemma call_msgs_ok: "\<forall>c\<in>set cs. ctx_good c \<Longrightarrow> \<forall>m\<in>set (call_msgs now n cs). call_ok m"
  by (induction now n cs rule: call_msgs.induct) (auto simp: call_ok_def call_hdr_def ctx_good_def)

text \<open>Requests \<open>ms\<close> have been written on connection \<open>i\<close>, each for one credit it had.\<close>

definition sends :: "nat \<Rightarrow> cpcc_msg list \<Rightarrow> cpcc_session \<Rightarrow> cpcc_session \<Rightarrow> bool" where
  "sends i ms s s' \<longleftrightarrow>
     (\<forall>j. sent_on j (cs_io s') = sent_on j (cs_io s) @ (if j = i then ms else [])) \<and>
     length (cs_conns s') = length (cs_conns s) \<and> cs_init s' = cs_init s \<and>
     (\<forall>j < length (cs_conns s). cc_credit (cs_conns s' ! j) = cc_credit (cs_conns s ! j) \<and>
        unat (cc_credit_used (cs_conns s' ! j)) =
        unat (cc_credit_used (cs_conns s ! j)) + (if j = i then length ms else 0)) \<and>
     (ms \<noteq> [] \<longrightarrow> i < length (cs_conns s) \<and>
        unat (cc_credit_used (cs_conns s ! i)) + length ms \<le> unat (cc_credit (cs_conns s ! i))) \<and>
     (\<forall>m\<in>set ms. call_ok m)"

lemma sends_refl: "sends i [] s s"
  by (simp add: sends_def)

text \<open>The part of the invariant about the queue and the choice of connections.\<close>

definition queue_good :: "cpcc_session \<Rightarrow> bool" where
  "queue_good s \<longleftrightarrow> ring_ok s \<and> (\<forall>c\<in>set (queue s). ctx_good c) \<and> (\<forall>c\<in>set (cs_qreq s). length (q_buf c) = SRPC_BUF_SIZE) \<and>
     0 < length (cs_conns s) \<and> cs_next_conn_idx s < length (cs_conns s)"

lemma drop_expired_good:
  assumes "queue_good s"
  shows "queue_good (drop_expired keep s)" and "sends i [] s (drop_expired keep s)"
    and "cs_conns (drop_expired keep s) = cs_conns s"
proof -
  obtain t where d: "drop_expired keep s = (s\<lparr>cs_tail := t,
      cs_req_dropped := cs_req_dropped s + of_nat (length (takeWhile (\<lambda>c. \<not> keep c) (queue s))),
      cs_io := cs_io s @ map LDrop (takeWhile (\<lambda>c. \<not> keep c) (queue s))\<rparr>)"
    and q: "queue (drop_expired keep s) = dropWhile (\<lambda>c. \<not> keep c) (queue s)" by (rule drop_expired_spec)
  have l: "length (dropWhile (\<lambda>c. \<not> keep c) (queue s)) \<le> length (queue s)" by (rule length_dropWhile_le)
  have f: "cs_qreq (drop_expired keep s) = cs_qreq s" "cs_conns (drop_expired keep s) = cs_conns s"
    "cs_next_conn_idx (drop_expired keep s) = cs_next_conn_idx s" by (simp_all add: d)
  have "ctx_good c" if "c \<in> set (dropWhile (\<lambda>c. \<not> keep c) (queue s))" for c
    using set_dropWhileD [OF that] assms by (simp add: queue_good_def)
  then show "queue_good (drop_expired keep s)"
    using assms l unfolding queue_good_def ring_ok_def q f by simp
  show "sends i [] s (drop_expired keep s)" by (simp add: sends_def d)
  show "cs_conns (drop_expired keep s) = cs_conns s" by (simp add: d)
qed

lemma send_vector_good:
  assumes g: "queue_good s" and i: "i < length (cs_conns s)"
  obtains ms where "sends i ms s (snd (crpc_send_request_vector now ret i s))"
    and "queue_good (snd (crpc_send_request_vector now ret i s))" and "length ms \<le> CRPC_QLEN"
    and "cs_conns (snd (crpc_send_request_vector now ret i s)) ! i =
      (cs_conns s ! i)\<lparr>cc_credit_used := cc_credit_used (cs_conns s ! i) + of_nat (length ms),
            cc_req_tx := cc_req_tx (cs_conns s ! i) + of_nat (length ms)\<rparr>"
proof -
  let ?r = "snd (crpc_send_request_vector now ret i s)"
  let ?cc = "cs_conns s ! i"
  define n where "n = min (length (queue s)) (credit_left ?cc)"
  obtain h t where r: "?r = (if n = 0 then s else
        put_conn i (?cc\<lparr>cc_credit_used := cc_credit_used ?cc + of_nat n, cc_req_tx := cc_req_tx ?cc + of_nat n\<rparr>)
          (s\<lparr>cs_head := h, cs_tail := t, cs_io := cs_io s @ [CWrite i (call_msgs now n (queue s))]\<rparr>))"
    and q: "queue ?r = drop n (queue s)" by (rule send_vector_spec [OF n_def])
  have f: "cs_qreq ?r = cs_qreq s" "length (cs_conns ?r) = length (cs_conns s)"
      "cs_next_conn_idx ?r = cs_next_conn_idx s" by (simp_all add: r put_conn_def)
  have "ctx_good c" if "c \<in> set (drop n (queue s))" for c
    using in_set_dropD [OF that] g by (simp add: queue_good_def)
  then have good: "queue_good ?r" using g unfolding queue_good_def ring_ok_def q f by (simp add: le_diff_conv trans_le_add1)
  have n16: "n \<le> CRPC_QLEN" using g by (auto simp: n_def queue_good_def ring_ok_def)
  show ?thesis
  proof (cases "n = 0")
    case True
    then show ?thesis using that [of "[]"] good sends_refl r by simp
  next
    case False
    have nc: "unat (cc_credit_used ?cc) + n \<le> unat (cc_credit ?cc)"
      using False by (auto simp: n_def credit_left_def)
    then have u: "unat (cc_credit_used ?cc + of_nat n) = unat (cc_credit_used ?cc) + n"
      using unat_u32_less [of "cc_credit ?cc"] by (simp add: unat_word_ariths unat_of_nat)
    have len: "length (call_msgs now n (queue s)) = n" by (simp add: length_call_msgs n_def)
    have "\<forall>m\<in>set (call_msgs now n (queue s)). call_ok m"
      using g by (intro call_msgs_ok) (simp add: queue_good_def)
    then have "sends i (call_msgs now n (queue s)) s ?r"
      using False i u nc len by (auto simp: sends_def r put_conn_def nth_list_update)
    then show ?thesis using good
      by (rule that) (use n16 len False i in \<open>simp_all add: r put_conn_def\<close>)
  qed
qed

lemma sends_Nil:
  "sends i [] s s' \<longleftrightarrow>
     (\<forall>j. sent_on j (cs_io s') = sent_on j (cs_io s)) \<and>
     length (cs_conns s') = length (cs_conns s) \<and> cs_init s' = cs_init s \<and>
     (\<forall>j < length (cs_conns s). cc_credit (cs_conns s' ! j) = cc_credit (cs_conns s ! j) \<and>
        unat (cc_credit_used (cs_conns s' ! j)) = unat (cc_credit_used (cs_conns s ! j)))"
  by (simp add: sends_def cong: if_cong)

lemma sends_trans:
  assumes "sends i [] s s1" and "sends j ms s1 s2"
  shows "sends j ms s s2"
  using assms(2) assms(1) [unfolded sends_Nil] unfolding sends_def
  by (cases "j < length (cs_conns s)") auto

lemma drain_queue_sends:
  assumes g: "queue_good s"
  obtains i ms where "sends i ms s (crpc_drain_queue now vnow ret s)"
    and "queue_good (crpc_drain_queue now vnow ret s)" and "length ms \<le> CRPC_QLEN"
proof (cases "cs_head s = cs_tail s")
  case True
  then show ?thesis using that [of 0 "[]"] g sends_refl by (simp add: crpc_drain_queue_def)
next
  case False
  define s1 where "s1 = drop_expired (\<lambda>c. CPCC_MAX_CLIENT_DELAY_US = 0 \<or> in_time now c) s"
  note s1 = drop_expired_good [OF g, where keep = "\<lambda>c. CPCC_MAX_CLIENT_DELAY_US = 0 \<or> in_time now c", folded s1_def]
  show ?thesis
  proof (cases "find (\<lambda>i. can_send (cs_conns s1 ! i)) (conn_order s1)")
    case None
    then show ?thesis
      using that [of 0 "[]"] False s1 by (simp add: crpc_drain_queue_def s1_def [symmetric] Let_def)
  next
    case (Some i)
    then have "i \<in> set (conn_order s1)" by (metis find_Some_iff nth_mem)
    then have i: "i < length (cs_conns s1)" using s1(1) by (auto simp: conn_order_def queue_good_def)
    obtain ms where m: "sends i ms s1 (snd (crpc_send_request_vector vnow ret i s1))"
      "queue_good (snd (crpc_send_request_vector vnow ret i s1))" "length ms \<le> CRPC_QLEN"
      by (rule send_vector_good [OF s1(1) i, of vnow ret])
    let ?r = "(snd (crpc_send_request_vector vnow ret i s1))\<lparr>cs_next_conn_idx := (i + 1) mod length (cs_conns s1)\<rparr>"
    have r: "crpc_drain_queue now vnow ret s = ?r"
      using False Some by (simp add: crpc_drain_queue_def s1_def [symmetric] Let_def)
    have l: "length (cs_conns (snd (crpc_send_request_vector vnow ret i s1))) = length (cs_conns s1)"
      using m(1) by (simp add: sends_def)
    have "sends i ms s1 ?r" using m(1) by (simp add: sends_def)
    then have "sends i ms s ?r" by (rule sends_trans [OF s1(2)])
    moreover have "queue_good ?r" using m(2) i l by (simp add: queue_good_def ring_ok_def)
    ultimately show ?thesis using that m(3) r by simp
  qed
qed

end
