(* ===== verification/Pcc_Client_Runs.thy ===== *)
theory Pcc_Client_Runs
  imports Pcc_Client_Queue
begin

text \<open>
  Runs of a client session and their invariant: what each connection has written so far is a
  credit message followed by requests, and the credit in use on a connection is the number of
  its requests that have no response yet.
\<close>

section \<open>Runs of a client\<close>

text \<open>A response to a request, read completely.\<close>

definition is_resp :: "nat \<Rightarrow> cpcc_rx \<Rightarrow> bool" where
  "is_resp buflen r \<longleftrightarrow> rx_ret r > 0 \<and> sh_magic (rx_hdr r) = PCC_RESP_MAGIC \<and>
     sh_len (rx_hdr r) \<le> min SRPC_BUF_SIZE buflen \<and> sh_op (rx_hdr r) = PCC_OP_CALL \<and>
     (sh_len (rx_hdr r) > 0 \<longrightarrow> rx_payload_ret r > 0)"

text \<open>Steps of a session, with the number of responses each connection has received.  The caller's
  buffer holds the bytes it says; the server writes on a connection only after the client has,
  and answers a request at most once.\<close>

inductive cl_run :: "cpcc_session \<Rightarrow> (nat \<Rightarrow> nat) \<Rightarrow> bool" where
  open_session: "cpcc_open port dial wr (Some q) sid ty spawn = Some (Inr s) \<Longrightarrow> length q = CRPC_QLEN \<Longrightarrow>
    (\<forall>c\<in>set q. length (q_buf c) = SRPC_BUF_SIZE) \<Longrightarrow> cl_run s (\<lambda>_. 0)"
| send: "cl_run s A \<Longrightarrow> len \<le> length buf \<Longrightarrow> cl_run (snd (cpcc_send_one e buf len arg s)) A"
| recv: "cl_run s A \<Longrightarrow> i < length (cs_conns s) \<Longrightarrow> sent_on i (cs_io s) \<noteq> [] \<Longrightarrow>
    (is_resp buflen r \<longrightarrow> A i < length (tl (sent_on i (cs_io s)))) \<Longrightarrow>
    cl_run (snd (cpcc_recv_msg buflen r i s)) (A(i := A i + of_bool (is_resp buflen r)))"
| timer: "cl_run s A \<Longrightarrow> cl_run (snd (crpc_timer now s)) A"
| add: "cl_run s A \<Longrightarrow> cl_run (snd (cpcc_add_connection port dial wr mem s)) A"
| clear: "cl_run s A \<Longrightarrow> cl_run (cpcc_sess_stat_clear s) A"
| close: "cl_run s A \<Longrightarrow> cl_run (cpcc_close s) A"

section \<open>The invariant\<close>

text \<open>Without its first message a connection has no credit; the credit in use is the number of
  requests without a response.\<close>

definition conn_inv :: "nat \<Rightarrow> nat \<Rightarrow> cpcc_session \<Rightarrow> bool" where
  "conn_inv i a s \<longleftrightarrow>
     (let ms = sent_on i (cs_io s); cc = cs_conns s ! i
      in stream_ok ms \<and> (i \<ge> length (cs_conns s) \<longrightarrow> ms = [] \<and> a = 0) \<and>
         (i < length (cs_conns s) \<longrightarrow> (ms = [] \<longrightarrow> cc_credit cc = 0) \<and>
            a + unat (cc_credit_used cc) = length (tl ms)) \<and>
         (\<not> cs_init s \<longrightarrow> ms = []))"

definition cl_inv :: "cpcc_session \<Rightarrow> (nat \<Rightarrow> nat) \<Rightarrow> bool" where
  "cl_inv s A \<longleftrightarrow> queue_good s \<and> (\<forall>i. conn_inv i (A i) s)"

lemma cl_demand_pos: "0 < cl_demand h t \<longleftrightarrow> h \<noteq> t"
proof -
  have "unat (h - t) < 2 ^ 64" using unsigned_less [of "h - t", where 'a=nat] by simp
  then have "unat (cl_demand h t) = unat (h - t)"
    by (simp add: cl_demand_def unsigned_ucast_eq take_bit_nat_eq_self)
  then show ?thesis by (metis eq_iff_diff_eq_0 unat_eq_0 word_gt_0)
qed

lemma conn_inv_sends:
  assumes inv: "\<forall>i. conn_inv i (A i) s" and s: "sends k ms s s'"
  shows "conn_inv i (A i) s'"
proof (cases "i = k \<and> ms \<noteq> []")
  case False
  then show ?thesis using inv s by (auto simp: conn_inv_def Let_def sends_def)
next
  case True
  let ?M = "sent_on i (cs_io s)"
  have k: "i < length (cs_conns s)" "unat (cc_credit_used (cs_conns s ! i)) + length ms \<le> unat (cc_credit (cs_conns s ! i))"
    "\<forall>m\<in>set ms. call_ok m" using s True by (simp_all add: sends_def)
  have iv: "stream_ok ?M" "?M = [] \<longrightarrow> cc_credit (cs_conns s ! i) = 0" "\<not> cs_init s \<longrightarrow> ?M = []"
    "A i + unat (cc_credit_used (cs_conns s ! i)) = length (tl ?M)"
    using spec [OF inv, of i] k(1) by (simp_all add: conn_inv_def Let_def)
  have ne: "?M \<noteq> []"
  proof
    assume "?M = []"
    then have "unat (cc_credit (cs_conns s ! i)) = 0" using iv(2) by simp
    with k(2) True show False by simp
  qed
  have m': "sent_on i (cs_io s') = ?M @ ms" using s True by (simp add: sends_def)
  have so: "stream_ok (?M @ ms)" using stream_ok_append [OF iv(1) ne k(3)] .
  have u: "unat (cc_credit_used (cs_conns s' ! i)) = unat (cc_credit_used (cs_conns s ! i)) + length ms"
    "length (cs_conns s') = length (cs_conns s)" "cs_init s' = cs_init s"
    using s True k(1) by (simp_all add: sends_def)
  obtain m M where M: "?M = m # M" using ne by (cases ?M) auto
  show ?thesis
    using so iv(3,4) k(1) by (simp add: conn_inv_def Let_def m' u M)
qed

lemma conn_inv_frame:
  assumes "conn_inv i a s" and "sent_on i (cs_io s') = sent_on i (cs_io s)"
    and "length (cs_conns s') = length (cs_conns s)" and "cs_init s \<longrightarrow> cs_init s'"
    and "i < length (cs_conns s) \<longrightarrow> cc_credit (cs_conns s' ! i) = cc_credit (cs_conns s ! i) \<and>
      cc_credit_used (cs_conns s' ! i) = cc_credit_used (cs_conns s ! i)"
  shows "conn_inv i a s'"
  using assms by (auto simp: conn_inv_def Let_def)

subsection \<open>Enqueueing\<close>

text \<open>The first message goes out on every connection.\<close>

lemma first_cupdates:
  assumes "\<forall>i\<in>set is'. i < length (cs_conns s)" and "distinct is'"
  shows "let s' = fold (first_cupdate junk rets) is' s in
    (\<forall>j. sent_on j (cs_io s') = sent_on j (cs_io s) @
      (if j \<in> set is' then [(junk\<lparr>ch_magic := PCC_REQ_MAGIC, ch_op := PCC_OP_CREDIT, ch_len := 0, ch_id := 0,
          ch_demand := cl_demand (cs_head s) (cs_tail s), ch_flags := 0\<rparr>, [])] else [])) \<and>
    (\<forall>j < length (cs_conns s). cc_credit (cs_conns s' ! j) = cc_credit (cs_conns s ! j) \<and>
      cc_credit_used (cs_conns s' ! j) = cc_credit_used (cs_conns s ! j)) \<and> cs_init s' = cs_init s"
  using assms
proof (induction is' arbitrary: s)
  case (Cons i is')
  let ?s = "first_cupdate junk rets i s"
  have f: "cs_head ?s = cs_head s" "cs_tail ?s = cs_tail s" "length (cs_conns ?s) = length (cs_conns s)"
    "cs_init ?s = cs_init s"
    by (simp_all add: first_cupdate_def crpc_send_cupdate_def Let_def cl_emit_def put_conn_def)
  have io: "sent_on j (cs_io ?s) = sent_on j (cs_io s) @
      (if j = i then [(junk\<lparr>ch_magic := PCC_REQ_MAGIC, ch_op := PCC_OP_CREDIT, ch_len := 0, ch_id := 0,
          ch_demand := cl_demand (cs_head s) (cs_tail s), ch_flags := 0\<rparr>, [])] else [])" for j
    by (simp add: first_cupdate_def crpc_send_cupdate_def Let_def cl_emit_def put_conn_def)
  have cc: "cc_credit (cs_conns ?s ! j) = cc_credit (cs_conns s ! j) \<and>
      cc_credit_used (cs_conns ?s ! j) = cc_credit_used (cs_conns s ! j)" if "j < length (cs_conns s)" for j
    using that Cons.prems(1)
    by (cases "j = i") (simp_all add: first_cupdate_def crpc_send_cupdate_def Let_def cl_emit_def put_conn_def)
  have "\<forall>i\<in>set is'. i < length (cs_conns ?s)" "distinct is'" using Cons.prems f(3) by auto
  note ih = Cons.IH [OF this, unfolded Let_def f]
  show ?case
    unfolding Let_def fold_simps comp_apply using ih io cc Cons.prems(2) by auto
qed simp

text \<open>A new request enters the queue; the first one also sends a credit message on every connection.\<close>

lemma enqueue_inv:
  assumes inv: "cl_inv s A" and len: "len \<le> length buf" "len \<le> SRPC_BUF_SIZE"
  shows "cl_inv (snd (crpc_enqueue_one now junk rets buf len arg s)) A"
proof -
  let ?c = "enq_ctx now buf len arg s"
  let ?r = "snd (crpc_enqueue_one now junk rets buf len arg s)"
  have g: "queue_good s" "ring_ok s" "length (cs_qreq s) = CRPC_QLEN" "length (queue s) \<le> CRPC_QLEN"
    using inv by (auto simp: cl_inv_def queue_good_def ring_ok_def)
  have buf: "length (q_buf ?c) = SRPC_BUF_SIZE" "q_len ?c = len"
    using g(1,3) ring_pos_less [of "cs_head s"] len
    by (auto simp: enq_ctx_def Let_def queue_good_def)
  note q = enqueue_queue [OF g(2), of now junk rets buf len arg]
  define s1 where "s1 = (if unat (cs_head s - cs_tail s) \<ge> CRPC_QLEN
       then cl_emit [LDrop (cs_qreq s ! ring_pos (cs_tail s))]
          (s\<lparr>cs_tail := cs_tail s + 1, cs_req_dropped := cs_req_dropped s + 1\<rparr>) else s)
      \<lparr>cs_head := cs_head s + 1, cs_qreq := (cs_qreq s)[ring_pos (cs_head s) := ?c], cs_req_id := cs_req_id s + 1\<rparr>"
  define s2 where "s2 = (if \<not> cs_init s then (fold (first_cupdate junk rets) [0..<length (cs_conns s)] s1)\<lparr>cs_init := True\<rparr> else s1)"
  have r: "?r = (if cs_head s2 - cs_tail s2 = 1 then cl_emit [TimerSignal] s2 else s2)"
  proof -
    define s0 where "s0 = (if unat (cs_head s - cs_tail s) \<ge> CRPC_QLEN
       then cl_emit [LDrop (cs_qreq s ! ring_pos (cs_tail s))]
          (s\<lparr>cs_tail := cs_tail s + 1, cs_req_dropped := cs_req_dropped s + 1\<rparr>) else s)"
    have s0: "cs_head s0 = cs_head s" "cs_qreq s0 = cs_qreq s" "cs_req_id s0 = cs_req_id s"
      "cs_init s0 = cs_init s" "cs_conns s0 = cs_conns s" by (simp_all add: s0_def cl_emit_def)
    have "s1 = s0\<lparr>cs_head := cs_head s + 1, cs_qreq := (cs_qreq s)[ring_pos (cs_head s) := ?c],
        cs_req_id := cs_req_id s + 1\<rparr>" by (simp add: s1_def s0_def)
    then show ?thesis
      unfolding crpc_enqueue_one_def s0_def [symmetric] s2_def Let_def snd_conv
      by (simp add: s0 enq_ctx_def Let_def)
  qed
  have f1: "cs_conns s1 = cs_conns s" "cs_init s1 = cs_init s" "cs_next_conn_idx s1 = cs_next_conn_idx s"
    "sent_on i (cs_io s1) = sent_on i (cs_io s)" for i by (simp_all add: s1_def cl_emit_def)
  have q1: "cs_qreq s1 = (cs_qreq s)[ring_pos (cs_head s) := ?c]" by (simp add: s1_def)
  have s2f: "cs_qreq s2 = cs_qreq s1" "cs_next_conn_idx s2 = cs_next_conn_idx s1" "cs_head s2 = cs_head s1"
    "cs_tail s2 = cs_tail s1" "length (cs_conns s2) = length (cs_conns s1)"
    by (simp_all add: s2_def first_cupdate_frame)
  have "cs_qreq ?r = cs_qreq s2 \<and> cs_next_conn_idx ?r = cs_next_conn_idx s2 \<and> cs_head ?r = cs_head s2 \<and>
      cs_tail ?r = cs_tail s2 \<and> cs_conns ?r = cs_conns s2 \<and> cs_init ?r = cs_init s2 \<and>
      (\<forall>i. sent_on i (cs_io ?r) = sent_on i (cs_io s2))"
    unfolding r by (simp add: cl_emit_def)
  note rf = this
  have f2: "cs_qreq ?r = (cs_qreq s)[ring_pos (cs_head s) := ?c]" "cs_next_conn_idx ?r = cs_next_conn_idx s"
    "length (cs_conns ?r) = length (cs_conns s)" "cs_head ?r = cs_head s1" "cs_tail ?r = cs_tail s1"
    using rf s2f q1 f1 by simp_all
  have "ctx_good c" if "c \<in> set (queue ?r)" for c
    using that g(1) buf len(2) unfolding q(1) queue_good_def
    by (auto simp: ctx_good_def dest: in_set_dropD)
  moreover have "length (q_buf c) = SRPC_BUF_SIZE" if "c \<in> set (cs_qreq ?r)" for c
    using that g(1) buf set_update_subset_insert [of "cs_qreq s" "ring_pos (cs_head s)" ?c]
    unfolding f2 queue_good_def by blast
  ultimately have good: "queue_good ?r" using g(1) q(2) f2 by (auto simp: queue_good_def)
  have "conn_inv i (A i) ?r" for i
  proof (cases "cs_init s")
    case True
    then have "s2 = s1" by (simp add: s2_def)
    then have e: "sent_on i (cs_io ?r) = sent_on i (cs_io s)" "cs_conns ?r = cs_conns s" "cs_init ?r = cs_init s"
      using rf f1 by metis+
    have "conn_inv i (A i) s" using inv by (simp add: cl_inv_def)
    then show ?thesis unfolding conn_inv_def e .
  next
    case False
    have "length (queue ?r) = unat (cs_head s1 - cs_tail s1)" by (simp add: length_queue f2)
    moreover have "length (queue ?r) > 0" using g(4) unfolding q(1) by (simp add: CRPC_QLEN_def)
    ultimately have "cs_head s1 - cs_tail s1 \<noteq> 0" by (metis unat_0 less_irrefl)
    then have dem: "0 < cl_demand (cs_head s1) (cs_tail s1)"
      by (simp add: cl_demand_pos)
    let ?m = "(junk\<lparr>ch_magic := PCC_REQ_MAGIC, ch_op := PCC_OP_CREDIT, ch_len := 0, ch_id := 0,
          ch_demand := cl_demand (cs_head s1) (cs_tail s1), ch_flags := 0\<rparr>, [])"
    note F = first_cupdates [of "[0..<length (cs_conns s)]" s1 junk rets, unfolded Let_def]
    have iv: "conn_inv i (A i) s" using inv by (simp add: cl_inv_def)
    have M: "sent_on i (cs_io ?r) = (if i < length (cs_conns s) then [?m] else [])"
      using F f1 rf iv False by (simp add: s2_def conn_inv_def Let_def)
    have C: "i < length (cs_conns s) \<longrightarrow> cc_credit (cs_conns ?r ! i) = cc_credit (cs_conns s ! i) \<and>
        cc_credit_used (cs_conns ?r ! i) = cc_credit_used (cs_conns s ! i)"
      using F f1 rf False by (simp add: s2_def)
    have "cs_init ?r" using rf False by (simp add: s2_def)
    moreover have "stream_ok [?m]" using dem by (simp add: stream_ok_def credit_ok_msg_def)
    ultimately show ?thesis
      using iv False M C f2(3) by (simp add: conn_inv_def Let_def stream_ok_def)
  qed
  with good show ?thesis by (simp add: cl_inv_def)
qed

subsection \<open>The other steps\<close>

lemma cl_inv_sends:
  assumes "cl_inv s A" and "sends k ms s s'" and "queue_good s'"
  shows "cl_inv s' A"
  using assms conn_inv_sends [of A s k ms s'] by (simp add: cl_inv_def)

lemma drain_inv:
  assumes "cl_inv s A"
  shows "cl_inv (crpc_drain_queue now vnow ret s) A"
proof -
  obtain i ms where "sends i ms s (crpc_drain_queue now vnow ret s)" "queue_good (crpc_drain_queue now vnow ret s)"
    by (rule drain_queue_sends [of s]) (use assms in \<open>auto simp: cl_inv_def\<close>)
  then show ?thesis by (rule cl_inv_sends [OF assms])
qed

lemma send_raw_sends:
  assumes g: "queue_good s" and i: "i = cs_next_conn_idx s" and cc: "cc = cs_conns s ! i"
    and c: "cc_credit_used cc < cc_credit cc" and len: "len \<le> length buf" "len \<le> SRPC_BUF_SIZE"
    and s': "s' = snd (crpc_send_raw now ret i buf len rid
      ((put_conn i (cc\<lparr>cc_credit_used := cc_credit_used cc + 1\<rparr>) s)\<lparr>cs_req_id := rid'\<rparr>))"
  shows "sends i [(call_hdr rid len (cl_demand (cs_head s) (cs_tail s)) now, take len buf)] s s'"
    and "queue_good s'" and "cs_next_conn_idx s' = i" and "length (cs_conns s') = length (cs_conns s)"
proof -
  have il: "i < length (cs_conns s)" using g i by (simp add: queue_good_def)
  have lt: "unat (cc_credit_used cc) < unat (cc_credit cc)" using c by (simp add: word_less_nat_alt)
  then have u: "unat (cc_credit_used cc + 1) = unat (cc_credit_used cc) + 1"
    using unat_u32_less [of "cc_credit cc"] by (simp add: unat_word_ariths)
  have cr: "cc_credit (cs_conns s' ! j) = cc_credit (cs_conns s ! j) \<and> unat (cc_credit_used (cs_conns s' ! j)) =
        unat (cc_credit_used (cs_conns s ! j)) + (if j = i then 1 else 0)" if "j < length (cs_conns s)" for j
    using il that u cc by (cases "j = i") (simp_all add: s' crpc_send_raw_def Let_def cl_emit_def put_conn_def)
  have io: "cs_io s' = cs_io s @ [CWrite i [(call_hdr rid len (cl_demand (cs_head s) (cs_tail s)) now, take len buf)]]"
    by (simp add: s' crpc_send_raw_def Let_def cl_emit_def put_conn_def)
  have f: "cs_next_conn_idx s' = i" "length (cs_conns s') = length (cs_conns s)" "cs_init s' = cs_init s"
      "cs_qreq s' = cs_qreq s" "queue s' = queue s"
    using i by (simp_all add: s' crpc_send_raw_def Let_def cl_emit_def put_conn_def queue_def)
  have m: "call_ok (call_hdr rid len (cl_demand (cs_head s) (cs_tail s)) now, take len buf)"
    using len by (simp add: call_ok_def call_hdr_def)
  show "sends i [(call_hdr rid len (cl_demand (cs_head s) (cs_tail s)) now, take len buf)] s s'"
    using cr il lt cc m by (simp add: sends_def io f)
  show "queue_good s'" using g f i by (simp add: queue_good_def ring_ok_def)
  show "cs_next_conn_idx s' = i" "length (cs_conns s') = length (cs_conns s)" by fact+
qed

lemma send_one_inv:
  assumes inv: "cl_inv s A" and len: "len \<le> length buf"
  shows "cl_inv (snd (cpcc_send_one e buf len arg s)) A"
proof (cases "len > SRPC_BUF_SIZE")
  case True
  then show ?thesis using inv by (simp add: cpcc_send_one_def)
next
  case False
  define cc where "cc = cs_conns s ! cs_next_conn_idx s"
  show ?thesis
  proof (cases "cc_credit_used cc < cc_credit cc \<and> cs_head s = cs_tail s")
    case True
    let ?i = "cs_next_conn_idx s"
    define s' where "s' = snd (crpc_send_raw (in_raw_now e) (in_raw_ret e) ?i buf len (cs_req_id s)
      ((put_conn ?i (cc\<lparr>cc_credit_used := cc_credit_used cc + 1\<rparr>) s)\<lparr>cs_req_id := cs_req_id s + 1\<rparr>))"
    have g: "queue_good s" using inv by (simp add: cl_inv_def)
    note S = send_raw_sends [OF g refl cc_def conjunct1 [OF True] len _ s'_def]
    have inv': "cl_inv s' A" by (rule cl_inv_sends [OF inv S(1,2)]) (use False in auto)
    have r: "snd (cpcc_send_one e buf len arg s) =
        s'\<lparr>cs_next_conn_idx := (cs_next_conn_idx s' + 1) mod length (cs_conns s')\<rparr>"
      using True False unfolding s'_def cpcc_send_one_def Let_def cc_def
      by (simp add: put_conn_def split: prod.split)
    have "0 < length (cs_conns s')" using inv' by (simp add: cl_inv_def queue_good_def)
    then show ?thesis
      using inv' unfolding r by (simp add: cl_inv_def queue_good_def ring_ok_def conn_inv_def)
  next
    case no: False
    have "snd (cpcc_send_one e buf len arg s) =
        crpc_drain_queue (in_drain_now e) (in_vec_now e) (in_vec_ret e)
          (snd (crpc_enqueue_one (in_enq_now e) (in_enq_junk e) (in_enq_rets e) buf len arg s))"
      using no False unfolding cpcc_send_one_def Let_def cc_def by (auto split: prod.split)
    then show ?thesis using drain_inv [OF enqueue_inv [OF inv len]] False by simp
  qed
qed

lemma took_credit_inv:
  assumes inv: "cl_inv s A" and i: "i < length (cs_conns s)" and ne: "sent_on i (cs_io s) \<noteq> []"
    and a: "a + unat (cc_credit_used cc) = length (tl (sent_on i (cs_io s)))"
  shows "cl_inv (took_credit r i cc s) (A(i := a))"
proof -
  define s1 where "s1 = put_conn i (cc\<lparr>cc_credit := ucast (sh_credit (rx_hdr r)), cc_waiting_resp := False\<rparr>) s"
  have f: "cs_io s1 = cs_io s" "length (cs_conns s1) = length (cs_conns s)" "cs_init s1 = cs_init s"
    "cs_qreq s1 = cs_qreq s" "queue s1 = queue s" "cs_next_conn_idx s1 = cs_next_conn_idx s"
    by (simp_all add: s1_def put_conn_def queue_def)
  have "conn_inv j ((A(i := a)) j) s1" for j
  proof (cases "j = i")
    case True
    then show ?thesis using inv i ne a unfolding cl_inv_def conn_inv_def Let_def f
      by (auto simp: s1_def put_conn_def)
  next
    case False
    then have "cs_conns s1 ! j = cs_conns s ! j" by (simp add: s1_def put_conn_def)
    then show ?thesis using inv False unfolding cl_inv_def conn_inv_def Let_def f by simp
  qed
  then have "cl_inv s1 (A(i := a))" using inv by (simp add: cl_inv_def queue_good_def ring_ok_def f)
  then show ?thesis using drain_inv unfolding took_credit_def s1_def Let_def by simp
qed

lemma cl_inv_emit: "cl_inv s A \<Longrightarrow> cl_inv (cl_emit [RDrop bs ret] s) A"
  by (simp add: cl_inv_def queue_good_def ring_ok_def conn_inv_def cl_emit_def queue_def)

lemma cl_inv_ecredit:
  assumes "cl_inv s A"
  shows "cl_inv (put_conn i ((cs_conns s ! i)\<lparr>cc_ecredit_rx := x\<rparr>) s) A"
proof -
  have "conn_inv j (A j) (put_conn i ((cs_conns s ! i)\<lparr>cc_ecredit_rx := x\<rparr>) s)" for j
    by (rule conn_inv_frame [of _ _ s])
      (use assms in \<open>cases "j = i"; simp add: cl_inv_def put_conn_def\<close>)+
  then show ?thesis using assms by (simp add: cl_inv_def queue_good_def ring_ok_def put_conn_def queue_def)
qed

lemma recv_msg_inv:
  assumes inv: "cl_inv s A" and i: "i < length (cs_conns s)" and ne: "sent_on i (cs_io s) \<noteq> []"
    and a: "is_resp buflen r \<longrightarrow> A i < length (tl (sent_on i (cs_io s)))"
  shows "cl_inv (snd (cpcc_recv_msg buflen r i s)) (A(i := A i + of_bool (is_resp buflen r)))"
proof -
  let ?cc = "cs_conns s ! i"
  have acc: "A i + unat (cc_credit_used ?cc) = length (tl (sent_on i (cs_io s)))"
    using inv i by (simp add: cl_inv_def conn_inv_def Let_def)
  show ?thesis
  proof (cases "is_resp buflen r")
    case True
    let ?c1 = "if sh_len (rx_hdr r) > 0 \<and> \<not> sh_flags (rx_hdr r) AND PCC_SFLAG_DROP \<noteq> 0
        then ?cc\<lparr>cc_resp_rx := cc_resp_rx ?cc + 1\<rparr> else ?cc"
    let ?c2 = "?c1\<lparr>cc_credit_used := cc_credit_used ?cc - 1\<rparr>"
    have "0 < unat (cc_credit_used ?cc)" using acc a True by simp
    then have "unat (cc_credit_used ?c2) = unat (cc_credit_used ?cc) - 1"
      using unat_sub [of 1 "cc_credit_used ?cc"] by (simp add: word_le_nat_alt)
    then have "A i + 1 + unat (cc_credit_used ?c2) = length (tl (sent_on i (cs_io s)))"
      using acc a True by simp
    note t = took_credit_inv [OF inv i ne this, of r]
    have "snd (cpcc_recv_msg buflen r i s) = took_credit r i ?c2 s \<or>
        (\<exists>es. snd (cpcc_recv_msg buflen r i s) = cl_emit [RDrop (rx_payload r) es] (took_credit r i ?c2 s))"
      using True unfolding is_resp_def cpcc_recv_msg_def crpc_recv_call_def Let_def by auto
    then have "cl_inv (snd (cpcc_recv_msg buflen r i s)) (A(i := A i + 1))"
      using t cl_inv_emit by metis
    then show ?thesis using True by simp
  next
    case False
    have A: "A(i := A i) = A" by simp
    show ?thesis
    proof (cases "sh_op (rx_hdr r) = PCC_OP_CALL")
      case True
      then have "snd (cpcc_recv_msg buflen r i s) = s"
        using False unfolding is_resp_def cpcc_recv_msg_def crpc_recv_call_def Let_def by auto
      then show ?thesis using inv False by simp
    next
      case no: False
      let ?s1 = "took_credit r i ?cc s"
      have t: "cl_inv ?s1 A" using took_credit_inv [OF inv i ne acc, of r] by simp
      let ?s2 = "put_conn i ((cs_conns ?s1 ! i)\<lparr>cc_ecredit_rx := cc_ecredit_rx (cs_conns ?s1 ! i) + 1\<rparr>) ?s1"
      have t2: "cl_inv ?s2 A" using t by (rule cl_inv_ecredit)
      have "snd (cpcc_recv_msg buflen r i s) = s \<or> snd (cpcc_recv_msg buflen r i s) = ?s2"
        using no unfolding cpcc_recv_msg_def crpc_recv_credit_def Let_def by auto
      then show ?thesis using inv t2 False by auto
    qed
  qed
qed

lemma timer_inv: "cl_inv s A \<Longrightarrow> cl_inv (snd (crpc_timer now s)) A"
  using cl_inv_sends [OF _ drop_expired_good(2,1), of s A] unfolding crpc_timer_def Let_def
  by (auto simp: cl_inv_def)

lemma add_inv:
  assumes inv: "cl_inv s A"
  shows "cl_inv (snd (cpcc_add_connection port dial wr mem s)) A"
proof -
  let ?s = "s\<lparr>cs_conns := cs_conns s @ [zero_conn]\<rparr>"
  have "conn_inv i (A i) ?s" for i
  proof -
    have "conn_inv i (A i) s" using inv by (simp add: cl_inv_def)
    then show ?thesis
      by (cases "i < length (cs_conns s)"; cases "i = length (cs_conns s)")
        (auto simp: conn_inv_def Let_def nth_append zero_conn_def)
  qed
  then have "cl_inv ?s A" using inv by (auto simp: cl_inv_def queue_good_def ring_ok_def queue_def)
  then show ?thesis using inv by (simp add: cpcc_add_connection_def)
qed

lemma clear_inv:
  assumes inv: "cl_inv s A"
  shows "cl_inv (cpcc_sess_stat_clear s) A"
proof -
  have "conn_inv i (A i) (cpcc_sess_stat_clear s)" for i
    by (rule conn_inv_frame [of _ _ s])
      (use inv in \<open>auto simp: cl_inv_def cpcc_sess_stat_clear_def cpcc_conn_stat_clear_def\<close>)
  then show ?thesis
    using inv by (simp add: cl_inv_def queue_good_def ring_ok_def queue_def cpcc_sess_stat_clear_def)
qed

lemma close_inv: "cl_inv s A \<Longrightarrow> cl_inv (cpcc_close s) A"
  by (simp add: cl_inv_def queue_good_def ring_ok_def queue_def cpcc_close_def cl_emit_def conn_inv_def)

lemma open_inv:
  assumes "cpcc_open port dial wr (Some q) sid ty spawn = Some (Inr s)" "length q = CRPC_QLEN"
    "\<forall>c\<in>set q. length (q_buf c) = SRPC_BUF_SIZE"
  shows "cl_inv s (\<lambda>_. 0)"
  using assms
  by (auto simp: cpcc_open_def cl_inv_def queue_good_def ring_ok_def queue_def ring_queue_def conn_inv_def
      stream_ok_def zero_conn_def split: if_splits)

lemma cl_run_inv: "cl_run s A \<Longrightarrow> cl_inv s A"
proof (induction rule: cl_run.induct)
  case (recv s A i buflen r)
  then show ?case by (intro recv_msg_inv)
qed (auto intro: open_inv send_one_inv timer_inv add_inv clear_inv close_inv)

end
