(* ===== verification/Pcc_Client_Safety.thy ===== *)
theory Pcc_Client_Safety
  imports Pcc_Client_Runs "HOL-Library.Multiset"
begin

text \<open>
  What a client of the PCC protocol guarantees in every run of a session: the form of what it
  writes, its use of credit, the fate of each request, and that its ring buffer refines an
  abstract bounded queue.
\<close>

section \<open>Every request is accounted for\<close>

fun sent_ids :: "cpcc_io list \<Rightarrow> u64 list" where
  "sent_ids [] = []"
| "sent_ids (CWrite j ms # es) = map (\<lambda>m. ch_id (fst m)) (filter (\<lambda>m. ch_op (fst m) = PCC_OP_CALL) ms) @ sent_ids es"
| "sent_ids (_ # es) = sent_ids es"

fun dropped_ids :: "cpcc_io list \<Rightarrow> u64 list" where
  "dropped_ids [] = []"
| "dropped_ids (LDrop c # es) = q_id c # dropped_ids es"
| "dropped_ids (_ # es) = dropped_ids es"

lemma sent_ids_append [simp]: "sent_ids (xs @ ys) = sent_ids xs @ sent_ids ys"
  by (induction xs rule: sent_ids.induct) auto

lemma dropped_ids_append [simp]: "dropped_ids (xs @ ys) = dropped_ids xs @ dropped_ids ys"
  by (induction xs rule: dropped_ids.induct) auto

lemma ids_drops [simp]: "sent_ids (map LDrop ds) = []" "dropped_ids (map LDrop ds) = map q_id ds"
  by (induction ds) auto

lemma ids_call_msgs: "map (\<lambda>m. ch_id (fst m)) (filter (\<lambda>m. ch_op (fst m) = PCC_OP_CALL) (call_msgs now n cs)) =
    map q_id (take n cs)"
  by (induction now n cs rule: call_msgs.induct) (auto simp: call_hdr_def)

text \<open>Requests that were sent, dropped with a call of the drop handler, or wait.\<close>

definition requests :: "cpcc_session \<Rightarrow> u64 multiset" where
  "requests s = mset (sent_ids (cs_io s)) + mset (dropped_ids (cs_io s)) + mset (map q_id (queue s))"

lemma requests_frame [simp]:
  "requests (put_conn i cc s) = requests s" "requests (s\<lparr>cs_next_conn_idx := n\<rparr>) = requests s"
  "requests (s\<lparr>cs_req_id := d\<rparr>) = requests s" "requests (s\<lparr>cs_init := b\<rparr>) = requests s"
  "requests (s\<lparr>cs_running := b\<rparr>) = requests s" "requests (s\<lparr>cs_conns := ccs\<rparr>) = requests s"
  "requests (s\<lparr>cs_req_dropped := d\<rparr>) = requests s"
  by (simp_all add: requests_def put_conn_def queue_def)

lemma requests_emit [simp]:
  "requests (cl_emit [TimerSignal] s) = requests s" "requests (cl_emit [RDrop bs ret] s) = requests s"
  by (simp_all add: requests_def cl_emit_def queue_def)

definition same_requests :: "cpcc_session \<Rightarrow> cpcc_session \<Rightarrow> bool" where
  "same_requests s s' \<longleftrightarrow> requests s' = requests s \<and> cs_req_id s' = cs_req_id s"

lemma same_requests_refl [simp]: "same_requests s s" by (simp add: same_requests_def)

lemma drop_expired_requests: "same_requests s (drop_expired keep s)"
proof -
  let ?p = "\<lambda>c. \<not> keep c"
  obtain t where d: "drop_expired keep s = (s\<lparr>cs_tail := t,
      cs_req_dropped := cs_req_dropped s + of_nat (length (takeWhile ?p (queue s))),
      cs_io := cs_io s @ map LDrop (takeWhile ?p (queue s))\<rparr>)"
    and q: "queue (drop_expired keep s) = dropWhile ?p (queue s)" by (rule drop_expired_spec)
  have "mset (map q_id (queue s)) = mset (map q_id (takeWhile ?p (queue s))) + mset (map q_id (dropWhile ?p (queue s)))"
    by (metis map_append mset_append takeWhile_dropWhile_id)
  then show ?thesis using q by (simp add: same_requests_def requests_def d)
qed

lemma send_vector_requests: "same_requests s (snd (crpc_send_request_vector now ret i s))"
proof -
  define n where "n = min (length (queue s)) (credit_left (cs_conns s ! i))"
  let ?r = "snd (crpc_send_request_vector now ret i s)"
  let ?cc = "cs_conns s ! i"
  obtain h t where r: "?r = (if n = 0 then s else
        put_conn i (?cc\<lparr>cc_credit_used := cc_credit_used ?cc + of_nat n, cc_req_tx := cc_req_tx ?cc + of_nat n\<rparr>)
          (s\<lparr>cs_head := h, cs_tail := t, cs_io := cs_io s @ [CWrite i (call_msgs now n (queue s))]\<rparr>))"
    and q: "queue ?r = drop n (queue s)" by (rule send_vector_spec [OF n_def])
  have m: "mset (map q_id (queue s)) = mset (map q_id (take n (queue s))) + mset (map q_id (drop n (queue s)))"
    by (metis append_take_drop_id map_append mset_append)
  have "cs_io ?r = (if n = 0 then cs_io s else cs_io s @ [CWrite i (call_msgs now n (queue s))])"
    "cs_req_id ?r = cs_req_id s" by (simp_all add: r put_conn_def)
  then show ?thesis unfolding same_requests_def requests_def q m by (simp add: ids_call_msgs)
qed

lemma drain_requests: "same_requests s (crpc_drain_queue now vnow ret s)"
proof -
  define s1 where "s1 = drop_expired (\<lambda>c. CPCC_MAX_CLIENT_DELAY_US = 0 \<or> in_time now c) s"
  have d: "same_requests s s1" unfolding s1_def by (rule drop_expired_requests)
  show ?thesis
    using d send_vector_requests [of s1 vnow ret] unfolding crpc_drain_queue_def Let_def s1_def [symmetric]
    by (auto simp: same_requests_def split: option.split)
qed

lemma first_cupdates_requests: "same_requests s (fold (first_cupdate junk rets) is' s)"
proof (induction is' arbitrary: s)
  case (Cons i is')
  have "same_requests s (first_cupdate junk rets i s)"
    by (simp add: first_cupdate_def crpc_send_cupdate_def Let_def same_requests_def requests_def cl_emit_def
        put_conn_def PCC_OP_CREDIT_def PCC_OP_CALL_def queue_def)
  with Cons [of "first_cupdate junk rets i s"] show ?case by (simp add: same_requests_def)
qed simp

lemma enqueue_requests:
  assumes ok: "ring_ok s"
  shows "requests (snd (crpc_enqueue_one now junk rets buf len arg s)) = add_mset (cs_req_id s) (requests s)"
    and "cs_req_id (snd (crpc_enqueue_one now junk rets buf len arg s)) = cs_req_id s + 1"
proof -
  let ?c = "enq_ctx now buf len arg s"
  define full where "full = (unat (cs_head s - cs_tail s) \<ge> CRPC_QLEN)"
  define s0 where "s0 = (if full then cl_emit [LDrop (cs_qreq s ! ring_pos (cs_tail s))]
          (s\<lparr>cs_tail := cs_tail s + 1, cs_req_dropped := cs_req_dropped s + 1\<rparr>) else s)"
  define s1 where "s1 = s0\<lparr>cs_head := cs_head s + 1, cs_qreq := (cs_qreq s)[ring_pos (cs_head s) := ?c],
        cs_req_id := cs_req_id s + 1\<rparr>"
  define s2 where "s2 = (if \<not> cs_init s then (fold (first_cupdate junk rets) [0..<length (cs_conns s)] s1)\<lparr>cs_init := True\<rparr> else s1)"
  let ?r = "snd (crpc_enqueue_one now junk rets buf len arg s)"
  have s0: "cs_head s0 = cs_head s" "cs_qreq s0 = cs_qreq s" "cs_req_id s0 = cs_req_id s"
      "cs_init s0 = cs_init s" "cs_conns s0 = cs_conns s" by (simp_all add: s0_def cl_emit_def)
  have r: "?r = (if cs_head s2 - cs_tail s2 = 1 then cl_emit [TimerSignal] s2 else s2)"
    unfolding crpc_enqueue_one_def full_def [symmetric] s0_def [symmetric] s2_def Let_def snd_conv s1_def
    by (simp add: s0 enq_ctx_def Let_def)
  have s2: "requests s2 = requests s1 \<and> cs_req_id s2 = cs_req_id s + 1"
    using first_cupdates_requests [of s1 junk rets "[0..<length (cs_conns s)]"]
    by (simp add: s2_def same_requests_def) (simp add: s1_def)
  have q: "queue ?r = drop (length (queue s) + 1 - CRPC_QLEN) (queue s @ [?c])" by (rule enqueue_queue(1) [OF ok])
  have q1: "queue s1 = queue ?r"
    by (simp add: r s2_def first_cupdate_frame queue_def cl_emit_def)
  have id: "q_id ?c = cs_req_id s" by (simp add: enq_ctx_def Let_def)
  have "requests s1 = add_mset (cs_req_id s) (requests s)"
  proof (cases full)
    case True
    then have l: "length (queue s) = CRPC_QLEN" using ok by (simp add: full_def ring_ok_def length_queue)
    then obtain c cs where c: "queue s = c # cs" by (cases "queue s") (auto simp: CRPC_QLEN_def)
    have "cs_head s \<noteq> cs_tail s" using c queue_Nil [of s] by auto
    then have hd: "cs_qreq s ! ring_pos (cs_tail s) = c"
      using c ring_queue_Cons [of "cs_head s" "cs_tail s" "cs_qreq s"] by (simp add: queue_def)
    have "cs_io s1 = cs_io s @ [LDrop c]" using True hd by (simp add: s1_def s0_def cl_emit_def)
    then show ?thesis using l c id by (simp add: requests_def q1 q)
  next
    case False
    then have "length (queue s) + 1 - CRPC_QLEN = 0" by (simp add: full_def length_queue)
    moreover have "cs_io s1 = cs_io s" using False by (simp add: s1_def s0_def)
    ultimately show ?thesis using id by (simp add: requests_def q1 q)
  qed
  then show "requests ?r = add_mset (cs_req_id s) (requests s)" and "cs_req_id ?r = cs_req_id s + 1"
    using s2 unfolding r by (simp_all add: cl_emit_def requests_def queue_def)
qed

text \<open>The requests of a session are those numbered so far.\<close>

definition numbered :: "cpcc_session \<Rightarrow> bool" where
  "numbered s \<longleftrightarrow> (\<exists>n\<ge>1. cs_req_id s = of_nat n \<and> requests s = mset (map of_nat [1..<n]))"

lemma numbered_same: "numbered s \<Longrightarrow> same_requests s s' \<Longrightarrow> numbered s'"
  by (auto simp: numbered_def same_requests_def)

lemma numbered_next:
  assumes "numbered s" and "requests s' = add_mset (cs_req_id s) (requests s)" and "cs_req_id s' = cs_req_id s + 1"
  shows "numbered s'"
proof -
  obtain n where n: "n \<ge> 1" "cs_req_id s = of_nat n" "requests s = mset (map of_nat [1..<n])"
    using assms(1) by (auto simp: numbered_def)
  then have "Suc n \<ge> 1 \<and> cs_req_id s' = of_nat (Suc n) \<and> requests s' = mset (map of_nat [1..<Suc n])"
    using assms(2,3) by simp
  then show ?thesis unfolding numbered_def by blast
qed

lemma numbered_send_one:
  assumes nb: "numbered s" and ok: "ring_ok s"
  shows "numbered (snd (cpcc_send_one e buf len arg s))"
proof (cases "len > SRPC_BUF_SIZE")
  case True
  then show ?thesis using nb by (simp add: cpcc_send_one_def)
next
  case False
  define cc where "cc = cs_conns s ! cs_next_conn_idx s"
  show ?thesis
  proof (cases "cc_credit_used cc < cc_credit cc \<and> cs_head s = cs_tail s")
    case True
    have "requests (snd (cpcc_send_one e buf len arg s)) = add_mset (cs_req_id s) (requests s) \<and>
        cs_req_id (snd (cpcc_send_one e buf len arg s)) = cs_req_id s + 1"
      using True False unfolding cpcc_send_one_def Let_def cc_def
      by (simp add: crpc_send_raw_def put_conn_def cl_emit_def requests_def queue_def call_hdr_def Let_def)
    then show ?thesis using numbered_next [OF nb] by blast
  next
    case no: False
    let ?s1 = "snd (crpc_enqueue_one (in_enq_now e) (in_enq_junk e) (in_enq_rets e) buf len arg s)"
    have "snd (cpcc_send_one e buf len arg s) = crpc_drain_queue (in_drain_now e) (in_vec_now e) (in_vec_ret e) ?s1"
      using no False unfolding cpcc_send_one_def Let_def cc_def by (auto split: prod.split)
    moreover have "numbered ?s1" by (rule numbered_next [OF nb enqueue_requests [OF ok]])
    ultimately show ?thesis using numbered_same drain_requests by metis
  qed
qed

lemma took_credit_requests: "same_requests s (took_credit r i cc s)"
  using drain_requests [of "put_conn i (cc\<lparr>cc_credit := ucast (sh_credit (rx_hdr r)), cc_waiting_resp := False\<rparr>) s"]
  unfolding took_credit_def Let_def same_requests_def by (simp add: put_conn_def requests_def queue_def)

lemma recv_msg_requests: "same_requests s (snd (cpcc_recv_msg buflen r i s))"
  using took_credit_requests [of s r i]
  unfolding cpcc_recv_msg_def crpc_recv_call_def crpc_recv_credit_def Let_def same_requests_def
  by (simp add: requests_def put_conn_def cl_emit_def queue_def)

lemma cl_run_numbered: "cl_run s A \<Longrightarrow> numbered s"
proof (induction rule: cl_run.induct)
  case (open_session port dial wr q sid ty spawn s)
  then have "cs_req_id s = of_nat 1 \<and> requests s = mset (map of_nat [1..<1])"
    by (auto simp: cpcc_open_def requests_def queue_def ring_queue_def split: if_splits)
  then show ?case unfolding numbered_def by blast
next
  case (send s A len buf e arg)
  then show ?case using cl_run_inv [of s A] by (intro numbered_send_one) (auto simp: cl_inv_def queue_good_def)
next
  case (recv s A i buflen r)
  then show ?case using numbered_same recv_msg_requests by blast
next
  case (timer s A now)
  have "same_requests s (snd (crpc_timer now s))"
    using drop_expired_requests by (auto simp: crpc_timer_def Let_def)
  then show ?case using timer numbered_same by blast
qed (auto simp: numbered_def cpcc_add_connection_def cpcc_sess_stat_clear_def cpcc_close_def cl_emit_def
    requests_def queue_def)

section \<open>A small run\<close>

definition blank_ctx :: crpc_ctx where
  "blank_ctx = \<lparr>q_len = 0, q_id = 0, q_ts = 0, q_buf = replicate SRPC_BUF_SIZE 0, q_arg = 0\<rparr>"

definition new_client :: cpcc_session where
  "new_client = \<lparr>cs_id = 0, cs_req_id = 1, cs_next_conn_idx = 0, cs_running = True,
                      cs_init = False, cs_head = 0, cs_tail = 0, cs_qreq = replicate CRPC_QLEN blank_ctx, cs_req_dropped = 0,
                      cs_conns = [zero_conn], cs_session_type = 0, cs_io = []\<rparr>"

definition small_in :: cpcc_in where
  "small_in = \<lparr>in_raw_now = 0, in_raw_ret = 0, in_enq_now = 0, in_enq_junk = call_hdr 0 0 0 0, in_enq_rets = (\<lambda>_. 0),
     in_drain_now = 0, in_vec_now = 0, in_vec_ret = 0\<rparr>"

definition asking_client :: cpcc_session where
  "asking_client = snd (cpcc_send_one small_in [7] 1 0 new_client)"

lemma new_client_run: "cl_run new_client (\<lambda>_. 0)"
  by (rule cl_run.open_session [of SRPC_PORT 0 0 "replicate CRPC_QLEN blank_ctx" 0 0 0])
    (auto simp: cpcc_open_def new_client_def blank_ctx_def)

lemma asking_client_run: "cl_run asking_client (\<lambda>_. 0)"
  unfolding asking_client_def by (rule cl_run.send [OF new_client_run]) simp

lemma asking_client:
  "asking_client = new_client\<lparr>cs_req_id := 2, cs_init := True, cs_head := 1,
     cs_qreq := (replicate CRPC_QLEN blank_ctx)[0 := blank_ctx\<lparr>q_buf := 7 # drop 1 (q_buf blank_ctx),
        q_id := 1, q_ts := 0, q_len := 1, q_arg := 0\<rparr>],
     cs_conns := [zero_conn\<lparr>cc_waiting_resp := True, cc_cupdate_tx := 1\<rparr>],
     cs_io := [CWrite 0 [((call_hdr 0 0 1 0)\<lparr>ch_op := PCC_OP_CREDIT\<rparr>, [])], TimerSignal]\<rparr>"
  by (simp add: asking_client_def cpcc_send_one_def new_client_def zero_conn_def SRPC_BUF_SIZE_def)
    (simp add: crpc_enqueue_one_def Let_def CRPC_QLEN_def small_in_def ring_pos_def first_cupdate_def
      crpc_send_cupdate_def put_conn_def cl_emit_def,
     simp add: crpc_drain_queue_def drop_expired_def drop_tail.simps Let_def ring_pos_def CRPC_QLEN_def
      conn_order_def can_send_def cl_emit_def in_time_def call_hdr_def cl_demand_def)

section \<open>What a client guarantees\<close>

text \<open>C12. What a client writes on a connection is one credit message, with a positive demand and no
  payload, followed by requests whose payload has the announced length, at most the size of a buffer of
  the server.\<close>

theorem client_stream:
  assumes "cl_run s A"
  shows "stream_ok (sent_on i (cs_io s))"
  using cl_run_inv [OF assms] by (simp add: cl_inv_def conn_inv_def Let_def)

theorem client_stream_witness:
  "stream_ok [((call_hdr 0 0 1 0)\<lparr>ch_op := PCC_OP_CREDIT\<rparr>, [])]"
  using client_stream [OF asking_client_run, of 0] by (simp add: asking_client)

text \<open>The credit in use on a connection is the number of requests written on it that have no response
  yet, in every run in which the server answers a request at most once.\<close>

lemma client_credit_in_use:
  assumes "cl_run s A" and "i < length (cs_conns s)"
  shows "A i + unat (cc_credit_used (cs_conns s ! i)) =
    length (filter (\<lambda>m. ch_op (fst m) = PCC_OP_CALL) (sent_on i (cs_io s)))"
proof -
  have inv: "stream_ok (sent_on i (cs_io s))"
    "A i + unat (cc_credit_used (cs_conns s ! i)) = length (tl (sent_on i (cs_io s)))"
    using cl_run_inv [OF assms(1)] assms(2) by (simp_all add: cl_inv_def conn_inv_def Let_def)
  have "length (filter (\<lambda>m. ch_op (fst m) = PCC_OP_CALL) ms) = length (tl ms)" if "stream_ok ms" for ms
  proof (cases ms)
    case (Cons m ns)
    then have "filter (\<lambda>m. ch_op (fst m) = PCC_OP_CALL) ns = ns" "ch_op (fst m) \<noteq> PCC_OP_CALL"
      using that by (auto simp: stream_ok_def call_ok_def credit_ok_msg_def PCC_OP_CREDIT_def PCC_OP_CALL_def
          filter_id_conv)
    then show ?thesis using Cons by simp
  qed simp
  then show ?thesis using inv by simp
qed

text \<open>When a client drains its queue it writes on one connection at most: requests for which the
  connection has credit, and no more than the queue holds.\<close>

lemma client_sends_within_credit:
  assumes "cl_run s A"
  shows "\<exists>i ms. (\<forall>j. sent_on j (cs_io (crpc_drain_queue now vnow ret s)) =
        sent_on j (cs_io s) @ (if j = i then ms else [])) \<and>
    (ms \<noteq> [] \<longrightarrow> unat (cc_credit_used (cs_conns s ! i)) + length ms \<le> unat (cc_credit (cs_conns s ! i))) \<and>
    length ms \<le> CRPC_QLEN"
proof -
  have "queue_good s" using cl_run_inv [OF assms] by (simp add: cl_inv_def)
  then obtain i ms where "sends i ms s (crpc_drain_queue now vnow ret s)" "length ms \<le> CRPC_QLEN"
    by (rule drain_queue_sends)
  then show ?thesis unfolding sends_def by blast
qed

text \<open>C10. No request is lost and none is sent twice: each request the session has numbered is written
  once, or handed to the drop handler once, or is still in the queue.\<close>

theorem requests_accounted:
  assumes "cl_run s A"
  shows "\<exists>n\<ge>1. cs_req_id s = of_nat n \<and>
    mset (sent_ids (cs_io s)) + mset (dropped_ids (cs_io s)) + mset (map q_id (queue s)) =
    mset (map of_nat [1..<n])"
  using cl_run_numbered [OF assms] by (simp add: numbered_def requests_def)

theorem requests_accounted_witness:
  "\<exists>n\<ge>1. (2 :: u64) = of_nat n \<and> mset (map q_id (queue asking_client)) = mset (map of_nat [1..<n])"
  using requests_accounted [OF asking_client_run]
  by (simp add: asking_client call_hdr_def PCC_OP_CREDIT_def PCC_OP_CALL_def)

section \<open>The queue as an abstract machine\<close>

text \<open>The abstract client queue: a sequence, the oldest request first, that holds at most
  \<open>CRPC_QLEN\<close> requests.  Storing a request evicts the oldest one from a full queue; draining it drops the
  late requests at its front and then takes as many as there is credit for.\<close>

definition fifo_put :: "crpc_ctx \<Rightarrow> crpc_ctx list \<Rightarrow> crpc_ctx list" where
  "fifo_put c q = (if length q < CRPC_QLEN then q else tl q) @ [c]"

definition fifo_drain :: "u64 \<Rightarrow> nat \<Rightarrow> crpc_ctx list \<Rightarrow> crpc_ctx list \<times> crpc_ctx list \<times> crpc_ctx list" where
  "fifo_drain now credit q =
     (let live = dropWhile (\<lambda>c. \<not> in_time now c) q
      in (takeWhile (\<lambda>c. \<not> in_time now c) q, take credit live, drop credit live))"

text \<open>The connection a drain uses, and the credit it has left.\<close>

definition chosen :: "cpcc_session \<Rightarrow> nat option" where
  "chosen s = find (\<lambda>i. can_send (cs_conns s ! i)) (conn_order s)"

definition chosen_credit :: "cpcc_session \<Rightarrow> nat" where
  "chosen_credit s = (case chosen s of None \<Rightarrow> 0 | Some i \<Rightarrow> credit_left (cs_conns s ! i))"

definition call_of :: "u64 \<Rightarrow> crpc_ctx \<Rightarrow> nat \<Rightarrow> cpcc_msg" where
  "call_of now c waiting = (call_hdr (q_id c) (q_len c) (of_nat waiting) now, take (q_len c) (q_buf c))"

text \<open>The vector of requests: each one announces how many wait behind it.\<close>

definition calls_of :: "u64 \<Rightarrow> crpc_ctx list \<Rightarrow> nat \<Rightarrow> cpcc_msg list" where
  "calls_of now cs waiting = map (\<lambda>j. call_of now (cs ! j) (length cs + waiting - Suc j)) [0..<length cs]"

lemma calls_of_Cons: "calls_of now (c # cs) waiting = call_of now c (length cs + waiting) # calls_of now cs waiting"
  unfolding calls_of_def by (simp add: upt_conv_Cons map_Suc_upt [symmetric] del: upt_Suc)

lemma call_msgs_calls: "call_msgs now n cs = calls_of now (take n cs) (length cs - n)"
  by (induction now n cs rule: call_msgs.induct)
    (auto simp: calls_of_Cons call_of_def, simp_all add: calls_of_def min_def)

lemma call_msgs_min: "call_msgs now (min (length cs) n) cs = call_msgs now n cs"
  by (simp add: call_msgs_calls min_def)

lemma fifo_put_drop: "length q \<le> CRPC_QLEN \<Longrightarrow> fifo_put c q = drop (length q + 1 - CRPC_QLEN) (q @ [c])"
  by (cases "length q < CRPC_QLEN") (auto simp: fifo_put_def CRPC_QLEN_def drop_Suc)

lemma drain_refines:
  assumes "fifo_drain now (chosen_credit s) (queue s) = (late, sent, rest)"
  shows "queue (crpc_drain_queue now vnow ret s) = rest \<and>
    cs_io (crpc_drain_queue now vnow ret s) = cs_io s @ map LDrop late @
      (if sent = [] then [] else [CWrite (the (chosen s)) (calls_of vnow sent (length rest))])"
proof (cases "cs_head s = cs_tail s")
  case True
  then have "queue s = []" using queue_Nil by simp
  then show ?thesis using True assms by (auto simp: crpc_drain_queue_def fifo_drain_def)
next
  case False
  define keep where "keep = (\<lambda>c. CPCC_MAX_CLIENT_DELAY_US = 0 \<or> in_time now c)"
  have keep: "keep = in_time now" by (simp add: keep_def CPCC_MAX_CLIENT_DELAY_US_def)
  define s1 where "s1 = drop_expired keep s"
  obtain t where d: "s1 = (s\<lparr>cs_tail := t,
      cs_req_dropped := cs_req_dropped s + of_nat (length (takeWhile (\<lambda>c. \<not> keep c) (queue s))),
      cs_io := cs_io s @ map LDrop (takeWhile (\<lambda>c. \<not> keep c) (queue s))\<rparr>)"
    and q: "queue s1 = dropWhile (\<lambda>c. \<not> keep c) (queue s)" unfolding s1_def by (rule drop_expired_spec)
  have F: "late = takeWhile (\<lambda>c. \<not> keep c) (queue s)" "sent = take (chosen_credit s) (queue s1)"
    "rest = drop (chosen_credit s) (queue s1)"
    using assms by (auto simp: fifo_drain_def keep q Let_def)
  have c: "find (\<lambda>i. can_send (cs_conns s1 ! i)) (conn_order s1) = chosen s"
    by (simp add: chosen_def conn_order_def d)
  have D: "crpc_drain_queue now vnow ret s = (case chosen s of None \<Rightarrow> s1
      | Some i \<Rightarrow> (snd (crpc_send_request_vector vnow ret i s1))\<lparr>cs_next_conn_idx := (i + 1) mod length (cs_conns s1)\<rparr>)"
    using False unfolding crpc_drain_queue_def keep_def [symmetric] s1_def [symmetric] Let_def c by simp
  show ?thesis
  proof (cases "chosen s")
    case None
    then show ?thesis using F by (simp add: D chosen_credit_def d)
  next
    case (Some i)
    define n where "n = min (length (queue s1)) (credit_left (cs_conns s1 ! i))"
    let ?r = "snd (crpc_send_request_vector vnow ret i s1)"
    have cc: "chosen_credit s = credit_left (cs_conns s1 ! i)" by (simp add: chosen_credit_def Some d)
    obtain h t where r: "?r = (if n = 0 then s1 else
        put_conn i ((cs_conns s1 ! i)\<lparr>cc_credit_used := cc_credit_used (cs_conns s1 ! i) + of_nat n,
            cc_req_tx := cc_req_tx (cs_conns s1 ! i) + of_nat n\<rparr>)
          (s1\<lparr>cs_head := h, cs_tail := t, cs_io := cs_io s1 @ [CWrite i (call_msgs vnow n (queue s1))]\<rparr>))"
      and qr: "queue ?r = drop n (queue s1)" by (rule send_vector_spec [OF n_def])
    have "drop n (queue s1) = rest" by (simp add: F cc n_def min_def)
    moreover have "n = 0 \<longleftrightarrow> sent = []" by (auto simp: F cc n_def min_def split: if_splits)
    moreover have "call_msgs vnow n (queue s1) = calls_of vnow sent (length rest)"
      unfolding n_def call_msgs_min by (simp add: F cc call_msgs_calls)
    moreover have "cs_io ?r = cs_io s1 @ (if n = 0 then [] else [CWrite i (call_msgs vnow n (queue s1))])"
      by (simp add: r put_conn_def)
    moreover have "cs_io s1 = cs_io s @ map LDrop late" by (simp add: d F(1))
    ultimately show ?thesis using qr by (simp add: D Some)
  qed
qed

text \<open>C11. The ring with its two wrapping counters is a bounded first-in first-out queue: storing a request
  and draining the queue are the abstract operations on the sequence of waiting requests.  A drain hands
  exactly the late requests at the front to the drop handler, writes one vector with the requests after
  them on the connection it chose, in order, each with the number of requests that wait behind it, and keeps the rest.\<close>

theorem queue_refines_fifo:
  assumes "ring_ok s" and "fifo_drain now (chosen_credit s) (queue s) = (late, sent, rest)"
  shows "queue (snd (crpc_enqueue_one enow junk rets buf len arg s)) =
      fifo_put (enq_ctx enow buf len arg s) (queue s) \<and>
    queue (crpc_drain_queue now vnow ret s) = rest \<and>
    cs_io (crpc_drain_queue now vnow ret s) = cs_io s @ map LDrop late @
      (if sent = [] then [] else [CWrite (the (chosen s)) (calls_of vnow sent (length rest))])"
  using enqueue_queue(1) [OF assms(1), of enow junk rets buf len arg] drain_refines [OF assms(2), of vnow ret]
    fifo_put_drop [of "queue s"] assms(1) by (simp add: ring_ok_def)

theorem queue_refines_fifo_witness:
  "queue (crpc_drain_queue 5 0 0 asking_client) = queue asking_client \<and> length (queue asking_client) = 1"
proof -
  have e: "queue asking_client = [blank_ctx\<lparr>q_buf := 7 # drop 1 (q_buf blank_ctx),
        q_id := 1, q_ts := 0, q_len := 1, q_arg := 0\<rparr>]"
    by (simp add: asking_client queue_def ring_queue_def new_client_def ring_pos_def CRPC_QLEN_def)
  have "length (cs_qreq asking_client) = CRPC_QLEN" by (simp add: asking_client)
  then have "ring_ok asking_client" by (simp add: ring_ok_def e) (simp add: CRPC_QLEN_def)
  moreover have "chosen_credit asking_client = 0"
    by (simp add: chosen_credit_def chosen_def conn_order_def asking_client can_send_def)
  then have "fifo_drain 5 (chosen_credit asking_client) (queue asking_client) = ([], [], queue asking_client)"
    by (simp add: e fifo_drain_def in_time_def CPCC_MAX_CLIENT_DELAY_US_def u64_of_int_def)
  ultimately show ?thesis using queue_refines_fifo [of asking_client 5] e by fastforce
qed

end
