(* ===== verification/Pcc_Protocol.thy ===== *)
theory Pcc_Protocol
  imports Pcc_Safety Pcc_Client_Safety
begin

text \<open>
  Client and server of the PCC protocol together: runs of the server in which each session reads
  what a client of this repository writes.
\<close>

section \<open>A server with clients of this repository\<close>

text \<open>The headers read on session \<open>k\<close> since it was opened, the first one first.\<close>

fun heard :: "nat \<Rightarrow> pcc_act list \<Rightarrow> cpcc_hdr list" where
  "heard k [] = []"
| "heard k (Open j ret spawn # as) = (if j = k then [] else heard k as)"
| "heard k (Recv j r # as) = heard k as @ (if j = k \<and> 0 < rv_ret r then [rv_hdr r] else [])"
| "heard k (_ # as) = heard k as"

text \<open>These headers are the beginning of what some client wrote on one of its connections.\<close>

definition client_wrote :: "cpcc_hdr list \<Rightarrow> bool" where
  "client_wrote hs \<longleftrightarrow> (\<exists>s A i rest. cl_run s A \<and> map fst (sent_on i (cs_io s)) = hs @ rest)"

text \<open>Session information can be read and threads can be spawned.\<close>

fun resources :: "pcc_act \<Rightarrow> bool" where
  "resources (Open k ret spawn) \<longleftrightarrow> 0 < ret \<and> spawn = 0"
| "resources (Recv k r) \<longleftrightarrow> rv_spawn r = 0"
| "resources _ \<longleftrightarrow> True"

fun with_clients :: "pcc_act list \<Rightarrow> bool" where
  "with_clients [] \<longleftrightarrow> True"
| "with_clients (a # as) \<longleftrightarrow> with_clients as \<and> resources a \<and> client_wrote (heard (act_key a) (a # as))"

lemma heard_quiet: "heard k as = [] \<Longrightarrow> quiet k as"
  by (induction k as rule: heard.induct) (auto split: if_splits)

lemma client_wrote_credit:
  assumes "client_wrote (hs @ [h])" and "ch_op h = PCC_OP_CREDIT"
  shows "hs = [] \<and> 0 < ch_demand h"
proof -
  obtain s A i rest where r: "cl_run s A" and m: "map fst (sent_on i (cs_io s)) = hs @ h # rest"
    using assms(1) by (auto simp: client_wrote_def)
  have "stream_ok (sent_on i (cs_io s))" using cl_run_inv [OF r] by (simp add: cl_inv_def conn_inv_def Let_def)
  then obtain n ns where n: "sent_on i (cs_io s) = n # ns" "credit_ok_msg n" "\<forall>x\<in>set ns. call_ok x"
    using m by (cases "sent_on i (cs_io s)") (auto simp: stream_ok_def)
  show ?thesis
  proof (cases hs)
    case Nil
    then show ?thesis using m n by (auto simp: credit_ok_msg_def)
  next
    case (Cons g gs)
    then have "map fst ns = gs @ h # rest" using m n(1) by simp
    then have "h \<in> fst ` set ns" by (metis image_set in_set_conv_decomp)
    then have "ch_op h = PCC_OP_CALL" using n(3) by (auto simp: call_ok_def)
    then show ?thesis using assms(2) by (simp add: PCC_OP_CALL_def PCC_OP_CREDIT_def)
  qed
qed

lemma with_clients_polite: "with_clients as \<Longrightarrow> polite as"
proof (induction as)
  case (Cons a as)
  have "polite_act as a"
  proof (cases a)
    case (Recv k r)
    show ?thesis
    proof (cases "0 < rv_ret r \<and> ch_op (rv_hdr r) = PCC_OP_CREDIT")
      case True
      then have "client_wrote (heard k as @ [rv_hdr r])" using Cons.prems Recv by simp
      from client_wrote_credit [OF this] True have "heard k as = []" "0 < ch_demand (rv_hdr r)" by auto
      then show ?thesis using Cons.prems Recv heard_quiet by simp
    next
      case False
      then show ?thesis using Cons.prems Recv by auto
    qed
  qed (use Cons.prems in auto)
  then show ?case using Cons by simp
qed simp


text \<open>The credit message of a client with one request, as the server reads it.\<close>

definition first_recv :: recv_in where
  "first_recv = credit_msg\<lparr>rv_hdr := (call_hdr 0 0 1 0)\<lparr>ch_op := PCC_OP_CREDIT\<rparr>\<rparr>"


end
