(* ===== verification/Timer_Heap.thy ===== *)
theory Timer_Heap
  imports Prelude
begin

text \<open>
  The timers of \<^verbatim>\<open>runtime/timer.c\<close>: each kthread keeps its armed timers in a 4-ary min heap
  ordered by deadline, and each timer entry remembers its place in the heap.  The locks make each
  function one step; the clock and the need to preempt are inputs.  \<open>None\<close> stands for a failed
  \<^verbatim>\<open>BUG_ON\<close>.  An index is a number here: a heap has at most
  \<open>RUNTIME_MAX_TIMERS\<close> slots, far from the limits of \<^verbatim>\<open>int\<close>.
\<close>

section \<open>State\<close>

definition D :: nat where "D = 4"
definition RUNTIME_MAX_TIMERS :: nat where "RUNTIME_MAX_TIMERS = 4096"

text \<open>\<open>te_fn\<close> and \<open>te_arg\<close> name the handler and its argument; a timer entry is known by its address.\<close>

record timer_entry =
  te_armed :: bool
  te_executing :: bool
  te_idx :: nat
  te_fn :: nat
  te_arg :: nat
  te_localk :: nat

record timer_idx =
  ti_deadline_us :: u64
  ti_e :: nat

record kthread =
  k_timern :: nat
  k_timers :: "timer_idx list"
  k_next_timer_tsc :: u64

record timers =
  tw_entries :: "nat \<Rightarrow> timer_entry"
  tw_kthreads :: "nat \<Rightarrow> kthread"

type_synonym entries = "nat \<Rightarrow> timer_entry"

definition set_entry :: "nat \<Rightarrow> timer_entry \<Rightarrow> timers \<Rightarrow> timers" where
  "set_entry e x w = w\<lparr>tw_entries := (tw_entries w)(e := x)\<rparr>"

definition set_kthread :: "nat \<Rightarrow> kthread \<Rightarrow> timers \<Rightarrow> timers" where
  "set_kthread k x w = w\<lparr>tw_kthreads := (tw_kthreads w)(k := x)\<rparr>"

section \<open>The heap\<close>

fun valid_from :: "timer_idx list \<Rightarrow> nat \<Rightarrow> bool" where
  "valid_from heap 0 \<longleftrightarrow> True"
| "valid_from heap (Suc i) \<longleftrightarrow>
     (if Suc i > 1
      then let p = (Suc i - 1) div D
           in if ti_deadline_us (heap ! p) > ti_deadline_us (heap ! Suc i) then False else valid_from heap i
      else True)"

definition is_valid_heap :: "timer_idx list \<Rightarrow> nat \<Rightarrow> bool" where
  "is_valid_heap heap n \<longleftrightarrow> valid_from heap (n - 1)"

definition place :: "timer_idx \<Rightarrow> nat \<Rightarrow> timer_idx list \<times> entries \<Rightarrow> timer_idx list \<times> entries" where
  "place x i he =
     (let (heap, es) = he
      in (heap[i := x], es(ti_e x := (es (ti_e x))\<lparr>te_idx := i\<rparr>)))"

function sift_up_from :: "timer_idx \<Rightarrow> nat \<Rightarrow> timer_idx list \<times> entries \<Rightarrow> timer_idx list \<times> entries" where
  "sift_up_from tmp i he =
     (if i > 0
      then let p = (i - 1) div D
           in if ti_deadline_us tmp \<ge> ti_deadline_us (fst he ! p) then he
              else sift_up_from tmp p (place tmp p (place (fst he ! p) i he))
      else he)"
  by pat_completeness auto

termination
  by (relation "measure (\<lambda>(tmp, i, he). i)") (auto simp: D_def)

declare sift_up_from.simps [simp del]

definition sift_up :: "nat \<Rightarrow> timer_idx list \<times> entries \<Rightarrow> timer_idx list \<times> entries" where
  "sift_up i he = sift_up_from (fst he ! i) i he"

text \<open>The inner loop of \<^verbatim>\<open>sift_down\<close> over the children \<open>js\<close>; \<open>None\<close> is \<^verbatim>\<open>INT_MAX\<close>.\<close>

fun least_child :: "timer_idx list \<Rightarrow> nat \<Rightarrow> nat list \<Rightarrow> u64 \<Rightarrow> nat option \<Rightarrow> nat option" where
  "least_child heap n [] w c = c"
| "least_child heap n (j # js) w c =
     (if j \<ge> n then c
      else if ti_deadline_us (heap ! j) < w then least_child heap n js (ti_deadline_us (heap ! j)) (Some j)
      else least_child heap n js w c)"

lemma least_child_in:
  "least_child heap n js w c = Some j \<Longrightarrow> c = Some j \<or> j \<in> set js \<and> j < n"
  by (induction heap n js w c rule: least_child.induct) (auto split: if_splits)

function sift_down_from :: "timer_idx \<Rightarrow> nat \<Rightarrow> nat \<Rightarrow> timer_idx list \<times> entries \<Rightarrow> timer_idx list \<times> entries" where
  "sift_down_from tmp i n he =
     (case least_child (fst he) n [i * D + 1..<i * D + D + 1] (ti_deadline_us tmp) None of
        None \<Rightarrow> he
      | Some c \<Rightarrow> sift_down_from tmp c n (place tmp c (place (fst he ! c) i he)))"
  by pat_completeness auto

termination
  by (relation "measure (\<lambda>(tmp, i, n, he). n - i)") (auto simp: D_def dest!: least_child_in)

declare sift_down_from.simps [simp del]

definition sift_down :: "nat \<Rightarrow> nat \<Rightarrow> timer_idx list \<times> entries \<Rightarrow> timer_idx list \<times> entries" where
  "sift_down i n he = sift_down_from (fst he ! i) i n he"

section \<open>Operations\<close>

text \<open>\<open>cpu\<close> and \<open>start\<close> are the globals \<^verbatim>\<open>cycles_per_us\<close> and \<^verbatim>\<open>start_tsc\<close>.\<close>

definition update_q_ptrs :: "u64 \<Rightarrow> u64 \<Rightarrow> kthread \<Rightarrow> kthread" where
  "update_q_ptrs cpu start k =
     k\<lparr>k_next_timer_tsc := (if k_timern k \<noteq> 0 then ti_deadline_us (k_timers k ! 0) * cpu + start else - 1)\<rparr>"

definition timer_earliest_deadline :: "kthread \<Rightarrow> u64" where
  "timer_earliest_deadline k = (if k_timern k = 0 then 0 else ti_deadline_us (k_timers k ! 0))"

definition timer_init :: "nat \<Rightarrow> nat \<Rightarrow> nat \<Rightarrow> timers \<Rightarrow> timers" where
  "timer_init e fn arg w =
     set_entry e ((tw_entries w e)\<lparr>te_armed := False, te_executing := False, te_fn := fn, te_arg := arg\<rparr>) w"

definition timer_busy :: "nat \<Rightarrow> timers \<Rightarrow> bool" where
  "timer_busy e w \<longleftrightarrow> te_armed (tw_entries w e) \<or> te_executing (tw_entries w e)"

text \<open>Rewriting a kthread's heap, with the entries it points to.\<close>

definition on_heap :: "(timer_idx list \<times> entries \<Rightarrow> timer_idx list \<times> entries) \<Rightarrow> nat \<Rightarrow> timers \<Rightarrow> timers" where
  "on_heap f k w =
     (let (heap, es) = f (k_timers (tw_kthreads w k), tw_entries w)
      in (set_kthread k ((tw_kthreads w k)\<lparr>k_timers := heap\<rparr>) w)\<lparr>tw_entries := es\<rparr>)"

definition timer_start_locked :: "nat \<Rightarrow> u64 \<Rightarrow> nat \<Rightarrow> timers \<Rightarrow> timers option" where
  "timer_start_locked e deadline_us k w =
     (if te_armed (tw_entries w e) then None
      else
        let i = k_timern (tw_kthreads w k);
            w = set_kthread k ((tw_kthreads w k)\<lparr>k_timern := i + 1\<rparr>) w
        in if k_timern (tw_kthreads w k) \<ge> RUNTIME_MAX_TIMERS then None
           else
             let w = set_kthread k ((tw_kthreads w k)\<lparr>k_timers :=
                       (k_timers (tw_kthreads w k))[i := \<lparr>ti_deadline_us = deadline_us, ti_e = e\<rparr>]\<rparr>) w;
                 w = set_entry e ((tw_entries w e)\<lparr>te_idx := i, te_localk := k\<rparr>) w;
                 w = on_heap (sift_up i) k w
             in Some (set_entry e ((tw_entries w e)\<lparr>te_armed := True, te_executing := False\<rparr>) w))"

definition timer_start :: "u64 \<Rightarrow> u64 \<Rightarrow> nat \<Rightarrow> u64 \<Rightarrow> nat \<Rightarrow> timers \<Rightarrow> timers option" where
  "timer_start cpu start e deadline_us k w =
     do {
       w \<leftarrow> timer_start_locked e deadline_us k w;
       Some (set_kthread k (update_q_ptrs cpu start (tw_kthreads w k)) w)
     }"

text \<open>A timer that is not armed is left alone: the caller waits for a handler that is executing.\<close>

definition timer_cancel :: "u64 \<Rightarrow> u64 \<Rightarrow> nat \<Rightarrow> timers \<Rightarrow> bool \<times> timers" where
  "timer_cancel cpu start e w =
     (let k = te_localk (tw_entries w e)
      in if \<not> te_armed (tw_entries w e) then (False, w)
         else
           let w = set_entry e ((tw_entries w e)\<lparr>te_armed := False\<rparr>) w;
               last = k_timern (tw_kthreads w k) - 1;
               w = set_kthread k ((tw_kthreads w k)\<lparr>k_timern := last\<rparr>) w;
               idx = te_idx (tw_entries w e);
               w = (if idx = last then w
                    else
                      let w = on_heap (\<lambda>he. place (fst he ! last) idx he) k w;
                          w = on_heap (sift_up idx) k w
                      in on_heap (sift_down idx last) k w)
           in (True, set_kthread k (update_q_ptrs cpu start (tw_kthreads w k)) w))"

text \<open>One turn of the loop of \<^verbatim>\<open>timer_softirq_one\<close>, up to the call of the handler.\<close>

definition timer_pop :: "u64 \<Rightarrow> u64 \<Rightarrow> bool \<Rightarrow> u64 \<Rightarrow> nat \<Rightarrow> timers \<Rightarrow> (nat \<times> timers) option" where
  "timer_pop cpu start preempt now k w =
     (let kt = tw_kthreads w k
      in if \<not> preempt \<and> k_timern kt > 0 \<and> ti_deadline_us (k_timers kt ! 0) \<le> now
         then
           let i = k_timern kt - 1;
               e = ti_e (k_timers kt ! 0);
               w = set_kthread k (kt\<lparr>k_timern := i\<rparr>) w;
               w = (if i > 0
                    then on_heap (sift_down 0 i) k (on_heap (\<lambda>he. place (fst he ! i) 0 he) k w)
                    else w);
               w = set_kthread k (update_q_ptrs cpu start (tw_kthreads w k)) w
           in Some (e, set_entry e ((tw_entries w e)\<lparr>te_executing := True, te_armed := False\<rparr>) w)
         else None)"

definition timer_done :: "nat \<Rightarrow> timers \<Rightarrow> timers" where
  "timer_done e w = set_entry e ((tw_entries w e)\<lparr>te_executing := False\<rparr>) w"

text \<open>The whole loop: \<open>ins\<close> are the readings of \<^verbatim>\<open>preempt_needed\<close> and of the clock, \<open>h\<close> is what a
  handler does to the timers.  The result are the timers that fired, or \<open>None\<close> when there are no more
  readings.\<close>

fun timer_softirq_one ::
  "u64 \<Rightarrow> u64 \<Rightarrow> (nat \<Rightarrow> nat \<Rightarrow> timers \<Rightarrow> timers) \<Rightarrow> (bool \<times> u64) list \<Rightarrow> nat \<Rightarrow> timers \<Rightarrow> (nat list \<times> timers) option"
where
  "timer_softirq_one cpu start h [] k w = None"
| "timer_softirq_one cpu start h ((preempt, now) # ins) k w =
     (case timer_pop cpu start preempt now k w of
        None \<Rightarrow> Some ([], w)
      | Some (e, w) \<Rightarrow>
          do {
            (es, w) \<leftarrow> timer_softirq_one cpu start h ins k
                       (timer_done e (h (te_fn (tw_entries w e)) (te_arg (tw_entries w e)) w));
            Some (e # es, w)
          })"

text \<open>The timer of a sleeping thread is on its stack at \<open>e\<close>; the result says whether the thread parks.\<close>

definition timer_sleep_at :: "u64 \<Rightarrow> u64 \<Rightarrow> nat \<Rightarrow> nat \<Rightarrow> nat \<Rightarrow> u64 \<Rightarrow> nat \<Rightarrow> timers \<Rightarrow> timers option" where
  "timer_sleep_at cpu start finish th e deadline_us k w =
     do {
       w \<leftarrow> timer_start_locked e deadline_us k (timer_init e finish th w);
       Some (set_kthread k (update_q_ptrs cpu start (tw_kthreads w k)) w)
     }"

definition timer_sleep_until ::
  "u64 \<Rightarrow> u64 \<Rightarrow> nat \<Rightarrow> nat \<Rightarrow> nat \<Rightarrow> u64 \<Rightarrow> u64 \<Rightarrow> nat \<Rightarrow> timers \<Rightarrow> (bool \<times> timers) option"
where
  "timer_sleep_until cpu start finish th e now deadline_us k w =
     (if now \<ge> deadline_us then Some (False, w)
      else map_option (Pair True) (timer_sleep_at cpu start finish th e deadline_us k w))"

definition timer_sleep :: "u64 \<Rightarrow> u64 \<Rightarrow> nat \<Rightarrow> nat \<Rightarrow> nat \<Rightarrow> u64 \<Rightarrow> u64 \<Rightarrow> nat \<Rightarrow> timers \<Rightarrow> timers option" where
  "timer_sleep cpu start finish th e now duration_us k w =
     timer_sleep_at cpu start finish th e (now + duration_us) k w"

section \<open>The heap order\<close>

definition par :: "nat \<Rightarrow> nat" where "par j = (j - 1) div D"

lemma par_less: "0 < j \<Longrightarrow> par j < j"
  by (auto simp: par_def D_def)

lemma child_iff: "j \<in> set [i * D + 1..<i * D + D + 1] \<longleftrightarrow> 0 < j \<and> par j = i"
  by (auto simp: par_def D_def)

definition ordered :: "(nat \<Rightarrow> 'a :: linorder) \<Rightarrow> nat \<Rightarrow> bool" where
  "ordered K n \<longleftrightarrow> (\<forall>j<n. 0 < j \<longrightarrow> K (par j) \<le> K j)"

text \<open>The order with an exception at the node \<open>i\<close>: towards its parent, or towards its children.\<close>

definition over :: "(nat \<Rightarrow> 'a :: linorder) \<Rightarrow> nat \<Rightarrow> nat \<Rightarrow> bool" where
  "over K i n \<longleftrightarrow> (\<forall>j<n. 0 < j \<longrightarrow> par j = i \<longrightarrow> 0 < i \<longrightarrow> K (par i) \<le> K j)"

definition ordered_up :: "(nat \<Rightarrow> 'a :: linorder) \<Rightarrow> nat \<Rightarrow> nat \<Rightarrow> bool" where
  "ordered_up K i n \<longleftrightarrow> (\<forall>j<n. 0 < j \<longrightarrow> j \<noteq> i \<longrightarrow> K (par j) \<le> K j) \<and> over K i n"

definition ordered_down :: "(nat \<Rightarrow> 'a :: linorder) \<Rightarrow> nat \<Rightarrow> nat \<Rightarrow> bool" where
  "ordered_down K i n \<longleftrightarrow> (\<forall>j<n. 0 < j \<longrightarrow> par j \<noteq> i \<longrightarrow> K (par j) \<le> K j) \<and> over K i n"

lemma ordered_root: "ordered K n \<Longrightarrow> j < n \<Longrightarrow> K 0 \<le> K j"
proof (induction j rule: less_induct)
  case (less j)
  show ?case
  proof (cases "j = 0")
    case False
    then have "K 0 \<le> K (par j)" using less par_less [of j] by simp
    also have "\<dots> \<le> K j" using less.prems False by (simp add: ordered_def)
    finally show ?thesis .
  qed simp
qed

lemma up_stop: "ordered_up K i n \<Longrightarrow> (0 < i \<longrightarrow> K (par i) \<le> K i) \<Longrightarrow> ordered K n"
  by (auto simp: ordered_up_def ordered_def)

lemma up_step:
  assumes u: "ordered_up K i n" and i: "0 < i" "i < n" and lt: "K i < K (par i)"
  shows "ordered_up (K(i := K (par i), par i := K i)) (par i) n"
proof -
  let ?p = "par i" let ?K = "K(i := K ?p, ?p := K i)"
  have pi: "?p < i" using par_less i by simp
  have o: "K (par j) \<le> K j" if "j < n" "0 < j" "j \<noteq> i" for j using u that by (simp add: ordered_up_def)
  have ov: "K ?p \<le> K j" if "j < n" "0 < j" "par j = i" for j using u that i by (simp add: ordered_up_def over_def)
  have "?K (par j) \<le> ?K j" if j: "j < n" "0 < j" "j \<noteq> ?p" for j
  proof -
    have pj: "par j < j" using par_less j by simp
    consider "j = i" | "j \<noteq> i" "par j = ?p" | "j \<noteq> i" "par j = i" | "j \<noteq> i" "par j \<noteq> ?p" "par j \<noteq> i" by blast
    then show ?thesis
    proof cases
      case 1 then show ?thesis using lt pi by simp
    next
      case 2
      then have "K ?p \<le> K j" using o [of j] j by simp
      then show ?thesis using 2 lt j pi by simp
    next
      case 3 then show ?thesis using ov j pi by simp
    next
      case 4 then show ?thesis using o j by simp
    qed
  qed
  moreover have "?K (par ?p) \<le> ?K j" if j: "j < n" "0 < j" "par j = ?p" "0 < ?p" for j
  proof -
    have pp: "par ?p < ?p" using par_less j by simp
    have a: "K (par ?p) \<le> K ?p" using o [of ?p] pi i j by simp
    show ?thesis
    proof (cases "j = i")
      case True then show ?thesis using a pp pi by simp
    next
      case False
      have "K ?p \<le> K j" using o [of j] j False by simp
      moreover have "j \<noteq> ?p" using j par_less [of j] by auto
      ultimately show ?thesis using a pp pi False by simp
    qed
  qed
  ultimately show ?thesis unfolding ordered_up_def over_def by blast
qed

lemma down_stop: "ordered_down K i n \<Longrightarrow> (\<And>j. j < n \<Longrightarrow> 0 < j \<Longrightarrow> par j = i \<Longrightarrow> K i \<le> K j) \<Longrightarrow> ordered K n"
  by (auto simp: ordered_down_def ordered_def)

lemma down_step:
  assumes u: "ordered_down K i n" and c: "0 < c" "c < n" "par c = i" and lt: "K c < K i"
    and least: "\<And>j. j < n \<Longrightarrow> 0 < j \<Longrightarrow> par j = i \<Longrightarrow> K c \<le> K j"
  shows "ordered_down (K(i := K c, c := K i)) c n"
proof -
  let ?K = "K(i := K c, c := K i)"
  have ic: "i < c" using par_less c by blast
  have o: "K (par j) \<le> K j" if "j < n" "0 < j" "par j \<noteq> i" for j using u that by (simp add: ordered_down_def)
  have "?K (par j) \<le> ?K j" if j: "j < n" "0 < j" "par j \<noteq> c" for j
  proof -
    have pj: "par j < j" using par_less j by simp
    consider "j = c" | "j \<noteq> c" "par j = i" | "j = i" | "j \<noteq> c" "par j \<noteq> i" "j \<noteq> i" by blast
    then show ?thesis
    proof cases
      case 1 then show ?thesis using lt c ic by simp
    next
      case 2 then show ?thesis using least j pj by simp
    next
      case 3
      then have "K (par i) \<le> K c" using u c j by (simp add: ordered_down_def over_def)
      then show ?thesis using 3 ic pj j by simp
    next
      case 4 then show ?thesis using o j by simp
    qed
  qed
  moreover have "?K (par c) \<le> ?K j" if j: "j < n" "0 < j" "par j = c" for j
  proof -
    have "K c \<le> K j" using o [of j] j ic by simp
    moreover have "c < j" using par_less [of j] j by simp
    ultimately show ?thesis using c ic by simp
  qed
  ultimately show ?thesis unfolding ordered_down_def over_def by blast
qed

lemma least_child_spec:
  assumes "sorted js"
  shows "(case least_child heap n js w c of
      None \<Rightarrow> c = None \<and> (\<forall>j\<in>set js. j < n \<longrightarrow> w \<le> ti_deadline_us (heap ! j))
    | Some j \<Rightarrow> c = Some j \<and> (\<forall>j\<in>set js. j < n \<longrightarrow> w \<le> ti_deadline_us (heap ! j)) \<or>
        j \<in> set js \<and> j < n \<and> ti_deadline_us (heap ! j) < w \<and>
        (\<forall>j'\<in>set js. j' < n \<longrightarrow> ti_deadline_us (heap ! j) \<le> ti_deadline_us (heap ! j')))"
  using assms
proof (induction heap n js w c rule: least_child.induct)
  case (2 heap n j js w c)
  consider "j \<ge> n" | "j < n" "ti_deadline_us (heap ! j) < w" | "j < n" "\<not> ti_deadline_us (heap ! j) < w" by linarith
  then show ?case
  proof cases
    case 1
    then have "\<forall>j'\<in>set (j # js). \<not> j' < n" using 2(3) by auto
    then show ?thesis using 1 by (auto split: option.split)
  next
    case 2
    then show ?thesis using "2.IH"(1) "2.prems" by (auto split: option.splits)
  next
    case 3
    then show ?thesis using "2.IH"(2) "2.prems" by (auto split: option.splits)
  qed
qed (auto split: option.split)

section \<open>Sifting\<close>

abbreviation keys :: "timer_idx list \<Rightarrow> nat \<Rightarrow> u64" where
  "keys h \<equiv> \<lambda>j. ti_deadline_us (h ! j)"

text \<open>Each timer in the heap knows its place.\<close>

definition linked :: "nat \<Rightarrow> timer_idx list \<times> entries \<Rightarrow> bool" where
  "linked n he \<longleftrightarrow> n \<le> length (fst he) \<and> (\<forall>j<n. te_idx (snd he (ti_e (fst he ! j))) = j)"

text \<open>The same timers in another order.\<close>

definition moved :: "nat \<Rightarrow> timer_idx list \<times> entries \<Rightarrow> timer_idx list \<times> entries \<Rightarrow> bool" where
  "moved n he he' \<longleftrightarrow> linked n he' \<and> length (fst he') = length (fst he) \<and>
     set (take n (fst he')) = set (take n (fst he)) \<and>
     (\<forall>e. e \<notin> ti_e ` set (take n (fst he)) \<longrightarrow> snd he' e = snd he e) \<and>
     (\<forall>e. (snd he' e)\<lparr>te_idx := 0\<rparr> = (snd he e)\<lparr>te_idx := 0\<rparr>)"

lemma moved_refl: "linked n he \<Longrightarrow> moved n he he"
  by (simp add: moved_def)

lemma moved_trans: "moved n a b \<Longrightarrow> moved n b c \<Longrightarrow> moved n a c"
  by (auto simp: moved_def)

lemma set_take_nth: "n \<le> length h \<Longrightarrow> set (take n h) = {h ! j | j. j < n}"
  by (subst nth_image [symmetric]) auto

lemma linked_inj:
  assumes "linked n he" "i < n" "j < n" "ti_e (fst he ! i) = ti_e (fst he ! j)"
  shows "i = j"
  using assms by (metis linked_def)

lemma swap_moved:
  assumes l: "linked n (h, es)" and i: "i < n" and p: "p < n" and ne: "i \<noteq> p"
  shows "moved n (h, es) (place (h ! i) p (place (h ! p) i (h, es)))"
    and "fst (place (h ! i) p (place (h ! p) i (h, es))) = h[i := h ! p, p := h ! i]"
proof -
  let ?h = "h[i := h ! p, p := h ! i]"
  let ?r = "place (h ! i) p (place (h ! p) i (h, es))"
  have n: "n \<le> length h" using l by (simp add: linked_def)
  show h: "fst ?r = ?h" by (simp add: place_def)
  have d: "ti_e (h ! i) \<noteq> ti_e (h ! p)" using linked_inj [OF l i p] ne by auto
  have es: "snd ?r = es(ti_e (h ! p) := (es (ti_e (h ! p)))\<lparr>te_idx := i\<rparr>, ti_e (h ! i) := (es (ti_e (h ! i)))\<lparr>te_idx := p\<rparr>)"
    using d by (simp add: place_def)
  have at: "?h ! j = (if j = i then h ! p else if j = p then h ! i else h ! j)" if "j < n" for j
    using that n i p ne by (auto simp: nth_list_update)
  have lk: "te_idx (es (ti_e (h ! j))) = j" if "j < n" for j using l that by (simp add: linked_def)
  have dj: "ti_e (h ! j) \<noteq> ti_e (h ! i)" "ti_e (h ! j) \<noteq> ti_e (h ! p)" if "j < n" "j \<noteq> i" "j \<noteq> p" for j
    using that lk i p by metis+
  have "te_idx (snd ?r (ti_e (?h ! j))) = j" if "j < n" for j
    using that at [OF that] lk [OF that] dj [OF that] d unfolding es by auto
  then have "linked n ?r" using n h by (simp add: linked_def)
  moreover have "set (take n ?h) = set (take n h)"
  proof -
    have "?h = h[i := h ! p, p := h ! i]" by simp
    then have "take n ?h = (take n h)[i := take n h ! p, p := take n h ! i]"
      using i p by (simp add: take_update_swap)
    moreover have "set ((take n h)[i := take n h ! p, p := take n h ! i]) = set (take n h)"
      by (rule set_swap) (use i p n in auto)
    ultimately show ?thesis by simp
  qed
  moreover have "ti_e (h ! i) \<in> ti_e ` set (take n h)" "ti_e (h ! p) \<in> ti_e ` set (take n h)"
    using set_take_nth [OF n] i p by auto
  ultimately show "moved n (h, es) ?r" unfolding moved_def h es by (auto simp: h)
qed

lemma keys_swap: "i < length h \<Longrightarrow> p < length h \<Longrightarrow>
    keys (h[i := h ! p, p := h ! i]) = (keys h)(i := keys h p, p := keys h i)"
  by (auto simp: fun_eq_iff nth_list_update)

lemma sift_up_from_ordered:
  assumes "linked n he" "i < n" "fst he ! i = tmp" "ordered_up (keys (fst he)) i n"
  shows "moved n he (sift_up_from tmp i he) \<and> ordered (keys (fst (sift_up_from tmp i he))) n"
  using assms
proof (induction tmp i he rule: sift_up_from.induct)
  case (1 tmp i he)
  obtain h es where he: "he = (h, es)" by fastforce
  have nl: "n \<le> length h" and tmp: "tmp = h ! i" using "1.prems" he by (auto simp: linked_def)
  show ?case
  proof (cases "0 < i \<and> ti_deadline_us tmp < keys h (par i)")
    case False
    then have r: "sift_up_from tmp i he = he" by (subst sift_up_from.simps) (auto simp: he par_def Let_def)
    have "0 < i \<longrightarrow> keys h (par i) \<le> keys h i" using False tmp by auto
    then show ?thesis using up_stop [OF "1.prems"(4)] moved_refl [OF "1.prems"(1)] r he by simp
  next
    case True
    have p: "par i < i" "par i < n" using par_less [of i] True "1.prems"(2) by auto
    let ?he = "place tmp (par i) (place (h ! par i) i he)"
    have r: "sift_up_from tmp i he = sift_up_from tmp (par i) ?he"
      using True by (subst sift_up_from.simps) (auto simp: he par_def Let_def)
    have l: "linked n (h, es)" using "1.prems"(1) he by simp
    have ne: "i \<noteq> par i" using p by simp
    have hs: "?he = place (h ! i) (par i) (place (h ! par i) i (h, es))" using tmp he by simp
    note sw = swap_moved [OF l "1.prems"(2) p(2) ne, folded hs]
    have lin: "linked n ?he" using sw(1) by (simp add: moved_def)
    have top: "fst ?he ! par i = tmp" using sw(2) p nl tmp by simp
    have up: "ordered_up (keys (fst ?he)) (par i) n"
      unfolding sw(2) using up_step [of "keys h" i n] "1.prems"(2,4) True tmp he p nl keys_swap [of i h "par i"] by simp
    have "moved n ?he (sift_up_from tmp (par i) ?he) \<and> ordered (keys (fst (sift_up_from tmp (par i) ?he))) n"
      using "1.IH" [of "par i"] True lin p(2) top up by (simp add: he par_def not_le)
    then show ?thesis using moved_trans sw(1) r he by metis
  qed
qed

lemma sift_down_from_ordered:
  assumes "linked n he" "i < n" "fst he ! i = tmp" "ordered_down (keys (fst he)) i n"
  shows "moved n he (sift_down_from tmp i n he) \<and> ordered (keys (fst (sift_down_from tmp i n he))) n"
  using assms
proof (induction tmp i n he rule: sift_down_from.induct)
  case (1 tmp i n he)
  obtain h es where he: "he = (h, es)" by fastforce
  have nl: "n \<le> length h" and tmp: "tmp = h ! i" using "1.prems" he by (auto simp: linked_def)
  let ?lc = "least_child h n [i * D + 1..<i * D + D + 1] (ti_deadline_us tmp) None"
  have "sorted [i * D + 1..<i * D + D + 1]" by (rule sorted_upt)
  note lc = least_child_spec [OF this, where heap = h and n = n and w = "ti_deadline_us tmp" and c = None, unfolded child_iff Ball_def]
  show ?case
  proof (cases ?lc)
    case None
    then have r: "sift_down_from tmp i n he = he" by (subst sift_down_from.simps) (simp add: he)
    have "keys h i \<le> keys h j" if "j < n" "0 < j" "par j = i" for j using lc None that tmp by simp
    then show ?thesis using down_stop [OF "1.prems"(4)] moved_refl [OF "1.prems"(1)] r he by simp
  next
    case (Some c)
    have c: "0 < c" "par c = i" "c < n" "keys h c < keys h i"
      "\<And>j. j < n \<Longrightarrow> 0 < j \<Longrightarrow> par j = i \<Longrightarrow> keys h c \<le> keys h j" using lc Some tmp by auto
    let ?he = "place tmp c (place (h ! c) i he)"
    have r: "sift_down_from tmp i n he = sift_down_from tmp c n ?he"
      using Some by (subst sift_down_from.simps) (simp add: he)
    have l: "linked n (h, es)" using "1.prems"(1) he by simp
    have ne: "i \<noteq> c" using par_less [of c] c(1,2) by auto
    have hs: "?he = place (h ! i) c (place (h ! c) i (h, es))" using tmp he by simp
    note sw = swap_moved [OF l "1.prems"(2) c(3) ne, folded hs]
    have lin: "linked n ?he" using sw(1) by (simp add: moved_def)
    have top: "fst ?he ! c = tmp" using sw(2) c nl tmp by simp
    have down: "ordered_down (keys (fst ?he)) c n"
      unfolding sw(2) using down_step [of "keys h" i n c] "1.prems"(2,4) c he nl keys_swap [of i h c] by simp
    have "moved n ?he (sift_down_from tmp c n ?he) \<and> ordered (keys (fst (sift_down_from tmp c n ?he))) n"
      using "1.IH" [of c] Some lin c(3) top down by (simp add: he)
    then show ?thesis using moved_trans sw(1) r he by metis
  qed
qed

section \<open>Insertion and removal\<close>

lemma sift_down_ordered_id:
  assumes "ordered (keys (fst he)) n"
  shows "sift_down i n he = he"
proof -
  have "sorted [i * D + 1..<i * D + D + 1]" by (rule sorted_upt)
  note lc = least_child_spec [OF this, where heap = "fst he" and n = n and w = "ti_deadline_us (fst he ! i)" and c = None,
      unfolded child_iff Ball_def]
  have "least_child (fst he) n [i * D + 1..<i * D + D + 1] (ti_deadline_us (fst he ! i)) None = None"
  proof (cases "least_child (fst he) n [i * D + 1..<i * D + D + 1] (ti_deadline_us (fst he ! i)) None")
    case (Some j)
    then have "0 < j" "par j = i" "j < n" "keys (fst he) j < keys (fst he) i" using lc by auto
    then show ?thesis using assms by (auto simp: ordered_def leD)
  qed simp
  then show ?thesis unfolding sift_down_def by (subst sift_down_from.simps) simp
qed

lemma insert_at:
  assumes l: "linked n (h, es)" and o: "ordered (keys h) n" and len: "n < length h"
    and new: "e \<notin> ti_e ` set (take n h)" and x: "ti_e x = e" "te_idx (es' e) = n" "\<And>e'. e' \<noteq> e \<Longrightarrow> es' e' = es e'"
  obtains h2 es2 where "sift_up n (h[n := x], es') = (h2, es2)" "linked (n + 1) (h2, es2)" "ordered (keys h2) (n + 1)"
    "length h2 = length h" "set (take (n + 1) h2) = insert x (set (take n h))"
    "\<And>e'. e' \<notin> insert e (ti_e ` set (take n h)) \<Longrightarrow> es2 e' = es' e'" "\<And>e'. (es2 e')\<lparr>te_idx := 0\<rparr> = (es' e')\<lparr>te_idx := 0\<rparr>"
proof -
  let ?h = "h[n := x]"
  have old: "ti_e (h ! j) \<noteq> e" if "j < n" for j
    using new that len set_take_nth [of n h] by auto
  have tk: "take (n + 1) ?h = take n h @ [x]" using len by (simp add: take_Suc_conv_app_nth)
  have li: "linked (n + 1) (?h, es')"
    using l len x old by (auto simp: linked_def less_Suc_eq)
  have up: "ordered_up (keys ?h) n (n + 1)"
  proof -
    have "keys ?h (par j) \<le> keys ?h j" if "j < n + 1" "0 < j" "j \<noteq> n" for j
      using that o par_less [of j] by (simp add: ordered_def)
    moreover have False if "j < n + 1" "par j = n" "0 < j" for j using that par_less [of j] by simp
    then have "over (keys ?h) n (n + 1)" unfolding over_def by blast
    ultimately show ?thesis by (simp add: ordered_up_def)
  qed
  have at: "fst (?h, es') ! n = x" using len by simp
  have "sift_up n (?h, es') = sift_up_from x n (?h, es')" by (simp add: sift_up_def at del: fst_conv)
  then have r: "moved (n + 1) (?h, es') (sift_up n (?h, es')) \<and> ordered (keys (fst (sift_up n (?h, es')))) (n + 1)"
    using sift_up_from_ordered [OF li _ at] up by simp
  obtain h2 es2 where r2: "sift_up n (?h, es') = (h2, es2)" by fastforce
  show ?thesis
    by (rule that [OF r2]) (use r r2 tk x(1) in \<open>auto simp: moved_def\<close>)
qed

lemma remove_at:
  assumes l: "linked n (h, es)" and o: "ordered (keys h) n" and i: "i < n"
  obtains h2 es2 where "(if i = n - 1 then (h, es)
      else sift_down i (n - 1) (sift_up i (place (h ! (n - 1)) i (h, es)))) = (h2, es2)"
    "linked (n - 1) (h2, es2)" "ordered (keys h2) (n - 1)" "length h2 = length h"
    "set (take (n - 1) h2) = set (take n h) - {h ! i}"
    "\<And>e. e \<notin> ti_e ` (set (take n h) - {h ! i}) \<Longrightarrow> es2 e = es e" "\<And>e. (es2 e)\<lparr>te_idx := 0\<rparr> = (es e)\<lparr>te_idx := 0\<rparr>"
proof -
  have n: "n \<le> length h" "0 < n" using l i by (auto simp: linked_def)
  have inj: "h ! j = h ! j' \<longleftrightarrow> j = j'" if "j < n" "j' < n" for j j' using linked_inj [OF l that] by auto
  have S: "set (take n h) - {h ! i} = {h ! j | j. j < n \<and> j \<noteq> i}"
    using set_take_nth [OF n(1)] inj i by auto
  show ?thesis
  proof (cases "i = n - 1")
    case True
    have "set (take (n - 1) h) = {h ! j | j. j < n - 1}" using set_take_nth [of "n - 1" h] n by simp
    also have "\<dots> = set (take n h) - {h ! i}" unfolding S using True by force
    finally show ?thesis using that [of h es] True l o n
      by (auto simp: linked_def ordered_def)
  next
    case False
    define m where "m = n - 1"
    have m: "i < m" "m < n" "n = m + 1" using False i by (auto simp: m_def)
    let ?x = "h ! m" let ?h = "h[i := ?x]" let ?es = "es(ti_e ?x := (es (ti_e ?x))\<lparr>te_idx := i\<rparr>)"
    have p: "place ?x i (h, es) = (?h, ?es)" by (simp add: place_def)
    have lk: "te_idx (es (ti_e (h ! j))) = j" if "j < n" for j using l that by (simp add: linked_def)
    have "te_idx (?es (ti_e (?h ! j))) = j" if j: "j < m" for j
    proof (cases "j = i")
      case False
      then have "ti_e (h ! j) \<noteq> ti_e ?x" using linked_inj [OF l, of j m] j m by auto
      then show ?thesis using lk [of j] j m False by simp
    qed (use m n in simp)
    then have li: "linked m (?h, ?es)" using n m by (simp add: linked_def)
    have st: "set (take m ?h) = set (take n h) - {h ! i}"
    proof -
      have e: "?h ! j = (if j = i then ?x else h ! j)" if "j < m" for j using that m n by simp
      have "set (take m ?h) = {?h ! j | j. j < m}" using set_take_nth [of m ?h] n m by simp
      also have "\<dots> = {h ! j | j. j < n \<and> j \<noteq> i}"
      proof (intro set_eqI iffI)
        fix y assume "y \<in> {?h ! j | j. j < m}"
        then obtain j where "y = ?h ! j" "j < m" by auto
        then show "y \<in> {h ! j | j. j < n \<and> j \<noteq> i}" using e [of j] m by (cases "j = i") auto
      next
        fix y assume "y \<in> {h ! j | j. j < n \<and> j \<noteq> i}"
        then obtain j where j: "y = h ! j" "j < n" "j \<noteq> i" by auto
        then have "y = ?h ! (if j = m then i else j)" "(if j = m then i else j) < m" using e m n by auto
        then show "y \<in> {?h ! j | j. j < m}" by blast
      qed
      finally show ?thesis using S by simp
    qed
    have K: "keys ?h j = (if j = i then keys h m else keys h j)" if "j < m" for j using that m n by simp
    have oh: "keys h (par j) \<le> keys h j" if "j < n" "0 < j" for j using o that by (simp add: ordered_def)
    have ov: "over (keys ?h) i m"
      unfolding over_def
    proof (intro allI impI)
      fix j assume j: "j < m" "0 < j" "par j = i" "0 < i"
      have "keys h (par i) \<le> keys h i" "keys h i \<le> keys h j" using oh [of i] oh [of j] j m by auto
      then show "keys ?h (par i) \<le> keys ?h j" using K j par_less [of i] par_less [of j] m by simp
    qed
    have other: "keys ?h (par j) \<le> keys ?h j" if "j < m" "0 < j" "j \<noteq> i" "par j \<noteq> i" for j
      using oh [of j] that K par_less [of j] m by simp
    have at: "fst (?h, ?es) ! i = ?x" using m n by simp
    let ?u = "sift_up i (?h, ?es)"
    have ur: "?u = sift_up_from ?x i (?h, ?es)" using at by (simp add: sift_up_def)
    have fin: "moved m (?h, ?es) (sift_down i m ?u) \<and> ordered (keys (fst (sift_down i m ?u))) m"
    proof (cases "0 < i \<and> keys ?h i < keys ?h (par i)")
      case True
      have "keys ?h (par j) \<le> keys ?h j" if "j < m" "0 < j" "j \<noteq> i" for j
      proof (cases "par j = i")
        case pj: True
        then have "keys ?h (par i) \<le> keys ?h j" using ov that True by (auto simp: over_def)
        moreover have "keys ?h i \<le> keys ?h (par i)" using True by (simp only: less_imp_le)
        ultimately show ?thesis unfolding pj by (rule order_trans [rotated])
      qed (use other that in simp)
      then have "ordered_up (keys ?h) i m" using ov by (simp add: ordered_up_def)
      then have "moved m (?h, ?es) ?u \<and> ordered (keys (fst ?u)) m"
        unfolding ur using sift_up_from_ordered [OF li m(1) at] by simp
      then show ?thesis using sift_down_ordered_id [of ?u m i] by simp
    next
      case False
      then have g: "0 < i \<longrightarrow> keys ?h (par i) \<le> keys ?h i" by (simp only: not_less de_Morgan_conj) blast
      have "i < length h" using m n by simp
      then have u: "?u = (?h, ?es)" unfolding ur using g
        by (subst sift_up_from.simps) (simp add: par_def [symmetric] Let_def del: One_nat_def)
      have "keys ?h (par j) \<le> keys ?h j" if "j < m" "0 < j" "par j \<noteq> i" for j
        using other [of j] that g by (cases "j = i") blast+
      then have "ordered_down (keys ?h) i m" using ov by (simp add: ordered_down_def)
      then show ?thesis unfolding u sift_down_def at using sift_down_from_ordered [OF li m(1) at] by simp
    qed
    obtain h2 es2 where r: "sift_down i m ?u = (h2, es2)" by fastforce
    have x: "ti_e ?x \<in> ti_e ` (set (take n h) - {h ! i})" unfolding S using m by auto
    have "es2 e = es e" if e: "e \<notin> ti_e ` (set (take n h) - {h ! i})" for e
    proof -
      have "es2 e = ?es e" using fin r st e by (auto simp: moved_def)
      then show ?thesis using x e by auto
    qed
    moreover have "(es2 e)\<lparr>te_idx := 0\<rparr> = (es e)\<lparr>te_idx := 0\<rparr>" for e
    proof -
      have "(es2 e)\<lparr>te_idx := 0\<rparr> = (?es e)\<lparr>te_idx := 0\<rparr>" using fin r by (auto simp: moved_def)
      then show ?thesis by (simp split: if_splits)
    qed
    ultimately show ?thesis
      using that [of h2 es2] False fin r st p by (simp add: moved_def m_def)
  qed
qed

section \<open>The invariant of the timers\<close>

definition slots :: "nat \<Rightarrow> timers \<Rightarrow> timer_idx set" where
  "slots k w = set (take (k_timern (tw_kthreads w k)) (k_timers (tw_kthreads w k)))"

definition heap_ok :: "u64 \<Rightarrow> u64 \<Rightarrow> nat \<Rightarrow> timers \<Rightarrow> bool" where
  "heap_ok cpu start k w \<longleftrightarrow>
     (let kt = tw_kthreads w k; n = k_timern kt
      in length (k_timers kt) = RUNTIME_MAX_TIMERS \<and> n < RUNTIME_MAX_TIMERS \<and>
         linked n (k_timers kt, tw_entries w) \<and> ordered (keys (k_timers kt)) n \<and>
         update_q_ptrs cpu start kt = kt)"

text \<open>The armed timers of a kthread are those in its heap.\<close>

definition timers_ok :: "u64 \<Rightarrow> u64 \<Rightarrow> timers \<Rightarrow> bool" where
  "timers_ok cpu start w \<longleftrightarrow> (\<forall>k. heap_ok cpu start k w \<and>
     ti_e ` slots k w = {e. te_armed (tw_entries w e) \<and> te_localk (tw_entries w e) = k})"

text \<open>The abstract view: the deadline of each armed timer.\<close>

definition pending :: "timers \<Rightarrow> nat \<Rightarrow> u64 option" where
  "pending w e =
     (let x = tw_entries w e
      in if te_armed x then Some (ti_deadline_us (k_timers (tw_kthreads w (te_localk x)) ! te_idx x)) else None)"

lemma slots_nth: "heap_ok cpu start k w \<Longrightarrow>
    slots k w = {k_timers (tw_kthreads w k) ! j | j. j < k_timern (tw_kthreads w k)}"
  by (simp add: heap_ok_def slots_def set_take_nth Let_def)

lemma pending_slots:
  assumes ok: "timers_ok cpu start w"
  shows "pending w e = Some d \<longleftrightarrow> te_armed (tw_entries w e) \<and>
    \<lparr>ti_deadline_us = d, ti_e = e\<rparr> \<in> slots (te_localk (tw_entries w e)) w"
proof (cases "te_armed (tw_entries w e)")
  case True
  define k where "k = te_localk (tw_entries w e)"
  let ?h = "k_timers (tw_kthreads w k)" let ?n = "k_timern (tw_kthreads w k)"
  have h: "heap_ok cpu start k w" using ok by (simp add: timers_ok_def)
  have "e \<in> ti_e ` slots k w" using ok True by (auto simp: timers_ok_def k_def)
  then obtain j where j: "j < ?n" "ti_e (?h ! j) = e" using slots_nth [OF h] by auto
  have lk: "te_idx (tw_entries w (ti_e (?h ! j))) = j" if "j < ?n" for j
    using h that by (simp add: heap_ok_def linked_def Let_def)
  have "pending w e = Some (ti_deadline_us (?h ! j))"
    using True j lk [of j] by (simp add: pending_def Let_def k_def)
  moreover have "\<lparr>ti_deadline_us = d, ti_e = e\<rparr> \<in> slots k w \<longleftrightarrow> ti_deadline_us (?h ! j) = d"
  proof
    assume "\<lparr>ti_deadline_us = d, ti_e = e\<rparr> \<in> slots k w"
    then obtain j' where j': "j' < ?n" "\<lparr>ti_deadline_us = d, ti_e = e\<rparr> = ?h ! j'" using slots_nth [OF h] by auto
    then have "ti_e (?h ! j') = e" "ti_deadline_us (?h ! j') = d" by (metis timer_idx.simps(1,2))+
    moreover have "j' = j" using lk j j'(1) \<open>ti_e (?h ! j') = e\<close> by metis
    ultimately show "ti_deadline_us (?h ! j) = d" by simp
  next
    assume "ti_deadline_us (?h ! j) = d"
    then have "?h ! j = \<lparr>ti_deadline_us = d, ti_e = e\<rparr>" using j by simp
    then show "\<lparr>ti_deadline_us = d, ti_e = e\<rparr> \<in> slots k w" using slots_nth [OF h] j by auto
  qed
  ultimately show ?thesis using True by (simp add: k_def)
qed (simp add: pending_def)

text \<open>A kthread's heap is replaced by one that holds the slots \<open>X\<close>.\<close>

lemma rebuilt:
  assumes ok: "timers_ok cpu start w"
    and k': "tw_kthreads w' = (tw_kthreads w)(k := kt)" and q: "update_q_ptrs cpu start kt = kt"
    and len: "length (k_timers kt) = RUNTIME_MAX_TIMERS" "k_timern kt < RUNTIME_MAX_TIMERS"
    and lk: "linked (k_timern kt) (k_timers kt, tw_entries w')" and o: "ordered (keys (k_timers kt)) (k_timern kt)"
    and X: "set (take (k_timern kt) (k_timers kt)) = X"
    and own: "\<And>e. te_armed (tw_entries w' e) \<and> te_localk (tw_entries w' e) = k \<longleftrightarrow> e \<in> ti_e ` X"
    and other: "\<And>e j. j \<noteq> k \<Longrightarrow> te_armed (tw_entries w' e) \<and> te_localk (tw_entries w' e) = j \<longleftrightarrow>
        te_armed (tw_entries w e) \<and> te_localk (tw_entries w e) = j"
    and idx: "\<And>e. te_armed (tw_entries w e) \<Longrightarrow> te_localk (tw_entries w e) \<noteq> k \<Longrightarrow> te_idx (tw_entries w' e) = te_idx (tw_entries w e)"
  shows "timers_ok cpu start w'" and "slots k w' = X" and "\<And>j. j \<noteq> k \<Longrightarrow> slots j w' = slots j w"
proof -
  show s: "slots k w' = X" using X by (simp add: slots_def k')
  show so: "slots j w' = slots j w" if "j \<noteq> k" for j using that by (simp add: slots_def k')
  have "heap_ok cpu start j w' \<and> ti_e ` slots j w' = {e. te_armed (tw_entries w' e) \<and> te_localk (tw_entries w' e) = j}" for j
  proof (cases "j = k")
    case True
    then show ?thesis using s own len lk o q by (auto simp: heap_ok_def Let_def k')
  next
    case False
    have h: "heap_ok cpu start j w" and se: "ti_e ` slots j w = {e. te_armed (tw_entries w e) \<and> te_localk (tw_entries w e) = j}"
      using ok by (simp_all add: timers_ok_def)
    have "te_idx (tw_entries w' (ti_e (k_timers (tw_kthreads w j) ! i))) = i" if i: "i < k_timern (tw_kthreads w j)" for i
    proof -
      let ?e = "ti_e (k_timers (tw_kthreads w j) ! i)"
      have "?e \<in> ti_e ` slots j w" using slots_nth [OF h] i by auto
      then have "te_armed (tw_entries w ?e)" "te_localk (tw_entries w ?e) = j" using se by auto
      then have "te_idx (tw_entries w' ?e) = te_idx (tw_entries w ?e)" using idx False by auto
      also have "\<dots> = i" using h i by (simp add: heap_ok_def linked_def Let_def)
      finally show ?thesis .
    qed
    then have "heap_ok cpu start j w'" using h False by (simp add: heap_ok_def linked_def Let_def k')
    then show ?thesis using so [OF False] se other [OF False] by simp
  qed
  then show "timers_ok cpu start w'" by (simp add: timers_ok_def)
qed

lemma pending_eqI:
  assumes "timers_ok cpu start w" and "timers_ok cpu start w'"
    and "te_armed (tw_entries w' e) = te_armed (tw_entries w e)" "te_localk (tw_entries w' e) = te_localk (tw_entries w e)"
    and "\<And>d. \<lparr>ti_deadline_us = d, ti_e = e\<rparr> \<in> slots (te_localk (tw_entries w e)) w' \<longleftrightarrow>
      \<lparr>ti_deadline_us = d, ti_e = e\<rparr> \<in> slots (te_localk (tw_entries w e)) w"
  shows "pending w' e = pending w e"
proof -
  have "pending w' e = Some d \<longleftrightarrow> pending w e = Some d" for d
    using assms pending_slots by simp
  then show ?thesis by (metis not_Some_eq)
qed

lemma on_heap_comp: "on_heap f k (on_heap g k w) = on_heap (\<lambda>he. f (g he)) k w"
  by (simp add: on_heap_def set_kthread_def Let_def split: prod.split)

lemma update_q_ptrs_simps [simp]:
  "k_timern (update_q_ptrs cpu start kt) = k_timern kt" "k_timers (update_q_ptrs cpu start kt) = k_timers kt"
  "update_q_ptrs cpu start (update_q_ptrs cpu start kt) = update_q_ptrs cpu start kt"
  by (simp_all add: update_q_ptrs_def)

section \<open>Operations on the timers\<close>

lemma timer_start_eq:
  assumes "\<not> te_armed (tw_entries w e)" and "kt = tw_kthreads w k" and "k_timern kt + 1 < RUNTIME_MAX_TIMERS"
    and "sift_up (k_timern kt) ((k_timers kt)[k_timern kt := \<lparr>ti_deadline_us = d, ti_e = e\<rparr>],
        (tw_entries w)(e := (tw_entries w e)\<lparr>te_idx := k_timern kt, te_localk := k\<rparr>)) = (h2, es2)"
  shows "timer_start cpu start e d k w = Some
    (w\<lparr>tw_entries := es2(e := (es2 e)\<lparr>te_armed := True, te_executing := False\<rparr>),
       tw_kthreads := (tw_kthreads w)(k := update_q_ptrs cpu start (kt\<lparr>k_timern := k_timern kt + 1, k_timers := h2\<rparr>))\<rparr>)"
  using assms
  by (simp add: timer_start_def timer_start_locked_def set_kthread_def set_entry_def on_heap_def Let_def)

lemma timer_start_none:
  "timer_start cpu start e d k w = None \<longleftrightarrow>
     te_armed (tw_entries w e) \<or> RUNTIME_MAX_TIMERS \<le> k_timern (tw_kthreads w k) + 1"
  by (simp add: timer_start_def timer_start_locked_def set_kthread_def Let_def)

lemma linked_idx_cong: "(\<And>e. te_idx (es' e) = te_idx (es e)) \<Longrightarrow> linked n (h, es') = linked n (h, es)"
  by (simp add: linked_def)

lemma idx_only:
  assumes "(x :: timer_entry)\<lparr>te_idx := 0\<rparr> = y\<lparr>te_idx := 0\<rparr>"
  shows "te_armed x = te_armed y" "te_executing x = te_executing y" "te_fn x = te_fn y" "te_arg x = te_arg y"
    "te_localk x = te_localk y"
  using assms by (cases x; cases y; simp)+

lemma timer_start_ok:
  assumes ok: "timers_ok cpu start w" and s: "timer_start cpu start e d k w = Some w'"
  shows "timers_ok cpu start w'" and "pending w' = (pending w)(e \<mapsto> d)"
proof -
  define kt where "kt = tw_kthreads w k"
  define x where "x = \<lparr>ti_deadline_us = d, ti_e = e\<rparr>"
  let ?n = "k_timern kt"
  define es1 where "es1 = (tw_entries w)(e := (tw_entries w e)\<lparr>te_idx := ?n, te_localk := k\<rparr>)"
  have na: "\<not> te_armed (tw_entries w e)" and room: "?n + 1 < RUNTIME_MAX_TIMERS"
    using s timer_start_none [of cpu start e d k w] by (auto simp: kt_def not_le)
  have h: "heap_ok cpu start k w" and se: "ti_e ` slots k w = {e. te_armed (tw_entries w e) \<and> te_localk (tw_entries w e) = k}"
    using ok by (simp_all add: timers_ok_def)
  have l: "linked ?n (k_timers kt, tw_entries w)" "ordered (keys (k_timers kt)) ?n" "length (k_timers kt) = RUNTIME_MAX_TIMERS"
    using h by (simp_all add: heap_ok_def Let_def kt_def)
  have sl: "slots k w = set (take ?n (k_timers kt))" by (simp add: slots_def kt_def)
  have new: "e \<notin> ti_e ` set (take ?n (k_timers kt))" using se na by (simp add: sl)
  obtain h2 es2 where r: "sift_up ?n ((k_timers kt)[?n := x], es1) = (h2, es2)" "linked (?n + 1) (h2, es2)"
    "ordered (keys h2) (?n + 1)" "length h2 = length (k_timers kt)"
    "set (take (?n + 1) h2) = insert x (set (take ?n (k_timers kt)))"
    "\<And>e'. e' \<notin> insert e (ti_e ` set (take ?n (k_timers kt))) \<Longrightarrow> es2 e' = es1 e'"
    "\<And>e'. (es2 e')\<lparr>te_idx := 0\<rparr> = (es1 e')\<lparr>te_idx := 0\<rparr>"
    by (rule insert_at [OF l(1,2) _ new, of x es1]) (use room l(3) in \<open>auto simp: x_def es1_def\<close>)
  define es3 where "es3 = es2(e := (es2 e)\<lparr>te_armed := True, te_executing := False\<rparr>)"
  define kt' where "kt' = update_q_ptrs cpu start (kt\<lparr>k_timern := ?n + 1, k_timers := h2\<rparr>)"
  have w': "w' = w\<lparr>tw_entries := es3, tw_kthreads := (tw_kthreads w)(k := kt')\<rparr>"
    using s timer_start_eq [OF na kt_def room r(1) [unfolded x_def es1_def], of cpu start]
    by (simp add: es3_def kt'_def)
  note io = idx_only [OF r(7)]
  have armed: "te_armed (es3 e') = (e' = e \<or> te_armed (tw_entries w e'))" for e'
    using io(1) [of e'] by (simp add: es3_def es1_def)
  have lk: "te_localk (es3 e') = (if e' = e then k else te_localk (tw_entries w e'))" for e'
    using io(5) [of e'] by (cases "e' = e") (simp_all add: es3_def es1_def)
  have same: "te_idx (es3 e') = te_idx (tw_entries w e')" if "te_armed (tw_entries w e')" "te_localk (tw_entries w e') \<noteq> k" for e'
  proof -
    have "e' \<noteq> e" "e' \<notin> ti_e ` set (take ?n (k_timers kt))" using that na se by (auto simp: sl)
    then show ?thesis using r(6) [of e'] by (simp add: es3_def es1_def)
  qed
  have lin: "linked (?n + 1) (h2, es3)" using r(2) linked_idx_cong [of es3 es2] by (simp add: es3_def)
  have own: "te_armed (es3 e') \<and> te_localk (es3 e') = k \<longleftrightarrow> e' \<in> ti_e ` insert x (slots k w)" for e'
    using se armed lk by (auto simp: x_def)
  have oth: "te_armed (es3 e') \<and> te_localk (es3 e') = j \<longleftrightarrow> te_armed (tw_entries w e') \<and> te_localk (tw_entries w e') = j"
    if "j \<noteq> k" for e' j using that armed [of e'] lk [of e'] na by auto
  note R = rebuilt [OF ok, of w' k kt' "insert x (slots k w)"]
  have R': "timers_ok cpu start w'" "slots k w' = insert x (slots k w)" "\<And>j. j \<noteq> k \<Longrightarrow> slots j w' = slots j w"
    by (rule R; use r(3,4,5) l(3) room lin own oth same in \<open>simp add: w' kt'_def sl\<close>)+
  show "timers_ok cpu start w'" by (rule R')
  show "pending w' = (pending w)(e \<mapsto> d)"
  proof
    fix e'
    show "pending w' e' = ((pending w)(e \<mapsto> d)) e'"
    proof (cases "e' = e")
      case True
      have "pending w' e = Some d"
        using pending_slots [OF R'(1), of e d] R'(2) armed [of e] lk [of e] by (simp add: w' x_def)
      then show ?thesis using True by simp
    next
      case False
      have "pending w' e' = pending w e'"
        by (rule pending_eqI [OF ok R'(1)])
          (use armed [of e'] lk [of e'] R'(2,3) False in \<open>cases "te_localk (tw_entries w e') = k"; simp add: w' x_def\<close>)+
      then show ?thesis using False by simp
    qed
  qed
qed

text \<open>The timer in slot \<open>i\<close> leaves the heap of kthread \<open>k\<close>.\<close>

lemma removed_ok:
  assumes ok: "timers_ok cpu start w" and kt: "kt = tw_kthreads w k" and i: "i < k_timern kt"
    and e: "e = ti_e (k_timers kt ! i)"
    and es0: "\<And>e'. e' \<noteq> e \<Longrightarrow> es0 e' = tw_entries w e'" "te_idx (es0 e) = te_idx (tw_entries w e)"
    and rm: "(if i = k_timern kt - 1 then (k_timers kt, es0)
      else sift_down i (k_timern kt - 1) (sift_up i (place (k_timers kt ! (k_timern kt - 1)) i (k_timers kt, es0)))) = (h2, es2)"
    and es3: "\<And>e'. e' \<noteq> e \<Longrightarrow> es3 e' = es2 e'" "es2 e = es0 e \<Longrightarrow> \<not> te_armed (es3 e)"
    and w': "w' = w\<lparr>tw_entries := es3,
       tw_kthreads := (tw_kthreads w)(k := update_q_ptrs cpu start (kt\<lparr>k_timern := k_timern kt - 1, k_timers := h2\<rparr>))\<rparr>"
  shows "timers_ok cpu start w'" and "pending w' = (pending w)(e := None)"
    and "\<And>e'. e' \<noteq> e \<Longrightarrow> (es3 e')\<lparr>te_idx := 0\<rparr> = (tw_entries w e')\<lparr>te_idx := 0\<rparr>" and "es2 e = es0 e"
proof -
  let ?n = "k_timern kt" let ?h = "k_timers kt"
  have h: "heap_ok cpu start k w" and se: "ti_e ` slots k w = {e. te_armed (tw_entries w e) \<and> te_localk (tw_entries w e) = k}"
    using ok by (simp_all add: timers_ok_def)
  have l: "linked ?n (?h, tw_entries w)" "ordered (keys ?h) ?n" "length ?h = RUNTIME_MAX_TIMERS" "?n < RUNTIME_MAX_TIMERS"
    using h by (simp_all add: heap_ok_def Let_def kt)
  have sl: "slots k w = set (take ?n ?h)" by (simp add: slots_def kt)
  have xin: "?h ! i \<in> slots k w" using slots_nth [OF h] i kt by auto
  then have ek: "te_armed (tw_entries w e)" "te_localk (tw_entries w e) = k" using se e by auto
  have "te_idx (es0 e') = te_idx (tw_entries w e')" for e' using es0 by (cases "e' = e") auto
  then have l0: "linked ?n (?h, es0)" using l(1) linked_idx_cong [of es0 "tw_entries w"] by simp
  define X where "X = slots k w - {?h ! i}"
  have eX: "e \<notin> ti_e ` X"
  proof
    assume "e \<in> ti_e ` X"
    then obtain y where y: "y \<in> slots k w" "y \<noteq> ?h ! i" "ti_e y = e" by (auto simp: X_def)
    then obtain j where j: "j < ?n" "y = ?h ! j" using slots_nth [OF h] kt by auto
    then have "j = i" using linked_inj [OF l(1), of j i] i y(3) e by simp
    then show False using y(2) j by simp
  qed
  obtain h2' es2' where r: "(if i = ?n - 1 then (?h, es0) else sift_down i (?n - 1) (sift_up i (place (?h ! (?n - 1)) i (?h, es0)))) = (h2', es2')"
    "linked (?n - 1) (h2', es2')" "ordered (keys h2') (?n - 1)" "length h2' = length ?h"
    "set (take (?n - 1) h2') = set (take ?n ?h) - {?h ! i}"
    "\<And>e'. e' \<notin> ti_e ` (set (take ?n ?h) - {?h ! i}) \<Longrightarrow> es2' e' = es0 e'" "\<And>e'. (es2' e')\<lparr>te_idx := 0\<rparr> = (es0 e')\<lparr>te_idx := 0\<rparr>"
    by (rule remove_at [OF l0 l(2) i]) blast
  have eq: "h2' = h2" "es2' = es2" using r(1) rm by auto
  note r = r [unfolded eq]
  show e2: "es2 e = es0 e" using r(6) [of e] eX by (simp add: X_def sl)
  show io: "(es3 e')\<lparr>te_idx := 0\<rparr> = (tw_entries w e')\<lparr>te_idx := 0\<rparr>" if "e' \<noteq> e" for e'
    using r(7) [of e'] es0(1) es3(1) that by simp
  have armed: "te_armed (es3 e') = (e' \<noteq> e \<and> te_armed (tw_entries w e'))" for e'
    using idx_only(1) [OF io] es3(2) [OF e2] by (cases "e' = e") auto
  have lk: "te_localk (es3 e') = te_localk (tw_entries w e')" if "e' \<noteq> e" for e'
    using idx_only(5) [OF io [OF that]] .
  have same: "te_idx (es3 e') = te_idx (tw_entries w e')" if "te_armed (tw_entries w e')" "te_localk (tw_entries w e') \<noteq> k" for e'
  proof -
    have "e' \<noteq> e" "e' \<notin> ti_e ` (set (take ?n ?h) - {?h ! i})" using that ek se by (auto simp: sl)
    then show ?thesis using r(6) [of e'] es3(1) es0(1) by simp
  qed
  define kt' where "kt' = update_q_ptrs cpu start (kt\<lparr>k_timern := ?n - 1, k_timers := h2\<rparr>)"
  have lin: "linked (?n - 1) (h2, es3)"
  proof -
    have "te_idx (es3 (ti_e (h2 ! j))) = j" if "j < ?n - 1" for j
    proof -
      have "h2 ! j \<in> X" using r(2,5) set_take_nth [of "?n - 1" h2] that by (auto simp: linked_def X_def sl)
      then have "ti_e (h2 ! j) \<noteq> e" using eX by auto
      then show ?thesis using r(2) that es3(1) by (simp add: linked_def)
    qed
    then show ?thesis using r(2) by (simp add: linked_def)
  qed
  have own: "te_armed (es3 e') \<and> te_localk (es3 e') = k \<longleftrightarrow> e' \<in> ti_e ` X" for e'
  proof (cases "e' = e")
    case True
    then show ?thesis using armed [of e] eX by simp
  next
    case False
    have "e' \<in> ti_e ` X \<longleftrightarrow> e' \<in> ti_e ` slots k w" using False e by (auto simp: X_def)
    then show ?thesis using se armed [of e'] lk False by auto
  qed
  have oth: "te_armed (es3 e') \<and> te_localk (es3 e') = j \<longleftrightarrow> te_armed (tw_entries w e') \<and> te_localk (tw_entries w e') = j"
    if "j \<noteq> k" for e' j using that armed [of e'] lk [of e'] ek by auto
  note R = rebuilt [OF ok, of w' k kt' X]
  have R': "timers_ok cpu start w'" "slots k w' = X" "\<And>j. j \<noteq> k \<Longrightarrow> slots j w' = slots j w"
    by (rule R; use r(3,4,5) l(3,4) lin own oth same in \<open>simp add: w' kt'_def sl X_def\<close>)+
  show "timers_ok cpu start w'" by (rule R')
  show "pending w' = (pending w)(e := None)"
  proof
    fix e'
    show "pending w' e' = ((pending w)(e := None)) e'"
    proof (cases "e' = e")
      case True
      then show ?thesis using armed [of e] by (simp add: pending_def w')
    next
      case False
      have m: "\<lparr>ti_deadline_us = d, ti_e = e'\<rparr> \<in> slots j w' \<longleftrightarrow> \<lparr>ti_deadline_us = d, ti_e = e'\<rparr> \<in> slots j w" for d j
      proof (cases "j = k")
        case True
        have "\<lparr>ti_deadline_us = d, ti_e = e'\<rparr> \<noteq> ?h ! i" using False e by (metis timer_idx.select_convs(2))
        then show ?thesis using True R'(2) by (simp add: X_def)
      qed (simp add: R'(3))
      have "pending w' e' = pending w e'"
        by (rule pending_eqI [OF ok R'(1) _ _ m]) (use armed [of e'] lk [of e'] False in \<open>simp_all add: w'\<close>)
      then show ?thesis using False by simp
    qed
  qed
qed

end
