(* ===== verification/Timer.thy ===== *)
theory Timer
  imports Timer_Heap
begin

text \<open>
  The operations of \<^verbatim>\<open>runtime/timer.c\<close> on well-formed timers: what start, cancellation and
  expiration do to the map of armed timers, the runs they make, and the order in which the
  softirq serves timers.
\<close>

lemma sift_up_0: "sift_up 0 he = he"
  unfolding sift_up_def by (subst sift_up_from.simps) simp

lemma timer_cancel_eq:
  assumes a: "te_armed (tw_entries w e)" and k: "te_localk (tw_entries w e) = k" and kt: "tw_kthreads w k = kt"
    and i: "te_idx (tw_entries w e) = i" and es0: "es0 = (tw_entries w)(e := (tw_entries w e)\<lparr>te_armed := False\<rparr>)"
    and r: "(if i = k_timern kt - 1 then (k_timers kt, es0)
        else sift_down i (k_timern kt - 1) (sift_up i (place (k_timers kt ! (k_timern kt - 1)) i (k_timers kt, es0)))) = (h2, es2)"
  shows "timer_cancel cpu start e w = (True, w\<lparr>tw_entries := es2,
       tw_kthreads := (tw_kthreads w)(k := update_q_ptrs cpu start (kt\<lparr>k_timern := k_timern kt - 1, k_timers := h2\<rparr>))\<rparr>)"
proof (cases "i = k_timern kt - 1")
  case True
  then have "h2 = k_timers kt" "es2 = es0" using r by auto
  then show ?thesis using a k kt i True by (simp add: timer_cancel_def Let_def set_entry_def set_kthread_def es0)
next
  case False
  then have "sift_down i (k_timern kt - 1) (sift_up i (place (k_timers kt ! (k_timern kt - 1)) i (k_timers kt, es0))) = (h2, es2)"
    using r by simp
  moreover have "te_idx (es0 e) = i" using i by (simp add: es0)
  ultimately show ?thesis
    using a k kt i False
    by (simp add: timer_cancel_def Let_def set_entry_def set_kthread_def on_heap_comp es0 [symmetric])
      (simp add: on_heap_def set_kthread_def)
qed

lemma timer_cancel_ok:
  assumes ok: "timers_ok cpu start w" and c: "timer_cancel cpu start e w = (b, w')"
  shows "timers_ok cpu start w'" and "pending w' = (pending w)(e := None)" and "b \<longleftrightarrow> pending w e \<noteq> None"
proof -
  show "b \<longleftrightarrow> pending w e \<noteq> None" using c by (auto simp: timer_cancel_def pending_def Let_def split: if_splits)
  have "timers_ok cpu start w' \<and> pending w' = (pending w)(e := None)"
  proof (cases "te_armed (tw_entries w e)")
    case False
    then have "w' = w" "pending w e = None" using c by (auto simp: timer_cancel_def pending_def Let_def)
    then show ?thesis using ok by auto
  next
    case True
    define k where "k = te_localk (tw_entries w e)"
    define kt where "kt = tw_kthreads w k"
    define i where "i = te_idx (tw_entries w e)"
    define es0 where "es0 = (tw_entries w)(e := (tw_entries w e)\<lparr>te_armed := False\<rparr>)"
    have h: "heap_ok cpu start k w" using ok by (simp add: timers_ok_def)
    have "e \<in> ti_e ` slots k w" using ok True by (auto simp: timers_ok_def k_def)
    then obtain j where j: "j < k_timern kt" "ti_e (k_timers kt ! j) = e" using slots_nth [OF h] by (auto simp: kt_def)
    then have "j = i" using h by (auto simp: heap_ok_def linked_def Let_def kt_def i_def)
    note j = j [unfolded this]
    obtain h2 es2 where r: "(if i = k_timern kt - 1 then (k_timers kt, es0)
        else sift_down i (k_timern kt - 1) (sift_up i (place (k_timers kt ! (k_timern kt - 1)) i (k_timers kt, es0)))) = (h2, es2)"
      by fastforce
    have w': "w' = w\<lparr>tw_entries := es2,
       tw_kthreads := (tw_kthreads w)(k := update_q_ptrs cpu start (kt\<lparr>k_timern := k_timern kt - 1, k_timers := h2\<rparr>))\<rparr>"
      using c timer_cancel_eq [OF True k_def [symmetric] kt_def [symmetric] i_def [symmetric] es0_def r, of cpu start] by simp
    show ?thesis
      using removed_ok(1,2) [OF ok kt_def j(1) j(2) [symmetric] _ _ r _ _ w'] by (simp add: es0_def)
  qed
  then show "timers_ok cpu start w'" and "pending w' = (pending w)(e := None)" by auto
qed

lemma timer_pop_eq:
  assumes kt: "tw_kthreads w k = kt" and c: "\<not> preempt" "0 < k_timern kt" "ti_deadline_us (k_timers kt ! 0) \<le> now"
    and e: "e = ti_e (k_timers kt ! 0)"
    and r: "(if 0 = k_timern kt - 1 then (k_timers kt, tw_entries w)
        else sift_down 0 (k_timern kt - 1) (sift_up 0 (place (k_timers kt ! (k_timern kt - 1)) 0 (k_timers kt, tw_entries w)))) = (h2, es2)"
  shows "timer_pop cpu start preempt now k w = Some (e, w\<lparr>tw_entries := es2(e := (es2 e)\<lparr>te_executing := True, te_armed := False\<rparr>),
       tw_kthreads := (tw_kthreads w)(k := update_q_ptrs cpu start (kt\<lparr>k_timern := k_timern kt - 1, k_timers := h2\<rparr>))\<rparr>)"
proof (cases "k_timern kt - 1 = 0")
  case True
  then have "h2 = k_timers kt" "es2 = tw_entries w" using r by auto
  then show ?thesis using kt c e True by (simp add: timer_pop_def Let_def set_entry_def set_kthread_def)
next
  case False
  then have "sift_down 0 (k_timern kt - 1) (place (k_timers kt ! (k_timern kt - 1)) 0 (k_timers kt, tw_entries w)) = (h2, es2)"
    using r sift_up_0 by simp
  then show ?thesis
    using kt c e False
    by (simp add: timer_pop_def Let_def set_entry_def set_kthread_def on_heap_comp)
      (simp add: on_heap_def set_kthread_def)
qed

lemma timer_pop_none:
  "timer_pop cpu start preempt now k w = None \<longleftrightarrow>
     preempt \<or> k_timern (tw_kthreads w k) = 0 \<or> now < ti_deadline_us (k_timers (tw_kthreads w k) ! 0)"
  by (auto simp: timer_pop_def Let_def)

lemma timer_pop_ok:
  assumes ok: "timers_ok cpu start w" and p: "timer_pop cpu start preempt now k w = Some (e, w')"
  shows "timers_ok cpu start w'" and "pending w' = (pending w)(e := None)"
    and "te_armed (tw_entries w e)" "te_localk (tw_entries w e) = k"
    and "\<exists>d\<le>now. pending w e = Some d \<and>
      (\<forall>e' d'. pending w e' = Some d' \<longrightarrow> te_localk (tw_entries w e') = k \<longrightarrow> d \<le> d')"
    and "\<And>e'. e' \<noteq> e \<Longrightarrow> (tw_entries w' e')\<lparr>te_idx := 0\<rparr> = (tw_entries w e')\<lparr>te_idx := 0\<rparr>"
    and "k_timern (tw_kthreads w' k) = k_timern (tw_kthreads w k) - 1"
proof -
  define kt where "kt = tw_kthreads w k"
  have c: "\<not> preempt" "0 < k_timern kt" "ti_deadline_us (k_timers kt ! 0) \<le> now"
    using p timer_pop_none [of cpu start preempt now k w] by (auto simp: kt_def)
  obtain h2 es2 where r: "(if 0 = k_timern kt - 1 then (k_timers kt, tw_entries w)
        else sift_down 0 (k_timern kt - 1) (sift_up 0 (place (k_timers kt ! (k_timern kt - 1)) 0 (k_timers kt, tw_entries w)))) = (h2, es2)"
    by fastforce
  define es3 where "es3 = es2(e := (es2 e)\<lparr>te_executing := True, te_armed := False\<rparr>)"
  have e: "e = ti_e (k_timers kt ! 0)" and w': "w' = w\<lparr>tw_entries := es3,
       tw_kthreads := (tw_kthreads w)(k := update_q_ptrs cpu start (kt\<lparr>k_timern := k_timern kt - 1, k_timers := h2\<rparr>))\<rparr>"
    using p timer_pop_eq [OF kt_def [symmetric] c refl r, of cpu start] by (auto simp: es3_def)
  note rm = removed_ok [OF ok kt_def c(2) e _ _ r _ _ w']
  have R: "timers_ok cpu start w'" "pending w' = (pending w)(e := None)"
    by (rule rm(1,2); simp add: es3_def)+
  have R3: "(es3 e')\<lparr>te_idx := 0\<rparr> = (tw_entries w e')\<lparr>te_idx := 0\<rparr>" if "e' \<noteq> e" for e'
    by (rule rm(3)) (use that in \<open>simp_all add: es3_def\<close>)
  show "timers_ok cpu start w'" by (rule R(1))
  show "pending w' = (pending w)(e := None)" by (rule R(2))
  show "(tw_entries w' e')\<lparr>te_idx := 0\<rparr> = (tw_entries w e')\<lparr>te_idx := 0\<rparr>" if "e' \<noteq> e" for e'
    using R3 [OF that] by (simp add: w')
  show "k_timern (tw_kthreads w' k) = k_timern (tw_kthreads w k) - 1" by (simp add: w' kt_def)
  have h: "heap_ok cpu start k w" and se: "ti_e ` slots k w = {e. te_armed (tw_entries w e) \<and> te_localk (tw_entries w e) = k}"
    using ok by (simp_all add: timers_ok_def)
  have x: "k_timers kt ! 0 \<in> slots k w" using slots_nth [OF h] c(2) by (auto simp: kt_def)
  then show ea: "te_armed (tw_entries w e)" "te_localk (tw_entries w e) = k" using se e by auto
  let ?d = "ti_deadline_us (k_timers kt ! 0)"
  have "\<lparr>ti_deadline_us = ?d, ti_e = e\<rparr> = k_timers kt ! 0" using e by simp
  then have "pending w e = Some ?d" using pending_slots [OF ok, of e ?d] ea x by simp
  moreover have "?d \<le> d'" if "pending w e' = Some d'" "te_localk (tw_entries w e') = k" for e' d'
  proof -
    have "\<lparr>ti_deadline_us = d', ti_e = e'\<rparr> \<in> slots k w" using pending_slots [OF ok, of e' d'] that by simp
    then obtain j where j: "j < k_timern kt" "k_timers kt ! j = \<lparr>ti_deadline_us = d', ti_e = e'\<rparr>"
      using slots_nth [OF h] by (auto simp: kt_def)
    have "ordered (keys (k_timers kt)) (k_timern kt)" using h by (simp add: heap_ok_def Let_def kt_def)
    from ordered_root [OF this j(1)] j(2) show ?thesis by simp
  qed
  ultimately show "\<exists>d\<le>now. pending w e = Some d \<and>
      (\<forall>e' d'. pending w e' = Some d' \<longrightarrow> te_localk (tw_entries w e') = k \<longrightarrow> d \<le> d')"
    using c(3) by blast
qed

section \<open>Runs\<close>

datatype timer_act =
    TInit nat nat nat
  | TStart nat u64 nat
  | TCancel nat
  | TPop bool u64 nat
  | TDone nat

fun timer_exec :: "u64 \<Rightarrow> u64 \<Rightarrow> timer_act \<Rightarrow> timers \<Rightarrow> timers option" where
  "timer_exec cpu start (TInit e fn arg) w = Some (timer_init e fn arg w)"
| "timer_exec cpu start (TStart e d k) w = timer_start cpu start e d k w"
| "timer_exec cpu start (TCancel e) w = Some (snd (timer_cancel cpu start e w))"
| "timer_exec cpu start (TPop p now k) w =
     Some (case timer_pop cpu start p now k w of None \<Rightarrow> w | Some (e, w') \<Rightarrow> w')"
| "timer_exec cpu start (TDone e) w = Some (timer_done e w)"

text \<open>A timer is initialised only while it is not armed.\<close>

inductive timer_run :: "u64 \<Rightarrow> u64 \<Rightarrow> timers \<Rightarrow> timers \<Rightarrow> bool" for cpu start w0 where
  init: "timer_run cpu start w0 w0"
| step: "timer_run cpu start w0 w \<Longrightarrow> (\<forall>e fn arg. a = TInit e fn arg \<longrightarrow> \<not> te_armed (tw_entries w e)) \<Longrightarrow>
     timer_exec cpu start a w = Some w' \<Longrightarrow> timer_run cpu start w0 w'"

text \<open>The timers after \<^verbatim>\<open>timer_init_thread\<close> on every kthread.\<close>

definition no_timers :: "timers \<Rightarrow> bool" where
  "no_timers w \<longleftrightarrow> (\<forall>e. \<not> te_armed (tw_entries w e)) \<and>
     (\<forall>k. k_timern (tw_kthreads w k) = 0 \<and> length (k_timers (tw_kthreads w k)) = RUNTIME_MAX_TIMERS \<and>
       k_next_timer_tsc (tw_kthreads w k) = - 1)"

lemma no_timers_ok: "no_timers w \<Longrightarrow> timers_ok cpu start w"
  by (auto simp: no_timers_def timers_ok_def heap_ok_def linked_def ordered_def slots_def update_q_ptrs_def
      RUNTIME_MAX_TIMERS_def Let_def)

lemma entry_only_ok:
  assumes ok: "timers_ok cpu start w" and "w' = set_entry e x w" and "te_armed x = te_armed (tw_entries w e)"
    and "te_armed x \<Longrightarrow> te_idx x = te_idx (tw_entries w e) \<and> te_localk x = te_localk (tw_entries w e)"
  shows "timers_ok cpu start w'" and "pending w' = pending w"
proof -
  have kt: "tw_kthreads w' = tw_kthreads w" and sl: "slots k w' = slots k w" for k
    using assms(2) by (simp_all add: set_entry_def slots_def)
  have es: "te_armed (tw_entries w' e') = te_armed (tw_entries w e')"
    "te_armed (tw_entries w e') \<Longrightarrow> te_idx (tw_entries w' e') = te_idx (tw_entries w e') \<and>
      te_localk (tw_entries w' e') = te_localk (tw_entries w e')" for e'
    using assms by (auto simp: set_entry_def)
  have "heap_ok cpu start k w' \<and> ti_e ` slots k w' = {e. te_armed (tw_entries w' e) \<and> te_localk (tw_entries w' e) = k}" for k
  proof -
    have h: "heap_ok cpu start k w" and se: "ti_e ` slots k w = {e. te_armed (tw_entries w e) \<and> te_localk (tw_entries w e) = k}"
      using ok by (simp_all add: timers_ok_def)
    have "te_idx (tw_entries w' (ti_e (k_timers (tw_kthreads w k) ! i))) = i" if i: "i < k_timern (tw_kthreads w k)" for i
    proof -
      have "ti_e (k_timers (tw_kthreads w k) ! i) \<in> ti_e ` slots k w" using slots_nth [OF h] i by auto
      then have "te_armed (tw_entries w (ti_e (k_timers (tw_kthreads w k) ! i)))" using se by auto
      then show ?thesis using es(2) h i by (simp add: heap_ok_def linked_def Let_def)
    qed
    then have "heap_ok cpu start k w'" using h by (simp add: heap_ok_def linked_def Let_def kt)
    moreover have "te_armed (tw_entries w' e) \<and> te_localk (tw_entries w' e) = k \<longleftrightarrow>
        te_armed (tw_entries w e) \<and> te_localk (tw_entries w e) = k" for e using es [of e] by auto
    ultimately show ?thesis using se sl by simp
  qed
  then show "timers_ok cpu start w'" by (simp add: timers_ok_def)
  show "pending w' = pending w" using es by (auto simp: fun_eq_iff pending_def Let_def kt)
qed

lemma timer_done_ok:
  assumes "timers_ok cpu start w"
  shows "timers_ok cpu start (timer_done e w)" and "pending (timer_done e w) = pending w"
  by (rule entry_only_ok [OF assms timer_done_def]; simp)+

lemma timer_init_ok:
  assumes "timers_ok cpu start w" and "\<not> te_armed (tw_entries w e)"
  shows "timers_ok cpu start (timer_init e fn arg w)" and "pending (timer_init e fn arg w) = pending w"
  by (rule entry_only_ok [OF assms(1) timer_init_def]; use assms(2) in simp)+

lemma timer_run_ok:
  assumes "timer_run cpu start w0 w" and "no_timers w0"
  shows "timers_ok cpu start w"
  using assms
proof (induction rule: timer_run.induct)
  case init
  then show ?case by (rule no_timers_ok)
next
  case (step w a w')
  then have ok: "timers_ok cpu start w" by simp
  show ?case
  proof (cases a)
    case (TInit e fn arg)
    then show ?thesis using timer_init_ok [OF ok] step by auto
  next
    case (TStart e d k)
    then show ?thesis using timer_start_ok [OF ok] step by auto
  next
    case (TCancel e)
    then show ?thesis using timer_cancel_ok(1) [OF ok, of e "fst (timer_cancel cpu start e w)"] step by auto
  next
    case (TPop p now k)
    then show ?thesis using timer_pop_ok(1) [OF ok, of p now k] step ok by (auto split: option.splits)
  next
    case (TDone e)
    then show ?thesis using timer_done_ok [OF ok] step by auto
  qed
qed

section \<open>Firing\<close>

text \<open>What the softirq relies on: \<open>pop\<close> takes the entry with the least deadline once that deadline has
  passed, and \<open>done\<close> does not touch the queue.\<close>

locale deadline_queue =
  fixes queued :: "'w \<Rightarrow> 'e \<Rightarrow> u64 option" and ok :: "'w \<Rightarrow> bool"
    and pop :: "u64 \<Rightarrow> 'w \<Rightarrow> ('e \<times> 'w) option" and fin :: "'e \<Rightarrow> 'w \<Rightarrow> 'w"
  assumes finite_queue: "ok w \<Longrightarrow> finite (dom (queued w))"
    and pop_none: "ok w \<Longrightarrow> pop now w = None \<longleftrightarrow> (\<forall>e d. queued w e = Some d \<longrightarrow> now < d)"
    and pop_some: "ok w \<Longrightarrow> pop now w = Some (e, w') \<Longrightarrow> ok w' \<and> queued w' = (queued w)(e := None) \<and>
      (\<exists>d\<le>now. queued w e = Some d \<and> (\<forall>e' d'. queued w e' = Some d' \<longrightarrow> d \<le> d'))"
    and fin_ok: "ok w \<Longrightarrow> ok (fin e w) \<and> queued (fin e w) = queued w"
begin

text \<open>The loop: \<open>ins\<close> are readings of the preemption flag and of the clock, \<open>h\<close> is what happens to the queue
  while an entry is handled.\<close>

fun fire :: "('e \<Rightarrow> 'w \<Rightarrow> 'w) \<Rightarrow> (bool \<times> u64) list \<Rightarrow> 'w \<Rightarrow> ('e list \<times> 'w) option" where
  "fire h [] w = None"
| "fire h ((preempt, now) # ins) w =
     (case (if preempt then None else pop now w) of
        None \<Rightarrow> Some ([], w)
      | Some (e, w) \<Rightarrow> map_option (\<lambda>(es, w). (e # es, w)) (fire h ins (fin e (h e w))))"

text \<open>One turn: the entry with the least deadline, which has passed, is taken out and handled.\<close>

definition turn :: "('e \<Rightarrow> 'w \<Rightarrow> 'w) \<Rightarrow> bool \<times> u64 \<Rightarrow> 'e \<Rightarrow> 'w \<Rightarrow> 'w \<Rightarrow> bool" where
  "turn h r e w w' \<longleftrightarrow> ok w \<and> \<not> fst r \<and> (\<exists>d u. queued w e = Some d \<and> d \<le> snd r \<and>
     (\<forall>e' d'. queued w e' = Some d' \<longrightarrow> d \<le> d') \<and> queued u = (queued w)(e := None) \<and> w' = fin e (h e u))"

lemma fire_turns:
  assumes "ok w" and "\<forall>e u. ok u \<longrightarrow> ok (h e u)" and "fire h ins w = Some (es, w')"
  shows "\<exists>vs. length vs = Suc (length es) \<and> vs ! 0 = w \<and> vs ! length es = w' \<and> ok w' \<and> length es < length ins \<and>
    (\<forall>i < length es. turn h (ins ! i) (es ! i) (vs ! i) (vs ! Suc i)) \<and>
    (fst (ins ! length es) \<or> (\<forall>e d. queued w' e = Some d \<longrightarrow> snd (ins ! length es) < d))"
  using assms(1,3)
proof (induction ins arbitrary: w es)
  case (Cons r ins)
  obtain p now where r: "r = (p, now)" by fastforce
  show ?case
  proof (cases "if p then None else pop now w")
    case None
    then have "es = []" "w' = w" using Cons.prems(2) r by (auto split: if_splits)
    then show ?thesis using None Cons.prems(1) pop_none [of w now] r
      by (intro exI [of _ "[w]"]) (auto split: if_splits)
  next
    case (Some q)
    then obtain e u where q: "pop now w = Some (e, u)" "\<not> p" "q = (e, u)" by (cases q) (auto split: if_splits)
    let ?v = "fin e (h e u)"
    from Cons.prems(2) q r obtain fs where f: "fire h ins ?v = Some (fs, w')" "es = e # fs" by auto
    note P = pop_some [OF Cons.prems(1) q(1)]
    have "ok ?v" using P assms(2) fin_ok by blast
    from Cons.IH [OF this f(1)] obtain vs where vs: "length vs = Suc (length fs)" "vs ! 0 = ?v" "vs ! length fs = w'"
      "ok w'" "length fs < length ins" "\<forall>i < length fs. turn h (ins ! i) (fs ! i) (vs ! i) (vs ! Suc i)"
      "fst (ins ! length fs) \<or> (\<forall>e d. queued w' e = Some d \<longrightarrow> snd (ins ! length fs) < d)" by blast
    have "turn h r e w ?v" unfolding turn_def using P q(2) r Cons.prems(1) by auto
    then have "\<forall>i < length es. turn h ((r # ins) ! i) (es ! i) ((w # vs) ! i) ((w # vs) ! Suc i)"
      using vs(2,6) f(2) by (auto simp: nth_Cons split: nat.split)
    then show ?thesis using vs f(2) by (intro exI [of _ "w # vs"]) simp
  qed
qed simp

text \<open>With handlers that add nothing to the queue the loop ends, since each turn takes an entry off it, and the
  entries are handled in the order of their deadlines.\<close>

lemma pop_turn:
  assumes "ok w" and "pop now w = Some (e, u)" and "\<forall>e u. ok u \<longrightarrow> ok (h e u) \<and> queued (h e u) \<subseteq>\<^sub>m queued u"
  shows "ok (fin e (h e u))" and "queued (fin e (h e u)) \<subseteq>\<^sub>m (queued w)(e := None)" and "e \<in> dom (queued w)"
    and "dom (queued (fin e (h e u))) \<subseteq> dom (queued w) - {e}"
proof -
  note P = pop_some [OF assms(1,2)]
  show "ok (fin e (h e u))" "e \<in> dom (queued w)" using P assms(3) fin_ok by auto
  show le: "queued (fin e (h e u)) \<subseteq>\<^sub>m (queued w)(e := None)" using P assms(3) fin_ok by metis
  show "dom (queued (fin e (h e u))) \<subseteq> dom (queued w) - {e}" using map_le_implies_dom_le [OF le] by auto
qed

lemma fire_ends:
  assumes "ok w" and "card (dom (queued w)) < length ins"
    and "\<forall>e u. ok u \<longrightarrow> ok (h e u) \<and> queued (h e u) \<subseteq>\<^sub>m queued u"
  shows "\<exists>es w'. fire h ins w = Some (es, w')"
  using assms(1,2)
proof (induction ins arbitrary: w)
  case (Cons r ins)
  obtain p now where r: "r = (p, now)" by fastforce
  show ?case
  proof (cases "if p then None else pop now w")
    case (Some q)
    then obtain e u where q: "pop now w = Some (e, u)" "\<not> p" by (cases q) (auto split: if_splits)
    note T = pop_turn [OF Cons.prems(1) q(1) assms(3)]
    have "card (dom (queued (fin e (h e u)))) < card (dom (queued w))"
      by (rule psubset_card_mono [OF finite_queue [OF Cons.prems(1)]]) (use T(3,4) in \<open>simp add: psubset_eq\<close>, blast)
    then have "card (dom (queued (fin e (h e u)))) < length ins" using Cons.prems(2) by simp
    then show ?thesis using Cons.IH [OF T(1)] q r by auto
  qed (simp add: r)
qed simp

lemma fire_order:
  assumes "ok w" and "fire h ins w = Some (es, w')"
    and "\<forall>e u. ok u \<longrightarrow> ok (h e u) \<and> queued (h e u) \<subseteq>\<^sub>m queued u"
  shows "distinct es \<and> set es \<subseteq> dom (queued w) \<and> sorted (map (\<lambda>e. the (queued w e)) es)"
  using assms(1,2)
proof (induction ins arbitrary: w es)
  case (Cons r ins)
  obtain p now where r: "r = (p, now)" by fastforce
  show ?case
  proof (cases "if p then None else pop now w")
    case (Some q)
    then obtain e u where q: "pop now w = Some (e, u)" "\<not> p" by (cases q) (auto split: if_splits)
    let ?v = "fin e (h e u)"
    from Cons.prems(2) q r obtain fs where f: "fire h ins ?v = Some (fs, w')" "es = e # fs" by auto
    note T = pop_turn [OF Cons.prems(1) q(1) assms(3)]
    have ih: "distinct fs" "set fs \<subseteq> dom (queued ?v)" "sorted (map (\<lambda>e. the (queued ?v e)) fs)"
      using Cons.IH [OF T(1) f(1)] by auto
    have "queued ?v e' = queued w e'" if "e' \<in> set fs" for e'
      using that ih(2) T(2) by (auto simp: map_le_def split: if_splits) (metis domIff option.distinct(1) subsetD)
    then have m: "map (\<lambda>e. the (queued ?v e)) fs = map (\<lambda>e. the (queued w e)) fs" by simp
    have "the (queued w e) \<le> the (queued w e')" if "e' \<in> set fs" for e'
      using that ih(2) T(4) pop_some [OF Cons.prems(1) q(1)] by fastforce
    moreover have "set fs \<subseteq> dom (queued w) - {e}" using ih(2) T(4) by (rule subset_trans)
    ultimately show ?thesis using ih(1,3) m f(2) T(3) by auto
  qed (use Cons.prems r in \<open>auto split: if_splits\<close>)
qed simp

end

lemma slot_eta: "\<lparr>ti_deadline_us = ti_deadline_us x, ti_e = ti_e x\<rparr> = x"
  by (cases x) simp

text \<open>The timers of a kthread are such a queue.\<close>

definition pending_on :: "nat \<Rightarrow> timers \<Rightarrow> nat \<Rightarrow> u64 option" where
  "pending_on k w e = (if te_localk (tw_entries w e) = k then pending w e else None)"

lemma pending_on_slots:
  assumes "timers_ok cpu start w"
  shows "pending_on k w e = Some d \<longleftrightarrow> \<lparr>ti_deadline_us = d, ti_e = e\<rparr> \<in> slots k w"
proof -
  have se: "ti_e ` slots k w = {e. te_armed (tw_entries w e) \<and> te_localk (tw_entries w e) = k}"
    using assms by (simp add: timers_ok_def)
  have "te_armed (tw_entries w e) \<and> te_localk (tw_entries w e) = k" if "\<lparr>ti_deadline_us = d, ti_e = e\<rparr> \<in> slots k w"
    using se that by (metis (mono_tags, lifting) image_eqI mem_Collect_eq timer_idx.select_convs(2))
  then show ?thesis using pending_slots [OF assms, of e d] by (auto simp: pending_on_def)
qed

lemma dom_pending_on:
  assumes "timers_ok cpu start w"
  shows "dom (pending_on k w) = ti_e ` slots k w"
proof
  show "dom (pending_on k w) \<subseteq> ti_e ` slots k w"
    using pending_on_slots [OF assms, of k] by (force simp: dom_def image_def)
  show "ti_e ` slots k w \<subseteq> dom (pending_on k w)"
  proof
    fix e assume "e \<in> ti_e ` slots k w"
    then obtain x where x: "x \<in> slots k w" "e = ti_e x" by auto
    then have "\<lparr>ti_deadline_us = ti_deadline_us x, ti_e = e\<rparr> \<in> slots k w" by (simp add: slot_eta)
    then show "e \<in> dom (pending_on k w)" using pending_on_slots [OF assms] by blast
  qed
qed

lemma card_pending_on:
  assumes "timers_ok cpu start w"
  shows "card (dom (pending_on k w)) \<le> k_timern (tw_kthreads w k)"
proof -
  have "card (ti_e ` slots k w) \<le> card (slots k w)" by (rule card_image_le) (simp add: slots_def)
  also have "\<dots> \<le> length (take (k_timern (tw_kthreads w k)) (k_timers (tw_kthreads w k)))"
    unfolding slots_def by (rule card_length)
  finally show ?thesis using dom_pending_on [OF assms] by simp
qed

lemma root_least:
  assumes ok: "timers_ok cpu start w" and p: "pending_on k w e = Some d"
  shows "0 < k_timern (tw_kthreads w k) \<and> ti_deadline_us (k_timers (tw_kthreads w k) ! 0) \<le> d"
proof -
  have h: "heap_ok cpu start k w" using ok by (simp add: timers_ok_def)
  have o: "ordered (keys (k_timers (tw_kthreads w k))) (k_timern (tw_kthreads w k))" using h by (simp add: heap_ok_def Let_def)
  have "\<lparr>ti_deadline_us = d, ti_e = e\<rparr> \<in> slots k w" using p pending_on_slots [OF ok] by simp
  then obtain j where j: "j < k_timern (tw_kthreads w k)" "k_timers (tw_kthreads w k) ! j = \<lparr>ti_deadline_us = d, ti_e = e\<rparr>"
    using slots_nth [OF h] by auto
  show ?thesis using ordered_root [OF o j(1)] j by auto
qed

lemma pending_root:
  assumes ok: "timers_ok cpu start w"
  shows "(\<forall>e d. pending_on k w e = Some d \<longrightarrow> now < d) \<longleftrightarrow>
    k_timern (tw_kthreads w k) = 0 \<or> now < ti_deadline_us (k_timers (tw_kthreads w k) ! 0)"
    (is "?all \<longleftrightarrow> ?n = 0 \<or> now < ?d")
proof -
  have h: "heap_ok cpu start k w" using ok by (simp add: timers_ok_def)
  show ?thesis
  proof
    assume all: ?all
    show "?n = 0 \<or> now < ?d"
    proof (cases "?n = 0")
      case False
      let ?x = "k_timers (tw_kthreads w k) ! 0"
      have "?x \<in> slots k w" using slots_nth [OF h] False by auto
      then have "\<lparr>ti_deadline_us = ?d, ti_e = ti_e ?x\<rparr> \<in> slots k w" by (simp only: slot_eta)
      then show ?thesis using all pending_on_slots [OF ok] by blast
    qed simp
  next
    assume c: "?n = 0 \<or> now < ?d"
    show ?all using root_least [OF ok] c by fastforce
  qed
qed

interpretation tq: deadline_queue "pending_on k" "timers_ok cpu start" "\<lambda>now. timer_pop cpu start False now k" timer_done
  for k cpu start
proof
  fix w :: timers and now e w'
  assume ok: "timers_ok cpu start w"
  show "finite (dom (pending_on k w))" using dom_pending_on [OF ok] by (simp add: slots_def)
  show "timer_pop cpu start False now k w = None \<longleftrightarrow> (\<forall>e d. pending_on k w e = Some d \<longrightarrow> now < d)"
    using timer_pop_none [of cpu start False now k w] pending_root [OF ok] by simp
  show "timers_ok cpu start (timer_done e w) \<and> pending_on k (timer_done e w) = pending_on k w"
    using timer_done_ok [OF ok, of e] by (auto simp: pending_on_def timer_done_def set_entry_def fun_eq_iff)
  assume p: "timer_pop cpu start False now k w = Some (e, w')"
  note P = timer_pop_ok [OF ok p]
  have lk: "te_localk (tw_entries w' e') = te_localk (tw_entries w e')" if "e' \<noteq> e" for e'
    using idx_only(5) [OF P(6) [OF that]] .
  have "pending_on k w' = (pending_on k w)(e := None)"
    using P(2) lk by (auto simp: fun_eq_iff pending_on_def)
  moreover obtain d where "d \<le> now" "pending w e = Some d"
      "\<And>e' d'. pending w e' = Some d' \<Longrightarrow> te_localk (tw_entries w e') = k \<Longrightarrow> d \<le> d'" using P(5) by blast
  ultimately show "timers_ok cpu start w' \<and> pending_on k w' = (pending_on k w)(e := None) \<and>
      (\<exists>d\<le>now. pending_on k w e = Some d \<and> (\<forall>e' d'. pending_on k w e' = Some d' \<longrightarrow> d \<le> d'))"
    using P(1,4) by (auto simp: pending_on_def split: if_splits)
qed

text \<open>The softirq is the loop of that queue.\<close>

lemma timer_pop_preempt: "timer_pop cpu start True now k w = None"
  by (simp add: timer_pop_def Let_def)

lemma softirq_fire:
  "timer_softirq_one cpu start h ins k w =
     tq.fire cpu start k (\<lambda>e u. h (te_fn (tw_entries u e)) (te_arg (tw_entries u e)) u) ins w"
proof (induction ins arbitrary: w)
  case (Cons r ins)
  have "x \<bind> (\<lambda>(es, w). Some (e # es, w)) = map_option (\<lambda>(es, w). (e # es, w)) x" for x :: "(nat list \<times> timers) option" and e
    by (cases x) auto
  then show ?case using Cons by (cases r) (auto simp: timer_pop_preempt split: option.split)
qed simp

lemma valid_from_iff:
  "valid_from h m \<longleftrightarrow> (\<forall>i\<le>m. 1 < i \<longrightarrow> ti_deadline_us (h ! par i) \<le> ti_deadline_us (h ! i))"
  by (induction h m rule: valid_from.induct) (auto simp: par_def Let_def le_Suc_eq not_less)

section \<open>A small run\<close>

definition zero_timers :: timers where
  "zero_timers = \<lparr>tw_entries = (\<lambda>_. \<lparr>te_armed = False, te_executing = False, te_idx = 0, te_fn = 0, te_arg = 0, te_localk = 0\<rparr>),
     tw_kthreads = (\<lambda>_. \<lparr>k_timern = 0, k_timers = replicate RUNTIME_MAX_TIMERS \<lparr>ti_deadline_us = 0, ti_e = 0\<rparr>,
       k_next_timer_tsc = - 1\<rparr>)\<rparr>"

definition one_timer :: timers where
  "one_timer = the (timer_start 1 0 7 5 0 zero_timers)"

lemma zero_timers_none: "no_timers zero_timers"
  by (simp add: no_timers_def zero_timers_def)

lemma one_timer_start: "timer_start 1 0 7 5 0 zero_timers = Some one_timer"
proof -
  have "timer_start 1 0 7 5 0 zero_timers \<noteq> None"
    unfolding timer_start_none by (simp add: zero_timers_def RUNTIME_MAX_TIMERS_def)
  then show ?thesis by (auto simp: one_timer_def)
qed

lemma one_timer_run: "timer_run 1 0 zero_timers one_timer"
  by (rule timer_run.step [OF timer_run.init, where a = "TStart 7 5 0"]) (simp_all add: one_timer_start)

lemma one_timer_pending: "pending one_timer = [7 \<mapsto> 5]"
proof -
  have "pending zero_timers = Map.empty" by (auto simp: fun_eq_iff pending_def zero_timers_def)
  then show ?thesis using timer_start_ok(2) [OF no_timers_ok [OF zero_timers_none] one_timer_start] by simp
qed

lemma one_timer_on: "te_localk (tw_entries one_timer 7) = 0" "k_timern (tw_kthreads one_timer 0) = 1"
  by (simp_all add: one_timer_def sift_up_0 timer_start_def timer_start_locked_def zero_timers_def RUNTIME_MAX_TIMERS_def set_kthread_def
      set_entry_def on_heap_def Let_def)

section \<open>What the timers guarantee\<close>

text \<open>In every run of starts, cancellations and expirations, on any number of kthreads, the entry of the
  heap that is published as the next deadline is the least deadline of the kthread's armed timers, and each
  armed timer is in the heap of the kthread that started it, at the index it remembers.\<close>

lemma timer_heap_exact:
  assumes "timer_run cpu start w0 w" and "no_timers w0"
  shows "(\<forall>e. pending_on k w e \<noteq> None \<longleftrightarrow> te_armed (tw_entries w e) \<and> te_localk (tw_entries w e) = k) \<and>
    (\<forall>e. pending_on k w e \<noteq> None \<longrightarrow> te_idx (tw_entries w e) < k_timern (tw_kthreads w k) \<and>
       ti_e (k_timers (tw_kthreads w k) ! te_idx (tw_entries w e)) = e) \<and>
    (if dom (pending_on k w) = {}
     then timer_earliest_deadline (tw_kthreads w k) = 0 \<and> k_next_timer_tsc (tw_kthreads w k) = - 1
     else timer_earliest_deadline (tw_kthreads w k) = Min (ran (pending_on k w)) \<and>
       k_next_timer_tsc (tw_kthreads w k) = Min (ran (pending_on k w)) * cpu + start)"
proof -
  have ok: "timers_ok cpu start w" by (rule timer_run_ok [OF assms])
  have h: "heap_ok cpu start k w" and se: "ti_e ` slots k w = {e. te_armed (tw_entries w e) \<and> te_localk (tw_entries w e) = k}"
    using ok by (simp_all add: timers_ok_def)
  have dom: "pending_on k w e \<noteq> None \<longleftrightarrow> te_armed (tw_entries w e) \<and> te_localk (tw_entries w e) = k" for e
    by (auto simp: pending_on_def pending_def Let_def)
  have place: "te_idx (tw_entries w e) < k_timern (tw_kthreads w k) \<and>
       ti_e (k_timers (tw_kthreads w k) ! te_idx (tw_entries w e)) = e" if "pending_on k w e \<noteq> None" for e
  proof -
    have "e \<in> ti_e ` slots k w" using dom that se by simp
    then obtain j where "j < k_timern (tw_kthreads w k)" "e = ti_e (k_timers (tw_kthreads w k) ! j)"
      using slots_nth [OF h] by auto
    then show ?thesis using h by (simp add: heap_ok_def linked_def Let_def)
  qed
  have q: "update_q_ptrs cpu start (tw_kthreads w k) = tw_kthreads w k" using h by (simp add: heap_ok_def Let_def)
  have nx: "k_next_timer_tsc (tw_kthreads w k) = (if k_timern (tw_kthreads w k) \<noteq> 0
      then ti_deadline_us (k_timers (tw_kthreads w k) ! 0) * cpu + start else - 1)"
    by (subst q [symmetric]) (simp add: update_q_ptrs_def)
  have em: "dom (pending_on k w) = {} \<longleftrightarrow> k_timern (tw_kthreads w k) = 0"
    using dom_pending_on [OF ok] h by (auto simp: slots_def heap_ok_def Let_def RUNTIME_MAX_TIMERS_def)
  have "Min (ran (pending_on k w)) = ti_deadline_us (k_timers (tw_kthreads w k) ! 0)" (is "Min ?R = ?d")
    if n: "k_timern (tw_kthreads w k) \<noteq> 0"
  proof (rule Min_eqI)
    show "finite ?R" using tq.finite_queue [OF ok] by (rule finite_ran)
    show "?d \<le> d" if "d \<in> ?R" for d using that root_least [OF ok] by (auto simp: ran_def)
    show "?d \<in> ?R"
    proof -
      have "k_timers (tw_kthreads w k) ! 0 \<in> slots k w" using slots_nth [OF h] n by auto
      then show ?thesis using pending_on_slots [OF ok] slot_eta by (metis ranI)
    qed
  qed
  then show ?thesis using dom place em nx by (auto simp: timer_earliest_deadline_def)
qed

text \<open>C24. The heaps implement a map from armed timers to deadlines: starting a timer that is not armed enters it,
  cancelling removes it and tells whether it was there, an expiration takes the timer of the kthread with
  the least deadline when that has passed, and nothing else changes the map.  A start fails only
  on an armed timer or on a full heap.\<close>

theorem timers_refine_map:
  assumes "timers_ok cpu start w"
  shows "(\<forall>e d k w'. timer_start cpu start e d k w = Some w' \<longrightarrow>
      timers_ok cpu start w' \<and> pending w' = (pending w)(e \<mapsto> d)) \<and>
    (\<forall>e d k. timer_start cpu start e d k w = None \<longleftrightarrow>
      pending w e \<noteq> None \<or> RUNTIME_MAX_TIMERS \<le> k_timern (tw_kthreads w k) + 1) \<and>
    (\<forall>e b w'. timer_cancel cpu start e w = (b, w') \<longrightarrow>
      timers_ok cpu start w' \<and> pending w' = (pending w)(e := None) \<and> (b \<longleftrightarrow> pending w e \<noteq> None)) \<and>
    (\<forall>now k. timer_pop cpu start False now k w = None \<longleftrightarrow> (\<forall>e d. pending_on k w e = Some d \<longrightarrow> now < d)) \<and>
    (\<forall>p now k e w'. timer_pop cpu start p now k w = Some (e, w') \<longrightarrow>
      timers_ok cpu start w' \<and> pending w' = (pending w)(e := None) \<and>
      (\<exists>d\<le>now. pending_on k w e = Some d \<and> (\<forall>e' d'. pending_on k w e' = Some d' \<longrightarrow> d \<le> d')))"
proof (intro conjI allI impI)
  fix p now k e w' assume "timer_pop cpu start p now k w = Some (e, w')"
  note P = timer_pop_ok [OF assms this]
  show "timers_ok cpu start w'" "pending w' = (pending w)(e := None)" by (rule P(1), rule P(2))
  show "\<exists>d\<le>now. pending_on k w e = Some d \<and> (\<forall>e' d'. pending_on k w e' = Some d' \<longrightarrow> d \<le> d')"
    using P(4,5) by (fastforce simp: pending_on_def)
qed (use timer_start_ok [OF assms] timer_cancel_ok [OF assms] tq.pop_none [OF assms] timer_start_none in
    \<open>auto simp: pending_def Let_def\<close>)

theorem timers_refine_map_witness:
  "\<exists>w'. timer_start 1 0 7 5 0 zero_timers = Some w' \<and> pending w' = [7 \<mapsto> 5]"
proof -
  have "pending zero_timers = Map.empty" by (auto simp: fun_eq_iff pending_def zero_timers_def)
  then show ?thesis
    using timers_refine_map [OF no_timers_ok [OF zero_timers_none], of 1 0] one_timer_start by metis
qed



text \<open>C39. The debugging check of the heap skips the first child of the root: it holds exactly when all entries
  from the third one on are in order, and so accepts heaps whose second entry is earlier than the first.\<close>

theorem is_valid_heap_gap:
  "(is_valid_heap h n \<longleftrightarrow>
     (\<forall>i<n. 1 < i \<longrightarrow> ti_deadline_us (h ! ((i - 1) div D)) \<le> ti_deadline_us (h ! i))) \<and>
   is_valid_heap [\<lparr>ti_deadline_us = 5, ti_e = 0\<rparr>, \<lparr>ti_deadline_us = 3, ti_e = 1\<rparr>] 2"
proof
  show "is_valid_heap h n \<longleftrightarrow>
     (\<forall>i<n. 1 < i \<longrightarrow> ti_deadline_us (h ! ((i - 1) div D)) \<le> ti_deadline_us (h ! i))"
    by (auto simp: is_valid_heap_def valid_from_iff par_def)
  show "is_valid_heap [\<lparr>ti_deadline_us = 5, ti_e = 0\<rparr>, \<lparr>ti_deadline_us = 3, ti_e = 1\<rparr>] 2"
    by (simp add: is_valid_heap_def valid_from_iff)
qed

theorem is_valid_heap_gap_witness:
  "is_valid_heap [\<lparr>ti_deadline_us = 5, ti_e = 0\<rparr>, \<lparr>ti_deadline_us = 3, ti_e = 1\<rparr>] 2 \<and> \<not> (5 :: u64) \<le> 3"
  using is_valid_heap_gap [of "[]" 0] by simp

end
