(* ===== verification/Mutex.thy ===== *)
theory Mutex
  imports Prelude
begin

text \<open>
  The mutex of \<^verbatim>\<open>runtime/sync.c\<close> and \<^verbatim>\<open>inc/runtime/sync.h\<close> at the level of its atomic actions.
  A thread first tries to change \<^verbatim>\<open>held\<close> by compare-and-swap; otherwise it takes the spin lock
  \<^verbatim>\<open>waiter_lock\<close>, sets \<^verbatim>\<open>WAITER_FLAG\<close> and parks in a queue.  An unlock that finds the flag
  hands the mutex to the head of the queue.  Threads are numbers; a position for each thread says which
  action it takes next, and a run interleaves the actions of all threads.  Whether preemption is enabled changes
  only how the spin lock is taken and is left out.
\<close>

unbundle bit_operations_syntax

section \<open>State\<close>

definition WAITER_FLAG :: u32 where "WAITER_FLAG = push_bit 31 1"

record mutex =
  mu_held :: u32
  mu_waiter_lock :: "nat option"
  mu_waiters :: "nat list"
  mu_oldest_tsc :: u64

record uthread =
  th_ready_tsc :: u64
  th_enque_ts :: u64
  th_acc_qdel :: u64

definition mutex_init :: mutex where
  "mutex_init = \<lparr>mu_held = 0, mu_waiter_lock = None, mu_waiters = [], mu_oldest_tsc = - 1\<rparr>"

section \<open>The pieces of the operations\<close>

definition atomic_cmpxchg :: "u32 \<Rightarrow> u32 \<Rightarrow> mutex \<Rightarrow> bool \<times> mutex" where
  "atomic_cmpxchg old new m = (if mu_held m = old then (True, m\<lparr>mu_held := new\<rparr>) else (False, m))"

definition mutex_try_lock :: "mutex \<Rightarrow> bool \<times> mutex" where
  "mutex_try_lock m = atomic_cmpxchg 0 1 m"

definition mutex_is_held :: "mutex \<Rightarrow> bool" where
  "mutex_is_held m \<longleftrightarrow> mu_held m \<noteq> 0"

text \<open>\<^verbatim>\<open>atomic_fetch_and_or\<close> with \<^verbatim>\<open>WAITER_FLAG\<close>; the result tells whether the mutex was free.\<close>

definition flag_waiter :: "mutex \<Rightarrow> bool \<times> mutex" where
  "flag_waiter m = (mu_held m = 0, m\<lparr>mu_held := mu_held m OR WAITER_FLAG\<rparr>)"

definition add_waiter :: "nat \<Rightarrow> u64 \<Rightarrow> mutex \<Rightarrow> (nat \<Rightarrow> uthread) \<Rightarrow> mutex \<times> (nat \<Rightarrow> uthread)" where
  "add_waiter t now m ths =
     (let is_first = (mu_waiters m = []);
          ths = ths(t := (ths t)\<lparr>th_ready_tsc := now, th_enque_ts := now\<rparr>);
          m = m\<lparr>mu_waiters := mu_waiters m @ [t]\<rparr>
      in (if is_first then m\<lparr>mu_oldest_tsc := th_ready_tsc (ths t)\<rparr> else m, ths))"

definition oldest_of :: "nat list \<Rightarrow> (nat \<Rightarrow> uthread) \<Rightarrow> u64" where
  "oldest_of ws ths = (case ws of [] \<Rightarrow> - 1 | w # _ \<Rightarrow> th_ready_tsc (ths w))"

definition pop_waiter :: "(nat \<Rightarrow> uthread) \<Rightarrow> mutex \<Rightarrow> nat option \<times> mutex" where
  "pop_waiter ths m =
     (case mu_waiters m of
        [] \<Rightarrow> (None, m\<lparr>mu_held := 0\<rparr>)
      | w # ws \<Rightarrow> (Some w, m\<lparr>mu_waiters := ws, mu_oldest_tsc := oldest_of ws ths\<rparr>))"

definition charge_delay :: "u64 \<Rightarrow> nat \<Rightarrow> (nat \<Rightarrow> uthread) \<Rightarrow> nat \<Rightarrow> uthread" where
  "charge_delay now w ths = ths(w := (ths w)\<lparr>th_acc_qdel := th_acc_qdel (ths w) + (now - th_enque_ts (ths w))\<rparr>)"

definition mutex_queue_tsc :: "u64 \<Rightarrow> mutex \<Rightarrow> u64" where
  "mutex_queue_tsc cur_tsc m = (if cur_tsc < mu_oldest_tsc m then 0 else cur_tsc - mu_oldest_tsc m)"

definition mutex_queue_us :: "u64 \<Rightarrow> u64 \<Rightarrow> mutex \<Rightarrow> u64" where
  "mutex_queue_us cycles_per_us cur_tsc m = mutex_queue_tsc cur_tsc m div cycles_per_us"

section \<open>Threads\<close>

text \<open>Where a thread stands: outside, in the slow path of \<^verbatim>\<open>mutex_lock\<close> (waiting for the spin
  lock, about to set the flag, about to take a mutex that became free, about to release the spin lock, about to
  queue up, queued), inside, or in the slow path of \<^verbatim>\<open>mutex_unlock\<close>.\<close>

datatype mutex_pc = MIdle | MSlow | MFlag | MTake | MTaken | MPark | MParked | MHeld
  | MUSlow | MPop | MFree | MWake nat

record mx =
  mx_m :: mutex
  mx_th :: "nat \<Rightarrow> uthread"
  mx_pc :: "nat \<Rightarrow> mutex_pc"

definition goes :: "nat \<Rightarrow> mutex_pc \<Rightarrow> mutex \<Rightarrow> mx \<Rightarrow> mx" where
  "goes t p m s = s\<lparr>mx_m := m, mx_pc := (mx_pc s)(t := p)\<rparr>"

text \<open>The next atomic action of thread \<open>t\<close>; what \<^verbatim>\<open>waiter_lock\<close> protects changes together with its
  release.\<close>

definition mutex_act :: "nat \<Rightarrow> u64 \<Rightarrow> mx \<Rightarrow> mx" where
  "mutex_act t now s =
     (let m = mx_m s
      in case mx_pc s t of
           MIdle \<Rightarrow> (let (ok, m) = atomic_cmpxchg 0 1 m in goes t (if ok then MHeld else MSlow) m s)
         | MSlow \<Rightarrow> goes t MFlag (m\<lparr>mu_waiter_lock := Some t\<rparr>) s
         | MFlag \<Rightarrow> (let (free, m) = flag_waiter m in goes t (if free then MTake else MPark) m s)
         | MTake \<Rightarrow> goes t MTaken (m\<lparr>mu_held := 1\<rparr>) s
         | MTaken \<Rightarrow> goes t MHeld (m\<lparr>mu_waiter_lock := None\<rparr>) s
         | MPark \<Rightarrow> (let (m, ths) = add_waiter t now m (mx_th s)
                    in goes t MParked (m\<lparr>mu_waiter_lock := None\<rparr>) (s\<lparr>mx_th := ths\<rparr>))
         | MParked \<Rightarrow> s
         | MHeld \<Rightarrow> (let (ok, m) = atomic_cmpxchg 1 0 m in goes t (if ok then MIdle else MUSlow) m s)
         | MUSlow \<Rightarrow> goes t MPop (m\<lparr>mu_waiter_lock := Some t\<rparr>) s
         | MPop \<Rightarrow> (case pop_waiter (mx_th s) m of
                      (None, m) \<Rightarrow> goes t MFree m s
                    | (Some w, m) \<Rightarrow> goes t (MWake w) (m\<lparr>mu_waiter_lock := None\<rparr>) s)
         | MFree \<Rightarrow> goes t MIdle (m\<lparr>mu_waiter_lock := None\<rparr>) s
         | MWake w \<Rightarrow> goes t MIdle m (goes w MHeld m (s\<lparr>mx_th := charge_delay now w (mx_th s)\<rparr>)))"

text \<open>The spin lock keeps a thread waiting while another one holds it; a parked thread waits to be woken.\<close>

definition mutex_can :: "nat \<Rightarrow> mx \<Rightarrow> bool" where
  "mutex_can t s \<longleftrightarrow>
     (case mx_pc s t of
        MSlow \<Rightarrow> mu_waiter_lock (mx_m s) = None
      | MUSlow \<Rightarrow> mu_waiter_lock (mx_m s) = None
      | MParked \<Rightarrow> False
      | _ \<Rightarrow> True)"

inductive mutex_run :: "mx \<Rightarrow> bool" where
  start: "mx_m s = mutex_init \<Longrightarrow> (\<forall>t. mx_pc s t = MIdle) \<Longrightarrow> mutex_run s"
| act: "mutex_run s \<Longrightarrow> mutex_can t s \<Longrightarrow> mutex_run (mutex_act t now s)"
| try_lock: "mutex_run s \<Longrightarrow> mx_pc s t = MIdle \<Longrightarrow> mutex_try_lock (mx_m s) = (ok, m) \<Longrightarrow>
    mutex_run (goes t (if ok then MHeld else MIdle) m s)"

section \<open>The invariant\<close>

fun owns :: "mutex_pc \<Rightarrow> bool" where
  "owns MTake = True" | "owns MTaken = True" | "owns MHeld = True" | "owns MUSlow = True"
| "owns MPop = True" | "owns (MWake w) = True" | "owns _ = False"

fun spins :: "mutex_pc \<Rightarrow> bool" where
  "spins MFlag = True" | "spins MTake = True" | "spins MTaken = True" | "spins MPark = True"
| "spins MPop = True" | "spins MFree = True" | "spins _ = False"

text \<open>At most one thread owns the mutex, and \<^verbatim>\<open>held\<close> tells whether one does.\<close>

definition own_ok :: "(nat \<Rightarrow> mutex_pc) \<Rightarrow> u32 \<Rightarrow> bool" where
  "own_ok pc h \<longleftrightarrow> (\<forall>t u. owns (pc t) \<longrightarrow> owns (pc u) \<longrightarrow> t = u) \<and> (h = 0 \<longleftrightarrow> (\<forall>t. \<not> owns (pc t)))"

definition spin_ok :: "(nat \<Rightarrow> mutex_pc) \<Rightarrow> nat option \<Rightarrow> bool" where
  "spin_ok pc l \<longleftrightarrow> (\<forall>t. l = Some t \<longleftrightarrow> spins (pc t))"

text \<open>While threads are queued or about to be, the flag is set.\<close>

definition flag_ok :: "(nat \<Rightarrow> mutex_pc) \<Rightarrow> u32 \<Rightarrow> nat list \<Rightarrow> bool" where
  "flag_ok pc h ws \<longleftrightarrow> (h = 1 \<or> h = 0 \<longrightarrow> ws = [] \<and> (\<forall>t. pc t \<noteq> MPark)) \<and>
     (\<forall>t. pc t = MTake \<or> pc t = MTaken \<longrightarrow> ws = [])"

text \<open>The parked threads are those in the queue and the one that is being woken.\<close>

definition park_ok :: "(nat \<Rightarrow> mutex_pc) \<Rightarrow> nat list \<Rightarrow> bool" where
  "park_ok pc ws \<longleftrightarrow> distinct ws \<and>
     (\<forall>t. pc t = MParked \<longleftrightarrow> t \<in> set ws \<or> (\<exists>u. pc u = MWake t)) \<and>
     (\<forall>t u. pc u = MWake t \<longrightarrow> t \<notin> set ws)"

definition minv :: "mx \<Rightarrow> bool" where
  "minv s \<longleftrightarrow> own_ok (mx_pc s) (mu_held (mx_m s)) \<and> spin_ok (mx_pc s) (mu_waiter_lock (mx_m s)) \<and>
     flag_ok (mx_pc s) (mu_held (mx_m s)) (mu_waiters (mx_m s)) \<and> park_ok (mx_pc s) (mu_waiters (mx_m s)) \<and>
     mu_oldest_tsc (mx_m s) = oldest_of (mu_waiters (mx_m s)) (mx_th s)"

lemma or_flag: "x OR WAITER_FLAG \<noteq> 0" "x OR WAITER_FLAG \<noteq> (1 :: u32)"
proof -
  have b: "bit (x OR WAITER_FLAG) 31" by (simp add: bit_or_iff WAITER_FLAG_def bit_push_bit_iff)
  show "x OR WAITER_FLAG \<noteq> 0" using b by auto
  show "x OR WAITER_FLAG \<noteq> 1" using b by (auto simp: bit_1_iff)
qed

lemma flag_nonzero: "WAITER_FLAG \<noteq> 0" "WAITER_FLAG \<noteq> 1"
  using or_flag [of 0] by simp_all

lemma own_alone: "own_ok pc h \<Longrightarrow> owns (pc t) \<Longrightarrow> owns (pc u) \<Longrightarrow> u = t"
  by (auto simp: own_ok_def)

lemma parked_iff: "park_ok pc ws \<Longrightarrow> t \<in> set ws \<or> pc u = MWake t \<Longrightarrow> pc t = MParked"
  by (auto simp: park_ok_def)

lemma own_same: "own_ok pc h \<Longrightarrow> owns p = owns (pc t) \<Longrightarrow> (h' = 0 \<longleftrightarrow> h = 0) \<Longrightarrow> own_ok (pc(t := p)) h'"
  by (auto simp: own_ok_def)

lemma own_take: "own_ok pc 0 \<Longrightarrow> owns p \<Longrightarrow> h' \<noteq> 0 \<Longrightarrow> own_ok (pc(t := p)) h'"
  by (auto simp: own_ok_def)

lemma own_drop: "own_ok pc h \<Longrightarrow> owns (pc t) \<Longrightarrow> \<not> owns p \<Longrightarrow> own_ok (pc(t := p)) 0"
  by (auto simp: own_ok_def)

lemma own_pass: "own_ok pc h \<Longrightarrow> owns (pc t) \<Longrightarrow> \<not> owns (pc w) \<Longrightarrow> owns p \<Longrightarrow> \<not> owns q \<Longrightarrow>
    own_ok (pc(w := p, t := q)) h"
  by (auto simp: own_ok_def)

lemma spin_same: "spin_ok pc l \<Longrightarrow> spins p = spins (pc t) \<Longrightarrow> spin_ok (pc(t := p)) l"
  by (auto simp: spin_ok_def)

lemma spin_take: "spin_ok pc None \<Longrightarrow> spins p \<Longrightarrow> spin_ok (pc(t := p)) (Some t)"
  by (auto simp: spin_ok_def)

lemma spin_drop: "spin_ok pc l \<Longrightarrow> spins (pc t) \<Longrightarrow> \<not> spins p \<Longrightarrow> spin_ok (pc(t := p)) None"
  by (auto simp: spin_ok_def) (metis option.inject)

lemma spin_alone: "spin_ok pc l \<Longrightarrow> spins (pc t) \<Longrightarrow> u \<noteq> t \<Longrightarrow> \<not> spins (pc u)"
  by (auto simp: spin_ok_def) (metis option.inject)

lemma flag_same: "flag_ok pc h ws \<Longrightarrow> p \<noteq> MPark \<Longrightarrow> p \<noteq> MTake \<Longrightarrow> p \<noteq> MTaken \<Longrightarrow> (h' = 1 \<or> h' = 0 \<longrightarrow> h = 1 \<or> h = 0) \<Longrightarrow>
    flag_ok (pc(t := p)) h' ws"
  by (auto simp: flag_ok_def)

lemma park_same: "park_ok pc ws \<Longrightarrow> p \<noteq> MParked \<Longrightarrow> pc t \<noteq> MParked \<Longrightarrow> (\<forall>w. p \<noteq> MWake w \<and> pc t \<noteq> MWake w) \<Longrightarrow>
    park_ok (pc(t := p)) ws"
  by (auto simp: park_ok_def)

lemma park_add:
  assumes p: "park_ok pc ws" and t: "pc t = MPark"
  shows "park_ok (pc(t := MParked)) (ws @ [t])"
proof -
  have n: "t \<notin> set ws" "\<And>u. pc u \<noteq> MWake t" using parked_iff [OF p, of t] t by auto
  have "(pc(t := MParked)) v = MWake u \<longleftrightarrow> pc v = MWake u" for u v using t by simp
  then show ?thesis using p n unfolding park_ok_def by (auto simp: fun_upd_def)
qed

lemma park_pop:
  assumes p: "park_ok pc (w # ws)" and t: "pc t = MPop" and n: "\<And>u v. pc u \<noteq> MWake v"
  shows "park_ok (pc(t := MWake w)) ws"
proof -
  have tn: "t \<notin> set (w # ws)" using parked_iff [OF p, of t] t by auto
  have "(pc(t := MWake w)) v = MWake u \<longleftrightarrow> v = t \<and> u = w" for u v using n by auto
  then show ?thesis using p n tn t unfolding park_ok_def by (auto simp: fun_upd_def)
qed

lemma park_wake:
  assumes p: "park_ok pc ws" and t: "pc t = MWake w" and n: "\<And>u v. pc u = MWake v \<longleftrightarrow> u = t \<and> v = w"
  shows "park_ok (pc(w := MHeld, t := MIdle)) ws"
proof -
  have tn: "t \<notin> set ws" "w \<notin> set ws" "t \<noteq> w" using parked_iff [OF p, of t] parked_iff [OF p, of w t] p t by (auto simp: park_ok_def)
  have "(pc(w := MHeld, t := MIdle)) v \<noteq> MWake u" for u v using n by simp
  then show ?thesis using p n tn t unfolding park_ok_def by (auto simp: fun_upd_def)
qed

lemma goes_simps [simp]: "mx_m (goes t p m s) = m" "mx_pc (goes t p m s) = (mx_pc s)(t := p)" "mx_th (goes t p m s) = mx_th s"
  by (simp_all add: goes_def)

lemma minvD:
  assumes "minv s" and "m = mx_m s" and "pc = mx_pc s"
  shows "own_ok pc (mu_held m)" "spin_ok pc (mu_waiter_lock m)" "flag_ok pc (mu_held m) (mu_waiters m)"
    "park_ok pc (mu_waiters m)" "mu_oldest_tsc m = oldest_of (mu_waiters m) (mx_th s)"
  using assms by (simp_all add: minv_def)

text \<open>Taking a mutex.\<close>

lemma lock_inv:
  assumes inv: "minv s" and can: "mutex_can t s" and at: "mx_pc s t = MIdle \<or> mx_pc s t = MSlow \<or> mx_pc s t = MFlag"
  shows "minv (mutex_act t now s)"
proof -
  define m where "m = mx_m s"
  define pc where "pc = mx_pc s"
  note own = minvD(1) [OF inv m_def pc_def] and spin = minvD(2) [OF inv m_def pc_def]
    and flag = minvD(3) [OF inv m_def pc_def] and park = minvD(4) [OF inv m_def pc_def]
    and old = minvD(5) [OF inv m_def pc_def]
  note act = mutex_act_def [of t now s, folded m_def pc_def, unfolded Let_def]
  from at [folded pc_def] show ?thesis
  proof (elim disjE)
    assume MIdle: "pc t = MIdle"
    show ?thesis
    proof (cases "mu_held m = 0")
      case True
      then have "mutex_act t now s = goes t MHeld (m\<lparr>mu_held := 1\<rparr>) s"
        using MIdle by (simp add: act atomic_cmpxchg_def)
      moreover have "own_ok (pc(t := MHeld)) 1" using own True by (intro own_take) simp_all
      moreover have "flag_ok (pc(t := MHeld)) 1 (mu_waiters m)" using flag True by (auto simp: flag_ok_def)
      ultimately show ?thesis
        using spin_same [OF spin, of MHeld t] park_same [OF park, of MHeld t] old MIdle by (simp add: minv_def pc_def)
    next
      case False
      then have "mutex_act t now s = goes t MSlow m s" using MIdle by (simp add: act atomic_cmpxchg_def)
      then show ?thesis using own_same [OF own, of MSlow t] spin_same [OF spin, of MSlow t] flag_same [OF flag, of MSlow]
          park_same [OF park, of MSlow t] old MIdle by (simp add: minv_def pc_def)
    qed
  next
    assume MSlow: "pc t = MSlow"
    then have l: "mu_waiter_lock m = None" using can by (simp add: mutex_can_def pc_def m_def)
    have "mutex_act t now s = goes t MFlag (m\<lparr>mu_waiter_lock := Some t\<rparr>) s" using MSlow by (simp add: act )
    then show ?thesis using own_same [OF own, of MFlag t] spin_take [of pc MFlag t] spin l flag_same [OF flag, of MFlag]
          park_same [OF park, of MFlag t] old MSlow by (simp add: minv_def pc_def)
  next
    assume MFlag: "pc t = MFlag"
    have alone: "pc u \<noteq> MTake" "pc u \<noteq> MTaken" "pc u \<noteq> MPark" if "u \<noteq> t" for u
      using spin_alone [OF spin _ that] MFlag by auto
    let ?m = "m\<lparr>mu_held := mu_held m OR WAITER_FLAG\<rparr>"
    show ?thesis
    proof (cases "mu_held m = 0")
      case True
      then have "mutex_act t now s = goes t MTake ?m s" using MFlag by (simp add: act flag_waiter_def)
      moreover have "own_ok (pc(t := MTake)) (mu_held m OR WAITER_FLAG)" using own True or_flag flag_nonzero by (intro own_take) simp_all
      moreover have "flag_ok (pc(t := MTake)) (mu_held m OR WAITER_FLAG) (mu_waiters m)"
        using flag or_flag flag_nonzero True by (simp add: flag_ok_def)
      ultimately show ?thesis
        using spin_same [OF spin, of MTake t] park_same [OF park, of MTake t] old MFlag by (simp add: minv_def pc_def)
    next
      case False
      then have "mutex_act t now s = goes t MPark ?m s" using MFlag by (simp add: act flag_waiter_def)
      moreover have "own_ok (pc(t := MPark)) (mu_held m OR WAITER_FLAG)"
        using False or_flag MFlag by (intro own_same [OF own]) simp_all
      moreover have "flag_ok (pc(t := MPark)) (mu_held m OR WAITER_FLAG) (mu_waiters m)"
        using flag or_flag alone by (auto simp: flag_ok_def)
      ultimately show ?thesis
        using spin_same [OF spin, of MPark t] park_same [OF park, of MPark t] old MFlag by (simp add: minv_def pc_def)
    qed
  qed
qed

text \<open>Taking a mutex that became free meanwhile.\<close>

lemma taken_inv:
  assumes inv: "minv s" and can: "mutex_can t s" and at: "mx_pc s t = MTake \<or> mx_pc s t = MTaken"
  shows "minv (mutex_act t now s)"
proof -
  define m where "m = mx_m s"
  define pc where "pc = mx_pc s"
  note own = minvD(1) [OF inv m_def pc_def] and spin = minvD(2) [OF inv m_def pc_def]
    and flag = minvD(3) [OF inv m_def pc_def] and park = minvD(4) [OF inv m_def pc_def]
    and old = minvD(5) [OF inv m_def pc_def]
  note act = mutex_act_def [of t now s, folded m_def pc_def, unfolded Let_def]
  from at [folded pc_def] show ?thesis
  proof (elim disjE)
    assume MTake: "pc t = MTake"
    have "mutex_act t now s = goes t MTaken (m\<lparr>mu_held := 1\<rparr>) s" using MTake by (simp add: act )
    moreover have alone: "pc u \<noteq> MPark" for u
      using spin_alone [OF spin, of t u] MTake by (cases "u = t") auto
    moreover have h: "mu_held m \<noteq> 0" using own MTake unfolding own_ok_def by (metis owns.simps(1))
    moreover have "own_ok (pc(t := MTaken)) 1" using MTake h by (intro own_same [OF own]) simp_all
    moreover have "flag_ok (pc(t := MTaken)) 1 (mu_waiters m)" using flag alone MTake by (auto simp: flag_ok_def)
    ultimately show ?thesis
      using spin_same [OF spin, of MTaken t] park_same [OF park, of MTaken t] old MTake by (simp add: minv_def pc_def)
  next
    assume MTaken: "pc t = MTaken"
    have "mutex_act t now s = goes t MHeld (m\<lparr>mu_waiter_lock := None\<rparr>) s" using MTaken by (simp add: act )
    then show ?thesis using own_same [OF own, of MHeld t] spin_drop [OF spin, of t MHeld] flag_same [OF flag, of MHeld]
          park_same [OF park, of MHeld t] old MTaken by (simp add: minv_def pc_def)
  qed
qed

text \<open>Queueing up.\<close>

lemma park_inv:
  assumes inv: "minv s" and can: "mutex_can t s" and at: "mx_pc s t = MPark"
  shows "minv (mutex_act t now s)"
proof -
  define m where "m = mx_m s"
  define pc where "pc = mx_pc s"
  note own = minvD(1) [OF inv m_def pc_def] and spin = minvD(2) [OF inv m_def pc_def]
    and flag = minvD(3) [OF inv m_def pc_def] and park = minvD(4) [OF inv m_def pc_def]
    and old = minvD(5) [OF inv m_def pc_def]
  note act = mutex_act_def [of t now s, folded m_def pc_def, unfolded Let_def]
  have MPark: "pc t = MPark" using at by (simp add: pc_def)
  have h: "mu_held m \<noteq> 0" "mu_held m \<noteq> 1" using flag MPark by (auto simp: flag_ok_def)
  have alone: "pc u \<noteq> MTake" "pc u \<noteq> MTaken" "u \<noteq> t \<Longrightarrow> pc u \<noteq> MPark" for u
    using spin_alone [OF spin, of t u] MPark by (cases "u = t"; auto)+
  have new: "t \<notin> set (mu_waiters m)" "\<And>u. pc u \<noteq> MWake t" using parked_iff [OF park, of t] MPark by auto
  let ?ths = "(mx_th s)(t := (mx_th s t)\<lparr>th_ready_tsc := now, th_enque_ts := now\<rparr>)"
  let ?o = "if mu_waiters m = [] then now else mu_oldest_tsc m"
  have "mutex_act t now s = goes t MParked (m\<lparr>mu_waiters := mu_waiters m @ [t], mu_oldest_tsc := ?o, mu_waiter_lock := None\<rparr>)
      (s\<lparr>mx_th := ?ths\<rparr>)"
    using MPark by (simp add: act add_waiter_def  Let_def)
  moreover have "park_ok (pc(t := MParked)) (mu_waiters m @ [t])"
    using park_add [OF park MPark] .
  moreover have "flag_ok (pc(t := MParked)) (mu_held m) (mu_waiters m @ [t])"
    using h alone by (auto simp: flag_ok_def)
  moreover have "?o = oldest_of (mu_waiters m @ [t]) ?ths"
    using old new(1) by (auto simp: oldest_of_def split: list.splits)
  ultimately show ?thesis
    using own_same [OF own, of MParked t] spin_drop [OF spin, of t MParked] MPark by (simp add: minv_def pc_def goes_def)
qed

text \<open>Releasing a mutex nobody waits for, up to the look at the queue.\<close>

lemma release_inv:
  assumes inv: "minv s" and can: "mutex_can t s" and at: "mx_pc s t = MHeld \<or> mx_pc s t = MUSlow \<or> mx_pc s t = MFree"
  shows "minv (mutex_act t now s)"
proof -
  define m where "m = mx_m s"
  define pc where "pc = mx_pc s"
  note own = minvD(1) [OF inv m_def pc_def] and spin = minvD(2) [OF inv m_def pc_def]
    and flag = minvD(3) [OF inv m_def pc_def] and park = minvD(4) [OF inv m_def pc_def]
    and old = minvD(5) [OF inv m_def pc_def]
  note act = mutex_act_def [of t now s, folded m_def pc_def, unfolded Let_def]
  from at [folded pc_def] show ?thesis
  proof (elim disjE)
    assume MHeld: "pc t = MHeld"
    show ?thesis
    proof (cases "mu_held m = 1")
      case True
      then have "mutex_act t now s = goes t MIdle (m\<lparr>mu_held := 0\<rparr>) s"
        using MHeld by (simp add: act atomic_cmpxchg_def)
      moreover have "own_ok (pc(t := MIdle)) 0" using MHeld by (intro own_drop [OF own]) simp_all
      moreover have "flag_ok (pc(t := MIdle)) 0 (mu_waiters m)" using flag True by (auto simp: flag_ok_def)
      ultimately show ?thesis
        using spin_same [OF spin, of MIdle t] park_same [OF park, of MIdle t] old MHeld by (simp add: minv_def pc_def)
    next
      case False
      then have "mutex_act t now s = goes t MUSlow m s" using MHeld by (simp add: act atomic_cmpxchg_def)
      then show ?thesis using own_same [OF own, of MUSlow t] spin_same [OF spin, of MUSlow t] flag_same [OF flag, of MUSlow]
          park_same [OF park, of MUSlow t] old MHeld by (simp add: minv_def pc_def)
    qed
  next
    assume MUSlow: "pc t = MUSlow"
    then have l: "mu_waiter_lock m = None" using can by (simp add: mutex_can_def pc_def m_def)
    have "mutex_act t now s = goes t MPop (m\<lparr>mu_waiter_lock := Some t\<rparr>) s" using MUSlow by (simp add: act )
    then show ?thesis using own_same [OF own, of MPop t] spin_take [of pc MPop t] spin l flag_same [OF flag, of MPop]
          park_same [OF park, of MPop t] old MUSlow by (simp add: minv_def pc_def)
  next
    assume MFree: "pc t = MFree"
    have "mutex_act t now s = goes t MIdle (m\<lparr>mu_waiter_lock := None\<rparr>) s" using MFree by (simp add: act )
    then show ?thesis using own_same [OF own, of MIdle t] spin_drop [OF spin, of t MIdle] flag_same [OF flag, of MIdle]
          park_same [OF park, of MIdle t] old MFree by (simp add: minv_def pc_def)
  qed
qed

text \<open>The look at the queue.\<close>

lemma pop_inv:
  assumes inv: "minv s" and can: "mutex_can t s" and at: "mx_pc s t = MPop"
  shows "minv (mutex_act t now s)"
proof -
  define m where "m = mx_m s"
  define pc where "pc = mx_pc s"
  note own = minvD(1) [OF inv m_def pc_def] and spin = minvD(2) [OF inv m_def pc_def]
    and flag = minvD(3) [OF inv m_def pc_def] and park = minvD(4) [OF inv m_def pc_def]
    and old = minvD(5) [OF inv m_def pc_def]
  note act = mutex_act_def [of t now s, folded m_def pc_def, unfolded Let_def]
  have MPop: "pc t = MPop" using at by (simp add: pc_def)
  have alone: "pc u \<noteq> MTake" "pc u \<noteq> MTaken" "pc u \<noteq> MPark" for u
    using spin_alone [OF spin, of t u] MPop by (cases "u = t"; auto)+
  have h: "mu_held m \<noteq> 0" using own MPop unfolding own_ok_def by (metis owns.simps(5))
  show ?thesis
  proof (cases "mu_waiters m")
    case Nil
    then have "mutex_act t now s = goes t MFree (m\<lparr>mu_held := 0\<rparr>) s"
      using MPop by (simp add: act pop_waiter_def)
    moreover have "own_ok (pc(t := MFree)) 0" using MPop by (intro own_drop [OF own]) simp_all
    moreover have "flag_ok (pc(t := MFree)) 0 (mu_waiters m)" using alone Nil by (simp add: flag_ok_def)
    ultimately show ?thesis
      using spin_same [OF spin, of MFree t] park_same [OF park, of MFree t] old MPop by (simp add: minv_def pc_def)
  next
    case (Cons w ws)
    then have "mutex_act t now s = goes t (MWake w) (m\<lparr>mu_waiters := ws, mu_oldest_tsc := oldest_of ws (mx_th s), mu_waiter_lock := None\<rparr>) s"
      using MPop by (simp add: act pop_waiter_def)
    moreover have h1: "mu_held m \<noteq> 1" using flag Cons by (auto simp: flag_ok_def)
    moreover have "flag_ok (pc(t := MWake w)) (mu_held m) ws" using h h1 alone by (simp add: flag_ok_def)
    moreover have "park_ok (pc(t := MWake w)) ws"
    proof -
      have "pc u \<noteq> MWake v" for u v using own_alone [OF own, of t u] MPop by auto
      then show ?thesis using park_pop [of pc w ws t] park Cons MPop by simp
    qed
    ultimately show ?thesis
      using own_same [OF own, of "MWake w" t] spin_drop [OF spin, of t "MWake w"] MPop by (simp add: minv_def pc_def)
  qed
qed

text \<open>Handing the mutex over.\<close>

lemma wake_inv:
  assumes inv: "minv s" and can: "mutex_can t s" and at: "mx_pc s t = MWake w"
  shows "minv (mutex_act t now s)"
proof -
  define m where "m = mx_m s"
  define pc where "pc = mx_pc s"
  note own = minvD(1) [OF inv m_def pc_def] and spin = minvD(2) [OF inv m_def pc_def]
    and flag = minvD(3) [OF inv m_def pc_def] and park = minvD(4) [OF inv m_def pc_def]
    and old = minvD(5) [OF inv m_def pc_def]
  note act = mutex_act_def [of t now s, folded m_def pc_def, unfolded Let_def]
  have MWake: "pc t = MWake w" using at by (simp add: pc_def)
  have w: "pc w = MParked" "w \<notin> set (mu_waiters m)" using park MWake by (auto simp: park_ok_def)
  have only: "pc u = MWake v \<longleftrightarrow> u = t \<and> v = w" for u v
    using own_alone [OF own, of t u] MWake by auto
  have "mutex_act t now s = goes t MIdle m (goes w MHeld m (s\<lparr>mx_th := charge_delay now w (mx_th s)\<rparr>))"
    using MWake by (simp add: act )
  moreover have "park_ok (pc(w := MHeld, t := MIdle)) (mu_waiters m)"
    using park_wake [OF park MWake only] .
  moreover have "own_ok (pc(w := MHeld, t := MIdle)) (mu_held m)" using MWake w by (intro own_pass [OF own]) simp_all
  moreover have "spin_ok (pc(w := MHeld, t := MIdle)) (mu_waiter_lock m)"
    using w MWake by (intro spin_same [OF spin_same [OF spin]]) auto
  moreover have "flag_ok (pc(w := MHeld, t := MIdle)) (mu_held m) (mu_waiters m)"
    using flag by (auto simp: flag_ok_def)
  moreover have "oldest_of (mu_waiters m) (charge_delay now w (mx_th s)) = oldest_of (mu_waiters m) (mx_th s)"
    using w(2) by (auto simp: oldest_of_def charge_delay_def split: list.splits)
  ultimately show ?thesis using old by (simp add: minv_def pc_def goes_def)
qed

lemma mutex_act_inv:
  assumes "minv s" and "mutex_can t s"
  shows "minv (mutex_act t now s)"
  using lock_inv [OF assms] taken_inv [OF assms] park_inv [OF assms] release_inv [OF assms] pop_inv [OF assms]
    wake_inv [OF assms] assms
  by (cases "mx_pc s t") (auto simp: mutex_can_def)

lemma mutex_run_inv: "mutex_run s \<Longrightarrow> minv s"
proof (induction rule: mutex_run.induct)
  case (start s)
  then show ?case
    by (simp add: minv_def mutex_init_def own_ok_def spin_ok_def flag_ok_def park_ok_def oldest_of_def)
next
  case (act s t now)
  then show ?case by (intro mutex_act_inv)
next
  case (try_lock s t ok m)
  show ?case
  proof (cases "mu_held (mx_m s) = 0")
    case True
    then have "mutex_act t now s = goes t (if ok then MHeld else MIdle) m s" for now
      using try_lock by (auto simp: mutex_act_def mutex_try_lock_def atomic_cmpxchg_def Let_def)
    then show ?thesis using mutex_act_inv [OF try_lock.IH, of t] try_lock.hyps by (simp add: mutex_can_def)
  next
    case False
    then have "\<not> ok" "m = mx_m s" using try_lock.hyps by (auto simp: mutex_try_lock_def atomic_cmpxchg_def)
    then have "goes t (if ok then MHeld else MIdle) m s = s"
      using try_lock.hyps fun_upd_idem [of "mx_pc s" t MIdle] by (simp add: goes_def)
    then show ?thesis using try_lock.IH by simp
  qed
qed

section \<open>What the mutex guarantees\<close>

text \<open>C32. Mutual exclusion: however the atomic actions of any number of threads interleave, at most one thread is
  between its lock and its unlock.\<close>

theorem mutex_exclusion:
  assumes "mutex_run s" and "mx_pc s t = MHeld" and "mx_pc s u = MHeld"
  shows "t = u"
  using own_alone [of "mx_pc s" "mu_held (mx_m s)" u t] mutex_run_inv [OF assms(1)] assms(2,3) by (simp add: minv_def)

definition idle_mx :: mx where
  "idle_mx = \<lparr>mx_m = mutex_init, mx_th = (\<lambda>_. \<lparr>th_ready_tsc = 0, th_enque_ts = 0, th_acc_qdel = 0\<rparr>), mx_pc = (\<lambda>_. MIdle)\<rparr>"

lemma idle_run: "mutex_run idle_mx"
  by (rule mutex_run.start) (simp_all add: idle_mx_def)

text \<open>Thread 1 takes the mutex and thread 2 queues up.\<close>

definition busy_mx :: mx where
  "busy_mx = mutex_act 2 9 (mutex_act 2 0 (mutex_act 2 0 (mutex_act 2 0 (mutex_act 1 0 idle_mx))))"

lemmas busy_defs = busy_mx_def mutex_act_def idle_mx_def mutex_init_def goes_def atomic_cmpxchg_def flag_waiter_def
  add_waiter_def Let_def

lemma busy_run: "mutex_run busy_mx"
  unfolding busy_mx_def
  by (intro mutex_run.act idle_run) (simp_all add: busy_defs mutex_can_def)

lemma busy_mx: "mx_pc busy_mx 1 = MHeld" "mx_pc busy_mx 2 = MParked" "mu_waiters (mx_m busy_mx) = [2]"
    "mu_oldest_tsc (mx_m busy_mx) = 9"
  by (simp_all add: busy_defs)

theorem mutex_exclusion_witness: "{t. mx_pc busy_mx t = MHeld} = {1}"
proof (intro equalityI subsetI)
  fix t assume "t \<in> {t. mx_pc busy_mx t = MHeld}"
  then have "t = 1" by (intro mutex_exclusion [OF busy_run _ busy_mx(1)]) simp
  then show "t \<in> {1}" by simp
qed (use busy_mx(1) in simp)

text \<open>C33. No thread waits for a mutex that is free, and none is forgotten: the parked threads are those in the
  queue and, while it happens, the one that is being woken; they wait only while some thread owns the
  mutex; and the recorded age of the queue is that of the thread at its head.\<close>

theorem mutex_no_lost_waiter:
  assumes "mutex_run s"
  shows "(\<forall>t. mx_pc s t = MParked \<longrightarrow> (\<exists>u. owns (mx_pc s u)) \<and>
      (t \<in> set (mu_waiters (mx_m s)) \<or> (\<exists>u. mx_pc s u = MWake t))) \<and>
    (mu_held (mx_m s) = 0 \<longrightarrow> mu_waiters (mx_m s) = []) \<and> distinct (mu_waiters (mx_m s)) \<and>
    mu_oldest_tsc (mx_m s) =
      (case mu_waiters (mx_m s) of [] \<Rightarrow> - 1 | w # _ \<Rightarrow> th_ready_tsc (mx_th s w))"
proof -
  have inv: "own_ok (mx_pc s) (mu_held (mx_m s))" "flag_ok (mx_pc s) (mu_held (mx_m s)) (mu_waiters (mx_m s))"
    "park_ok (mx_pc s) (mu_waiters (mx_m s))" "mu_oldest_tsc (mx_m s) = oldest_of (mu_waiters (mx_m s)) (mx_th s)"
    using mutex_run_inv [OF assms] by (simp_all add: minv_def)
  have "\<exists>u. owns (mx_pc s u)" if p: "mx_pc s t = MParked" for t
  proof (cases "\<exists>u. mx_pc s u = MWake t")
    case True
    then show ?thesis by (metis owns.simps(6))
  next
    case False
    then have "t \<in> set (mu_waiters (mx_m s))" using inv(3) p by (auto simp: park_ok_def)
    then have "mu_held (mx_m s) \<noteq> 0" using inv(2) by (auto simp: flag_ok_def)
    then show ?thesis using inv(1) by (auto simp: own_ok_def)
  qed
  then show ?thesis using inv by (auto simp: park_ok_def flag_ok_def oldest_of_def)
qed

theorem mutex_no_lost_waiter_witness:
  "2 \<in> set (mu_waiters (mx_m busy_mx)) \<or> (\<exists>u. mx_pc busy_mx u = MWake 2)"
  using mutex_no_lost_waiter [OF busy_run] busy_mx(2) by blast

text \<open>An unlock hands the mutex to the thread that has waited longest: with the spin lock free, four actions
  of an owner whose release finds the flag set make the head of the queue the owner, and charge it with the
  time it has waited.\<close>

lemma mutex_hand_over:
  assumes "mutex_run s" and "mx_pc s t = MHeld" and "mu_waiters (mx_m s) = w # ws" and "mu_waiter_lock (mx_m s) = None"
    and "s' = mutex_act t now (mutex_act t c3 (mutex_act t c2 (mutex_act t c1 s)))"
  shows "mutex_run s' \<and> mx_pc s' w = MHeld \<and> mx_pc s' t = MIdle \<and> mu_waiters (mx_m s') = ws \<and>
    th_acc_qdel (mx_th s' w) = th_acc_qdel (mx_th s w) + (now - th_enque_ts (mx_th s w))"
proof -
  have inv: "flag_ok (mx_pc s) (mu_held (mx_m s)) (mu_waiters (mx_m s))" "park_ok (mx_pc s) (mu_waiters (mx_m s))"
    using mutex_run_inv [OF assms(1)] by (simp_all add: minv_def)
  have h: "mu_held (mx_m s) \<noteq> 1" using inv(1) assms(3) by (auto simp: flag_ok_def)
  have wt: "w \<noteq> t" using parked_iff [OF inv(2), of w] assms(2,3) by auto
  define s1 where "s1 = mutex_act t c1 s"
  define s2 where "s2 = mutex_act t c2 s1"
  define s3 where "s3 = mutex_act t c3 s2"
  have s1: "s1 = goes t MUSlow (mx_m s) s" using assms(2) h by (simp add: s1_def mutex_act_def atomic_cmpxchg_def Let_def)
  have s2: "s2 = goes t MPop ((mx_m s)\<lparr>mu_waiter_lock := Some t\<rparr>) s"
    by (simp add: s2_def mutex_act_def s1 Let_def goes_def)
  have s3: "s3 = goes t (MWake w) ((mx_m s)\<lparr>mu_waiters := ws, mu_oldest_tsc := oldest_of ws (mx_th s), mu_waiter_lock := None\<rparr>) s"
    using assms(3) by (simp add: s3_def mutex_act_def s2 Let_def pop_waiter_def goes_def)
  have s': "s' = goes t MIdle (mx_m s3) (goes w MHeld (mx_m s3) (s3\<lparr>mx_th := charge_delay now w (mx_th s3)\<rparr>))"
    unfolding assms(5) s1_def [symmetric] s2_def [symmetric] s3_def [symmetric]
    by (simp add: mutex_act_def s3 Let_def)
  have "mutex_can t s" "mutex_can t s1" "mutex_can t s2" "mutex_can t s3"
    using assms(2,4) by (simp_all add: mutex_can_def s1 s2 s3)
  then have "mutex_run s'"
    unfolding assms(5) s1_def [symmetric] s2_def [symmetric] s3_def [symmetric]
    using assms(1) by (metis mutex_run.act s1_def s2_def s3_def)
  moreover have "mx_th s3 = mx_th s" by (simp add: s3)
  ultimately show ?thesis using wt by (simp add: s' charge_delay_def s3)
qed

end
