(* ===== verification/Sync.thy ===== *)
theory Sync
  imports Mutex Pcc_State
begin

text \<open>
  The other synchronization primitives of \<^verbatim>\<open>runtime/sync.c\<close>: read-write mutexes, wait groups,
  barriers, semaphores and condition variables, and the congestion-aware locks of
  \<^verbatim>\<open>breakwater/src/sync.c\<close>.  Each function runs under its object's spin lock and is one step;
  a function that may park returns whether the caller goes on.  Queues are sequences of threads
  (\<^verbatim>\<open>List_Head\<close> proves the linked lists to be such sequences).
\<close>

section \<open>Read-write mutexes\<close>

record rwmutex =
  rw_count :: int
  rw_read_waiters :: "nat list"
  rw_write_waiters :: "nat list"
  rw_read_waiter_count :: int

definition rwmutex_init :: rwmutex where
  "rwmutex_init = \<lparr>rw_count = 0, rw_read_waiters = [], rw_write_waiters = [], rw_read_waiter_count = 0\<rparr>"

definition rwmutex_held :: "rwmutex \<Rightarrow> bool" where
  "rwmutex_held m \<longleftrightarrow> rw_count m \<noteq> 0"

definition rwmutex_rdlock :: "nat \<Rightarrow> rwmutex \<Rightarrow> bool \<times> rwmutex" where
  "rwmutex_rdlock t m =
     (if rw_count m \<ge> 0 then (True, m\<lparr>rw_count := rw_count m + 1\<rparr>)
      else (False, m\<lparr>rw_read_waiter_count := rw_read_waiter_count m + 1,
                     rw_read_waiters := rw_read_waiters m @ [t]\<rparr>))"

definition rwmutex_try_rdlock :: "rwmutex \<Rightarrow> bool \<times> rwmutex" where
  "rwmutex_try_rdlock m =
     (if rw_count m \<ge> 0 then (True, m\<lparr>rw_count := rw_count m + 1\<rparr>) else (False, m))"

definition rwmutex_wrlock :: "nat \<Rightarrow> rwmutex \<Rightarrow> bool \<times> rwmutex" where
  "rwmutex_wrlock t m =
     (if rw_count m = 0 then (True, m\<lparr>rw_count := -1\<rparr>)
      else (False, m\<lparr>rw_write_waiters := rw_write_waiters m @ [t]\<rparr>))"

definition rwmutex_try_wrlock :: "rwmutex \<Rightarrow> bool \<times> rwmutex" where
  "rwmutex_try_wrlock m =
     (if rw_count m = 0 then (True, m\<lparr>rw_count := -1\<rparr>) else (False, m))"

text \<open>The threads made ready, as readers or as the writer.\<close>

datatype rw_wake = WakeReaders "nat list" | WakeWriter nat | WakeNone

definition rwmutex_unlock :: "rwmutex \<Rightarrow> rw_wake \<times> rwmutex" where
  "rwmutex_unlock m =
     (let m = m\<lparr>rw_count := (if rw_count m < 0 then 0 else rw_count m - 1)\<rparr>
      in if rw_count m = 0 \<and> rw_read_waiter_count m > 0
         then (WakeReaders (rw_read_waiters m),
               m\<lparr>rw_count := rw_read_waiter_count m, rw_read_waiter_count := 0, rw_read_waiters := []\<rparr>)
         else if rw_count m = 0
         then (case rw_write_waiters m of
                 [] \<Rightarrow> (WakeNone, m)
               | th # ths \<Rightarrow> (WakeWriter th, m\<lparr>rw_write_waiters := ths, rw_count := -1\<rparr>))
         else (WakeNone, m))"

datatype rw_pc = RwOut | RwReading | RwWriting | RwReadWait | RwWriteWait

type_synonym rw_threads = "nat \<Rightarrow> rw_pc"

fun rw_woken :: "rw_wake \<Rightarrow> rw_threads \<Rightarrow> rw_threads" where
  "rw_woken (WakeReaders ts) pc = (\<lambda>t. if t \<in> set ts then RwReading else pc t)"
| "rw_woken (WakeWriter t) pc = pc(t := RwWriting)"
| "rw_woken WakeNone pc = pc"

inductive rw_run :: "rwmutex \<Rightarrow> rw_threads \<Rightarrow> bool" where
  start: "rw_run rwmutex_init (\<lambda>_. RwOut)"
| rdlock: "rw_run m pc \<Longrightarrow> pc t = RwOut \<Longrightarrow> rwmutex_rdlock t m = (ok, m') \<Longrightarrow>
    rw_run m' (pc(t := if ok then RwReading else RwReadWait))"
| try_rdlock: "rw_run m pc \<Longrightarrow> pc t = RwOut \<Longrightarrow> rwmutex_try_rdlock m = (ok, m') \<Longrightarrow>
    rw_run m' (pc(t := if ok then RwReading else RwOut))"
| wrlock: "rw_run m pc \<Longrightarrow> pc t = RwOut \<Longrightarrow> rwmutex_wrlock t m = (ok, m') \<Longrightarrow>
    rw_run m' (pc(t := if ok then RwWriting else RwWriteWait))"
| try_wrlock: "rw_run m pc \<Longrightarrow> pc t = RwOut \<Longrightarrow> rwmutex_try_wrlock m = (ok, m') \<Longrightarrow>
    rw_run m' (pc(t := if ok then RwWriting else RwOut))"
| unlock: "rw_run m pc \<Longrightarrow> pc t = RwReading \<or> pc t = RwWriting \<Longrightarrow> rwmutex_unlock m = (wk, m') \<Longrightarrow>
    rw_run m' (rw_woken wk (pc(t := RwOut)))"

text \<open>The threads at a position.\<close>

definition threads_at :: "rw_pc \<Rightarrow> rw_threads \<Rightarrow> nat set" where
  "threads_at p pc = {t. pc t = p}"

lemma at_upd: "threads_at p (pc(x := a)) = (if a = p then insert x (threads_at p pc) else threads_at p pc - {x})"
  by (auto simp: threads_at_def)

lemma at_woken: "threads_at p (rw_woken (WakeReaders ts) pc) =
    (if p = RwReading then threads_at p pc \<union> set ts else threads_at p pc - set ts)"
  by (auto simp: threads_at_def)

lemma at_disjoint: "p \<noteq> q \<Longrightarrow> threads_at p pc - threads_at q pc = threads_at p pc"
  by (auto simp: threads_at_def)

text \<open>Writers exclude everybody, and \<^verbatim>\<open>count\<close> counts the readers.\<close>

definition rw_own :: "int \<Rightarrow> nat set \<Rightarrow> nat set \<Rightarrow> bool" where
  "rw_own c R W \<longleftrightarrow> (c = -1 \<and> R = {} \<and> (\<exists>w. W = {w})) \<or> (W = {} \<and> finite R \<and> c = int (card R))"

definition rw_inv :: "rwmutex \<Rightarrow> rw_threads \<Rightarrow> bool" where
  "rw_inv m pc \<longleftrightarrow>
     rw_own (rw_count m) (threads_at RwReading pc) (threads_at RwWriting pc) \<and>
     distinct (rw_read_waiters m) \<and> set (rw_read_waiters m) = threads_at RwReadWait pc \<and>
     distinct (rw_write_waiters m) \<and> set (rw_write_waiters m) = threads_at RwWriteWait pc \<and>
     rw_read_waiter_count m = int (length (rw_read_waiters m)) \<and>
     (rw_read_waiters m \<noteq> [] \<longrightarrow> rw_count m < 0) \<and> (rw_write_waiters m \<noteq> [] \<longrightarrow> rw_count m \<noteq> 0)"

lemma rw_own_read: "rw_own c R W \<Longrightarrow> 0 \<le> c \<Longrightarrow> t \<notin> R \<Longrightarrow> rw_own (c + 1) (insert t R) W"
  by (auto simp: rw_own_def)

lemma rw_own_write: "rw_own 0 R W \<Longrightarrow> rw_own (-1) R {t}"
  by (auto simp: rw_own_def)

lemma rw_own_free: "rw_own 0 R W \<Longrightarrow> R = {} \<and> W = {}"
  by (auto simp: rw_own_def)

lemma not_at: "pc t = p \<Longrightarrow> p \<noteq> q \<Longrightarrow> threads_at q pc - {t} = threads_at q pc" "pc t = p \<Longrightarrow> p \<noteq> q \<Longrightarrow> t \<notin> threads_at q pc"
  by (auto simp: threads_at_def)

lemma rw_read_inv:
  assumes inv: "rw_inv m pc" and t: "pc t = RwOut" and r: "rwmutex_rdlock t m = (ok, m')"
  shows "rw_inv m' (pc(t := if ok then RwReading else RwReadWait))"
proof (cases "rw_count m \<ge> 0")
  case True
  then have "ok" "m' = m\<lparr>rw_count := rw_count m + 1\<rparr>" using r by (auto simp: rwmutex_rdlock_def)
  then show ?thesis using inv True rw_own_read [of "rw_count m" "threads_at RwReading pc" "threads_at RwWriting pc" t]
    by (auto simp: rw_inv_def at_upd not_at [where pc = pc and t = t, OF t])
next
  case False
  then have "\<not> ok" "m' = m\<lparr>rw_read_waiter_count := rw_read_waiter_count m + 1, rw_read_waiters := rw_read_waiters m @ [t]\<rparr>"
    using r by (auto simp: rwmutex_rdlock_def)
  then show ?thesis using inv False by (simp add: rw_inv_def at_upd not_at [where pc = pc and t = t, OF t])
qed

lemma rw_write_inv:
  assumes inv: "rw_inv m pc" and t: "pc t = RwOut" and r: "rwmutex_wrlock t m = (ok, m')"
  shows "rw_inv m' (pc(t := if ok then RwWriting else RwWriteWait))"
proof (cases "rw_count m = 0")
  case True
  then have "ok" "m' = m\<lparr>rw_count := -1\<rparr>" using r by (auto simp: rwmutex_wrlock_def)
  moreover have "rw_own 0 (threads_at RwReading pc) (threads_at RwWriting pc)" using inv True by (simp add: rw_inv_def)
  ultimately show ?thesis using inv True rw_own_write [of "threads_at RwReading pc" "threads_at RwWriting pc" t]
      rw_own_free [of "threads_at RwReading pc" "threads_at RwWriting pc"]
    by (auto simp: rw_inv_def at_upd not_at [where pc = pc and t = t, OF t])
next
  case False
  then have "\<not> ok" "m' = m\<lparr>rw_write_waiters := rw_write_waiters m @ [t]\<rparr>"
    using r by (auto simp: rwmutex_wrlock_def)
  then show ?thesis using inv False by (simp add: rw_inv_def at_upd not_at [where pc = pc and t = t, OF t])
qed

lemma rw_try_inv:
  assumes inv: "rw_inv m pc" and t: "pc t = RwOut"
  shows "rwmutex_try_rdlock m = (ok, m') \<Longrightarrow> rw_inv m' (pc(t := if ok then RwReading else RwOut))"
    and "rwmutex_try_wrlock m = (ok, m') \<Longrightarrow> rw_inv m' (pc(t := if ok then RwWriting else RwOut))"
proof -
  have same: "pc(t := RwOut) = pc" using t by auto
  show "rw_inv m' (pc(t := if ok then RwReading else RwOut))" if "rwmutex_try_rdlock m = (ok, m')"
    using rw_read_inv [OF inv t, of ok m'] that inv same
    by (cases "rw_count m \<ge> 0") (auto simp: rwmutex_try_rdlock_def rwmutex_rdlock_def)
  show "rw_inv m' (pc(t := if ok then RwWriting else RwOut))" if "rwmutex_try_wrlock m = (ok, m')"
    using rw_write_inv [OF inv t, of ok m'] that inv same
    by (cases "rw_count m = 0") (auto simp: rwmutex_try_wrlock_def rwmutex_wrlock_def)
qed

text \<open>The count after the holder \<open>t\<close> has left.\<close>

lemma rw_own_leave:
  assumes own: "rw_own c (threads_at RwReading pc) (threads_at RwWriting pc)" and t: "pc t = RwReading \<or> pc t = RwWriting"
    and c': "c' = (if c < 0 then 0 else c - 1)"
  shows "rw_own c' (threads_at RwReading (pc(t := RwOut))) (threads_at RwWriting (pc(t := RwOut)))" and "0 \<le> c'"
proof -
  from own consider (w) w where "c = -1" "threads_at RwReading pc = {}" "threads_at RwWriting pc = {w}"
    | (r) "threads_at RwWriting pc = {}" "finite (threads_at RwReading pc)" "c = int (card (threads_at RwReading pc))"
    by (auto simp: rw_own_def)
  then have "rw_own c' (threads_at RwReading (pc(t := RwOut))) (threads_at RwWriting (pc(t := RwOut))) \<and> 0 \<le> c'"
  proof cases
    case w
    then have "t = w" using t by (auto simp: threads_at_def)
    then show ?thesis using w c' by (simp add: rw_own_def at_upd)
  next
    case r
    then have tr: "t \<in> threads_at RwReading pc" using t by (auto simp: threads_at_def)
    then have "0 < card (threads_at RwReading pc)" using r by (simp add: card_gt_0_iff) blast
    moreover have "card (threads_at RwReading pc - {t}) = card (threads_at RwReading pc) - 1" using tr by simp
    ultimately show ?thesis using r c' by (simp add: rw_own_def at_upd)
  qed
  then show "rw_own c' (threads_at RwReading (pc(t := RwOut))) (threads_at RwWriting (pc(t := RwOut)))" and "0 \<le> c'" by auto
qed

lemma rw_unlock_inv:
  assumes inv: "rw_inv m pc" and t: "pc t = RwReading \<or> pc t = RwWriting" and u: "rwmutex_unlock m = (wk, m')"
  shows "rw_inv m' (rw_woken wk (pc(t := RwOut)))"
proof -
  define c where "c = (if rw_count m < 0 then 0 else rw_count m - 1)"
  define pc1 where "pc1 = pc(t := RwOut)"
  have own: "rw_own (rw_count m) (threads_at RwReading pc) (threads_at RwWriting pc)" using inv by (simp add: rw_inv_def)
  note O = rw_own_leave [OF own t c_def, folded pc1_def]
  have wr: "set (rw_read_waiters m) = threads_at RwReadWait pc1" "set (rw_write_waiters m) = threads_at RwWriteWait pc1"
    using inv t by (auto simp: rw_inv_def threads_at_def pc1_def)
  have d: "distinct (rw_read_waiters m)" "distinct (rw_write_waiters m)" "rw_read_waiter_count m = int (length (rw_read_waiters m))"
    using inv by (simp_all add: rw_inv_def)
  have un: "(wk, m') = (if c = 0 \<and> rw_read_waiter_count m > 0
         then (WakeReaders (rw_read_waiters m),
               m\<lparr>rw_count := rw_read_waiter_count m, rw_read_waiter_count := 0, rw_read_waiters := []\<rparr>)
         else if c = 0
         then (case rw_write_waiters m of
                 [] \<Rightarrow> (WakeNone, m\<lparr>rw_count := c\<rparr>)
               | th # ths \<Rightarrow> (WakeWriter th, m\<lparr>rw_write_waiters := ths, rw_count := -1\<rparr>))
         else (WakeNone, m\<lparr>rw_count := c\<rparr>))"
    using u [symmetric] unfolding rwmutex_unlock_def Let_def c_def [symmetric] by (simp split: list.split)
  consider (readers) "c = 0" "rw_read_waiters m \<noteq> []" | (writer) w ws where "c = 0" "rw_read_waiters m = []" "rw_write_waiters m = w # ws"
    | (free) "c = 0" "rw_read_waiters m = []" "rw_write_waiters m = []" | (busy) "c \<noteq> 0"
    by (metis neq_Nil_conv)
  then have "rw_inv m' (rw_woken wk pc1)"
  proof cases
    case readers
    then have r: "wk = WakeReaders (rw_read_waiters m)"
      "m' = m\<lparr>rw_count := rw_read_waiter_count m, rw_read_waiter_count := 0, rw_read_waiters := []\<rparr>"
      using un d by simp_all
    have e: "threads_at RwReading pc1 = {}" "threads_at RwWriting pc1 = {}" using O(1) readers rw_own_free by auto
    have w: "threads_at RwReading (rw_woken wk pc1) = set (rw_read_waiters m)" "threads_at RwWriting (rw_woken wk pc1) = {}"
      "threads_at RwReadWait (rw_woken wk pc1) = {}" "threads_at RwWriteWait (rw_woken wk pc1) = threads_at RwWriteWait pc1"
      unfolding r(1) at_woken wr(1) using e by (simp_all add: at_disjoint)
    have "finite (threads_at RwReadWait pc1)" unfolding wr(1) [symmetric] by simp
    then show ?thesis using w d wr readers distinct_card [OF d(1)] by (simp add: rw_inv_def r(2) rw_own_def)
  next
    case writer
    then have r: "wk = WakeWriter w" "m' = m\<lparr>rw_count := -1, rw_write_waiters := ws\<rparr>"
      using un d by simp_all
    have e: "threads_at RwReading pc1 = {}" "threads_at RwWriting pc1 = {}" using O(1) writer rw_own_free by auto
    have p: "pc1 w = RwWriteWait" using wr(2) writer by (auto simp: threads_at_def)
    have "threads_at RwReading (pc1(w := RwWriting)) = {}" "threads_at RwWriting (pc1(w := RwWriting)) = {w}"
      "threads_at RwReadWait (pc1(w := RwWriting)) = set (rw_read_waiters m)"
      using e wr(1) not_at [where pc = pc1 and t = w, OF p] by (simp_all add: at_upd)
    moreover have "threads_at RwWriteWait (pc1(w := RwWriting)) = set ws"
      using writer d(2) wr(2) [symmetric] by (simp add: at_upd)
    ultimately show ?thesis using d writer unfolding r rw_woken.simps rw_inv_def rw_own_def by simp
  next
    case free
    then have r: "wk = WakeNone" "m' = m\<lparr>rw_count := 0\<rparr>"
      using un d by simp_all
    then show ?thesis using O wr d free unfolding r rw_woken.simps rw_inv_def by simp
  next
    case busy
    then have r: "wk = WakeNone" "m' = m\<lparr>rw_count := c\<rparr>"
      using un d by simp_all
    have "rw_read_waiters m = []" using inv busy by (auto simp: rw_inv_def c_def rw_own_def)
    then show ?thesis using O wr d busy unfolding r rw_woken.simps rw_inv_def by simp
  qed
  then show ?thesis by (simp only: pc1_def)
qed

lemma rw_run_inv: "rw_run m pc \<Longrightarrow> rw_inv m pc"
proof (induction rule: rw_run.induct)
  case start
  then show ?case by (simp add: rw_inv_def rwmutex_init_def threads_at_def rw_own_def)
qed (simp_all only: rw_read_inv rw_write_inv rw_try_inv rw_unlock_inv)

section \<open>Wait groups\<close>

record waitgroup =
  wg_cnt :: int
  wg_waiters :: "nat list"

definition waitgroup_init :: waitgroup where
  "waitgroup_init = \<lparr>wg_cnt = 0, wg_waiters = []\<rparr>"

text \<open>The threads made ready; \<open>None\<close> is the failed check for a negative count.\<close>

definition waitgroup_add :: "int \<Rightarrow> waitgroup \<Rightarrow> (nat list \<times> waitgroup) option" where
  "waitgroup_add cnt wg =
     (let wg = wg\<lparr>wg_cnt := i32 (wg_cnt wg + cnt)\<rparr>
      in if wg_cnt wg < 0 then None
         else if wg_cnt wg = 0 then Some (wg_waiters wg, wg\<lparr>wg_waiters := []\<rparr>)
         else Some ([], wg))"

definition waitgroup_done :: "waitgroup \<Rightarrow> (nat list \<times> waitgroup) option" where
  "waitgroup_done wg = waitgroup_add (-1) wg"

definition waitgroup_wait :: "nat \<Rightarrow> waitgroup \<Rightarrow> bool \<times> waitgroup" where
  "waitgroup_wait t wg =
     (if wg_cnt wg = 0 then (True, wg) else (False, wg\<lparr>wg_waiters := wg_waiters wg @ [t]\<rparr>))"

text \<open>Runs in which what was added stays in the range of an \<^verbatim>\<open>int\<close>, with its sum and the threads that are
  parked: a thread that has to wait parks, and the threads made ready no longer are.\<close>

inductive wg_run :: "waitgroup \<Rightarrow> int \<Rightarrow> nat set \<Rightarrow> bool" where
  start: "wg_run waitgroup_init 0 {}"
| add: "wg_run wg n ts \<Longrightarrow> - (2 ^ 31) \<le> cnt \<Longrightarrow> n + cnt < 2 ^ 31 \<Longrightarrow> waitgroup_add cnt wg = Some (ws, wg') \<Longrightarrow>
    wg_run wg' (n + cnt) (ts - set ws)"
| wait: "wg_run wg n ts \<Longrightarrow> t \<notin> ts \<Longrightarrow> waitgroup_wait t wg = (ok, wg') \<Longrightarrow>
    wg_run wg' n (if ok then ts else insert t ts)"

lemma wg_run_inv:
  "wg_run wg n ts \<Longrightarrow> wg_cnt wg = n \<and> 0 \<le> n \<and> set (wg_waiters wg) = ts \<and> distinct (wg_waiters wg) \<and> (n = 0 \<longrightarrow> ts = {})"
proof (induction rule: wg_run.induct)
  case (add wg n ts cnt ws wg')
  then have "i32 (wg_cnt wg + cnt) = n + cnt" by (intro i32_id [THEN trans]) auto
  then show ?case using add by (auto simp: waitgroup_add_def Let_def split: if_splits)
next
  case (wait wg n ts t ok wg')
  then show ?case by (auto simp: waitgroup_wait_def split: if_splits)
qed (simp add: waitgroup_init_def)

section \<open>Barriers\<close>

record barrier =
  b_waiting :: int
  b_count :: int
  b_waiters :: "nat list"

definition barrier_init :: "int \<Rightarrow> barrier" where
  "barrier_init count = \<lparr>b_waiting = 0, b_count = count, b_waiters = []\<rparr>"

text \<open>Whether the caller releases the barrier, and the threads made ready.\<close>

definition barrier_wait :: "nat \<Rightarrow> barrier \<Rightarrow> bool \<times> nat list \<times> barrier" where
  "barrier_wait t b =
     (let b = b\<lparr>b_waiting := i32 (b_waiting b + 1)\<rparr>
      in if b_waiting b \<ge> b_count b
         then (True, b_waiters b, b\<lparr>b_waiters := [], b_waiting := 0\<rparr>)
         else (False, [], b\<lparr>b_waiters := b_waiters b @ [t]\<rparr>))"

text \<open>Runs, with the threads that have arrived, the last one first, and those that are parked.\<close>

inductive barrier_run :: "int \<Rightarrow> nat list \<Rightarrow> nat set \<Rightarrow> barrier \<Rightarrow> bool" for n where
  start: "barrier_run n [] {} (barrier_init n)"
| wait: "barrier_run n ts P b \<Longrightarrow> t \<notin> P \<Longrightarrow> barrier_wait t b = (rel, ws, b') \<Longrightarrow>
    barrier_run n (t # ts) ((if rel then P else insert t P) - set ws) b'"

lemma barrier_run_inv:
  assumes "barrier_run n ts P b" and "0 < n" and "n < 2 ^ 31"
  shows "b_count b = n \<and> b_waiting b = int (length (b_waiters b)) \<and> b_waiting b < n \<and> distinct (b_waiters b) \<and>
    b_waiting b = int (length ts) mod n \<and> rev (b_waiters b) = take (length (b_waiters b)) ts \<and> P = set (b_waiters b)"
  using assms
proof (induction rule: barrier_run.induct)
  case (wait ts P b t rel ws b')
  then have ih: "b_count b = n" "b_waiting b = int (length (b_waiters b))" "b_waiting b < n" "distinct (b_waiters b)"
    "b_waiting b = int (length ts) mod n" "rev (b_waiters b) = take (length (b_waiters b)) ts" "P = set (b_waiters b)" by auto
  have i: "i32 (b_waiting b + 1) = b_waiting b + 1" using ih(2,3) wait.prems by (intro i32_id) auto
  show ?case
  proof (cases "b_waiting b + 1 \<ge> n")
    case True
    then have b': "b' = b\<lparr>b_waiters := [], b_waiting := 0\<rparr>" "rel" "ws = b_waiters b"
      using wait.hyps ih i by (simp_all add: barrier_wait_def Let_def)
    have "int (length (t # ts)) mod n = (int (length ts) mod n + 1) mod n" by (simp add: mod_simps add.commute)
    also have "int (length ts) mod n + 1 = n" using True ih(3,5) by simp
    finally have "int (length (t # ts)) mod n = 0" by simp
    then show ?thesis using b' ih wait.prems by simp
  next
    case False
    then have b': "b' = b\<lparr>b_waiters := b_waiters b @ [t], b_waiting := b_waiting b + 1\<rparr>" "\<not> rel" "ws = []"
      using wait.hyps ih i by (auto simp: barrier_wait_def Let_def)
    have "int (length (t # ts)) mod n = (int (length ts) mod n + 1) mod n" by (simp add: mod_simps add.commute)
    also have "\<dots> = int (length ts) mod n + 1" using False ih(3,5) wait.prems by simp
    finally show ?thesis using b' ih wait.hyps False by simp
  qed
qed (simp add: barrier_init_def)

section \<open>Semaphores\<close>

record semaphore =
  sm_count :: int
  sm_waiters :: "nat list"

definition semaphore_init :: "int \<Rightarrow> semaphore" where
  "semaphore_init count = \<lparr>sm_count = count, sm_waiters = []\<rparr>"

definition semaphore_wait :: "nat \<Rightarrow> semaphore \<Rightarrow> bool \<times> semaphore" where
  "semaphore_wait t s =
     (if sm_count s > 0 then (True, s\<lparr>sm_count := i32 (sm_count s - 1)\<rparr>)
      else (False, s\<lparr>sm_waiters := sm_waiters s @ [t]\<rparr>))"

definition semaphore_try_wait :: "semaphore \<Rightarrow> bool \<times> semaphore" where
  "semaphore_try_wait s =
     (if sm_count s > 0 then (True, s\<lparr>sm_count := i32 (sm_count s - 1)\<rparr>) else (False, s))"

definition semaphore_post :: "semaphore \<Rightarrow> nat option \<times> semaphore" where
  "semaphore_post s =
     (case sm_waiters s of
        [] \<Rightarrow> (None, s\<lparr>sm_count := i32 (sm_count s + 1)\<rparr>)
      | w # ws \<Rightarrow> (Some w, s\<lparr>sm_waiters := ws\<rparr>))"

text \<open>Runs in which the units stay in the range of an \<^verbatim>\<open>int\<close>, with the number of units handed out and not
  returned and the threads that are parked.\<close>

inductive sem_run :: "int \<Rightarrow> semaphore \<Rightarrow> int \<Rightarrow> nat set \<Rightarrow> bool" for n where
  start: "sem_run n (semaphore_init n) 0 {}"
| wait: "sem_run n s k P \<Longrightarrow> t \<notin> P \<Longrightarrow> semaphore_wait t s = (ok, s') \<Longrightarrow>
    sem_run n s' (k + of_bool ok) (if ok then P else insert t P)"
| try_wait: "sem_run n s k P \<Longrightarrow> semaphore_try_wait s = (ok, s') \<Longrightarrow> sem_run n s' (k + of_bool ok) P"
| post: "sem_run n s k P \<Longrightarrow> n - k < 2 ^ 31 - 1 \<Longrightarrow> semaphore_post s = (w, s') \<Longrightarrow>
    sem_run n s' (k - of_bool (w = None)) (P - set_option w)"

lemma sem_run_inv:
  assumes "sem_run n s k P" and "0 \<le> n" and "n < 2 ^ 31"
  shows "sm_count s + k = n \<and> 0 \<le> sm_count s \<and> sm_count s < 2 ^ 31 \<and> (sm_waiters s \<noteq> [] \<longrightarrow> sm_count s = 0) \<and>
    distinct (sm_waiters s) \<and> P = set (sm_waiters s)"
  using assms
proof (induction rule: sem_run.induct)
  case (wait s k P t ok s')
  then have "0 < sm_count s \<Longrightarrow> i32 (sm_count s - 1) = sm_count s - 1" by (intro i32_id) auto
  then show ?case using wait by (auto simp: semaphore_wait_def split: if_splits)
next
  case (try_wait s k P ok s')
  then have "0 < sm_count s \<Longrightarrow> i32 (sm_count s - 1) = sm_count s - 1" by (intro i32_id) auto
  then show ?case using try_wait by (auto simp: semaphore_try_wait_def split: if_splits)
next
  case (post s k P w s')
  then have "i32 (sm_count s + 1) = sm_count s + 1" by (intro i32_id) auto
  then show ?case using post by (auto simp: semaphore_post_def split: list.splits)
qed (simp add: semaphore_init_def)

section \<open>Condition variables\<close>

record condvar =
  cv_waiters :: "nat list"
  cv_oldest_tsc :: u64

definition condvar_init :: condvar where
  "condvar_init = \<lparr>cv_waiters = [], cv_oldest_tsc = - 1\<rparr>"

text \<open>What a waiting thread does under \<^verbatim>\<open>waiter_lock\<close> after it has released the mutex.\<close>

definition condvar_enqueue :: "nat \<Rightarrow> u64 \<Rightarrow> condvar \<Rightarrow> (nat \<Rightarrow> uthread) \<Rightarrow> condvar \<times> (nat \<Rightarrow> uthread)" where
  "condvar_enqueue t now cv ths =
     (let is_first = (cv_waiters cv = []);
          ths = ths(t := (ths t)\<lparr>th_ready_tsc := now, th_enque_ts := now\<rparr>);
          cv = cv\<lparr>cv_waiters := cv_waiters cv @ [t]\<rparr>
      in (if is_first then cv\<lparr>cv_oldest_tsc := th_ready_tsc (ths t)\<rparr> else cv, ths))"

definition condvar_signal :: "u64 \<Rightarrow> condvar \<Rightarrow> (nat \<Rightarrow> uthread) \<Rightarrow> nat option \<times> condvar \<times> (nat \<Rightarrow> uthread)" where
  "condvar_signal now cv ths =
     (case cv_waiters cv of
        [] \<Rightarrow> (None, cv\<lparr>cv_oldest_tsc := - 1\<rparr>, ths)
      | w # ws \<Rightarrow> (Some w, cv\<lparr>cv_waiters := ws, cv_oldest_tsc := oldest_of ws ths\<rparr>, charge_delay now w ths))"

definition condvar_broadcast :: "(nat \<Rightarrow> u64) \<Rightarrow> condvar \<Rightarrow> (nat \<Rightarrow> uthread) \<Rightarrow> nat list \<times> condvar \<times> (nat \<Rightarrow> uthread)" where
  "condvar_broadcast now cv ths =
     (cv_waiters cv, cv\<lparr>cv_waiters := [], cv_oldest_tsc := - 1\<rparr>, fold (\<lambda>w. charge_delay (now w) w) (cv_waiters cv) ths)"

text \<open>The handler of the timer of a timed wait of thread \<open>th\<close>: whether it found the thread in the queue.\<close>

definition condvar_timeout :: "nat \<Rightarrow> u64 \<Rightarrow> condvar \<Rightarrow> (nat \<Rightarrow> uthread) \<Rightarrow> bool \<times> condvar \<times> (nat \<Rightarrow> uthread)" where
  "condvar_timeout th now cv ths =
     (let found = (th \<in> set (cv_waiters cv));
          ws = (if found then remove1 th (cv_waiters cv) else cv_waiters cv)
      in (found, cv\<lparr>cv_waiters := ws, cv_oldest_tsc := oldest_of ws ths\<rparr>,
          if found then charge_delay now th ths else ths))"

definition condvar_queue_tsc :: "u64 \<Rightarrow> condvar \<Rightarrow> u64" where
  "condvar_queue_tsc cur_tsc cv = (if cur_tsc < cv_oldest_tsc cv then 0 else cur_tsc - cv_oldest_tsc cv)"

definition condvar_queue_us :: "u64 \<Rightarrow> u64 \<Rightarrow> condvar \<Rightarrow> u64" where
  "condvar_queue_us cycles_per_us cur_tsc cv = condvar_queue_tsc cur_tsc cv div cycles_per_us"

text \<open>Where a thread stands: outside, in \<^verbatim>\<open>condvar_wait_timed\<close> between starting its timer and queueing up,
  parked, or made ready.\<close>

datatype cv_pc = CvOut | CvArmed | CvParked | CvReady

record cvs =
  cw_cv :: condvar
  cw_th :: "nat \<Rightarrow> uthread"
  cw_pc :: "nat \<Rightarrow> cv_pc"
  cw_timer :: "nat \<Rightarrow> bool"
  cw_timed_out :: "nat \<Rightarrow> bool"

datatype cv_act = CvWait nat u64 | CvTimed nat | CvQueue nat u64 | CvFire nat u64 | CvSignal u64 | CvBroadcast "nat \<Rightarrow> u64" | CvFinish nat

definition cv_queue :: "nat \<Rightarrow> u64 \<Rightarrow> cvs \<Rightarrow> cvs" where
  "cv_queue t now s =
     (let (cv, ths) = condvar_enqueue t now (cw_cv s) (cw_th s)
      in s\<lparr>cw_cv := cv, cw_th := ths, cw_pc := (cw_pc s)(t := CvParked)\<rparr>)"

text \<open>\<^verbatim>\<open>condvar_wait\<close> and the four pieces of \<^verbatim>\<open>condvar_wait_timed\<close> (start the timer, queue up, the timer,
  return), with the signals; an action that is not possible changes nothing.\<close>

fun cv_exec :: "cv_act \<Rightarrow> cvs \<Rightarrow> cvs" where
  "cv_exec (CvWait t now) s = (if cw_pc s t = CvOut then cv_queue t now s else s)"
| "cv_exec (CvTimed t) s =
     (if cw_pc s t = CvOut
      then s\<lparr>cw_pc := (cw_pc s)(t := CvArmed), cw_timer := (cw_timer s)(t := True),
             cw_timed_out := (cw_timed_out s)(t := False)\<rparr>
      else s)"
| "cv_exec (CvQueue t now) s =
     (if cw_pc s t = CvArmed
      then if cw_timed_out s t then s\<lparr>cw_pc := (cw_pc s)(t := CvOut)\<rparr> else cv_queue t now s
      else s)"
| "cv_exec (CvFire t now) s =
     (if cw_timer s t
      then let s = s\<lparr>cw_timer := (cw_timer s)(t := False)\<rparr>;
               (found, cv, ths) = condvar_timeout t now (cw_cv s) (cw_th s);
               s = s\<lparr>cw_cv := cv, cw_th := ths\<rparr>
           in if found then s\<lparr>cw_timed_out := (cw_timed_out s)(t := True), cw_pc := (cw_pc s)(t := CvReady)\<rparr> else s
      else s)"
| "cv_exec (CvSignal now) s =
     (let (w, cv, ths) = condvar_signal now (cw_cv s) (cw_th s);
          s = s\<lparr>cw_cv := cv, cw_th := ths\<rparr>
      in case w of None \<Rightarrow> s | Some w \<Rightarrow> s\<lparr>cw_pc := (cw_pc s)(w := CvReady)\<rparr>)"
| "cv_exec (CvBroadcast now) s =
     (let (ws, cv, ths) = condvar_broadcast now (cw_cv s) (cw_th s)
      in s\<lparr>cw_cv := cv, cw_th := ths, cw_pc := (\<lambda>t. if t \<in> set ws then CvReady else cw_pc s t)\<rparr>)"
| "cv_exec (CvFinish t) s =
     (if cw_pc s t = CvReady
      then s\<lparr>cw_pc := (cw_pc s)(t := CvOut),
             cw_timer := (if \<not> cw_timed_out s t then (cw_timer s)(t := False) else cw_timer s)\<rparr>
      else s)"

text \<open>Nobody waits at first; the queue holds the parked threads.\<close>

definition cv_start :: "cvs \<Rightarrow> bool" where
  "cv_start s \<longleftrightarrow> cw_cv s = condvar_init \<and> (\<forall>t. cw_pc s t = CvOut \<and> \<not> cw_timer s t)"

definition cv_inv :: "cvs \<Rightarrow> bool" where
  "cv_inv s \<longleftrightarrow> distinct (cv_waiters (cw_cv s)) \<and> (\<forall>t. t \<in> set (cv_waiters (cw_cv s)) \<longleftrightarrow> cw_pc s t = CvParked) \<and>
     cv_oldest_tsc (cw_cv s) = oldest_of (cv_waiters (cw_cv s)) (cw_th s)"

lemma oldest_other: "w \<notin> set ws \<Longrightarrow> oldest_of ws (charge_delay now w ths) = oldest_of ws ths"
  by (cases ws) (auto simp: oldest_of_def charge_delay_def)

lemma cv_queue_inv:
  assumes inv: "cv_inv s" and t: "cw_pc s t \<noteq> CvParked"
  shows "cv_inv (cv_queue t now s)"
proof -
  have n: "t \<notin> set (cv_waiters (cw_cv s))" using inv t by (simp add: cv_inv_def)
  show ?thesis
  proof (cases "cv_waiters (cw_cv s)")
    case Nil
    then show ?thesis using inv by (auto simp: cv_queue_def condvar_enqueue_def cv_inv_def Let_def oldest_of_def)
  next
    case (Cons w ws)
    then have "oldest_of (cv_waiters (cw_cv s) @ [t]) ((cw_th s)(t := (cw_th s t)\<lparr>th_ready_tsc := now, th_enque_ts := now\<rparr>)) =
        oldest_of (cv_waiters (cw_cv s)) (cw_th s)" using n by (auto simp: oldest_of_def)
    then show ?thesis using inv n Cons by (auto simp: cv_queue_def condvar_enqueue_def cv_inv_def Let_def)
  qed
qed

lemma cv_exec_inv:
  assumes inv: "cv_inv s"
  shows "cv_inv (cv_exec a s)"
proof (cases a)
  case (CvWait t now)
  then show ?thesis using inv cv_queue_inv by simp
next
  case (CvTimed t)
  then show ?thesis using inv by (auto simp: cv_inv_def)
next
  case (CvQueue t now)
  then show ?thesis using inv cv_queue_inv [OF inv, of t now] by (auto simp: cv_inv_def)
next
  case (CvFire t now)
  show ?thesis
  proof (cases "cw_timer s t")
    case True
    have "oldest_of (remove1 t (cv_waiters (cw_cv s))) (charge_delay now t (cw_th s)) =
        oldest_of (remove1 t (cv_waiters (cw_cv s))) (cw_th s)"
      using inv by (intro oldest_other) (simp add: cv_inv_def)
    then show ?thesis using inv CvFire True by (auto simp: cv_inv_def condvar_timeout_def Let_def)
  qed (use inv CvFire in simp)
next
  case (CvSignal now)
  show ?thesis
  proof (cases "cv_waiters (cw_cv s)")
    case Nil
    then show ?thesis using inv CvSignal by (simp add: cv_inv_def condvar_signal_def oldest_of_def)
  next
    case (Cons w ws)
    then show ?thesis using inv CvSignal oldest_other [of w ws now "cw_th s"]
      by (auto simp: cv_inv_def condvar_signal_def)
  qed
next
  case (CvBroadcast now)
  then show ?thesis using inv by (auto simp: cv_inv_def condvar_broadcast_def oldest_of_def)
next
  case (CvFinish t)
  then show ?thesis using inv by (auto simp: cv_inv_def)
qed

lemma cv_run_inv: "cv_start s \<Longrightarrow> cv_inv (fold cv_exec as s)"
proof (induction as rule: rev_induct)
  case (snoc a as)
  then show ?case using cv_exec_inv by simp
qed (simp add: cv_start_def cv_inv_def condvar_init_def oldest_of_def)

fun signals :: "cv_act \<Rightarrow> bool" where
  "signals (CvSignal now) = True" | "signals (CvBroadcast now) = True" | "signals _ = False"

text \<open>A parked thread without a timer stays parked until it is signalled.\<close>

lemma cv_stuck:
  assumes "cw_pc s t = CvParked" and "\<not> cw_timer s t" and "\<not> signals a"
  shows "cw_pc (cv_exec a s) t = CvParked \<and> \<not> cw_timer (cv_exec a s) t"
  using assms by (cases a) (auto simp: cv_queue_def condvar_timeout_def Let_def split: prod.split)

lemma cv_stuck_run:
  "cw_pc s t = CvParked \<Longrightarrow> \<not> cw_timer s t \<Longrightarrow> \<forall>a\<in>set as. \<not> signals a \<Longrightarrow>
    cw_pc (fold cv_exec as s) t = CvParked \<and> \<not> cw_timer (fold cv_exec as s) t"
proof (induction as arbitrary: s)
  case (Cons a as)
  then show ?case using cv_stuck [of s t a] by simp
qed simp

section \<open>What the primitives guarantee\<close>

definition read_rw :: "rwmutex \<times> rw_threads" where
  "read_rw = (rwmutex_init\<lparr>rw_count := 1, rw_write_waiters := [2]\<rparr>, (\<lambda>_. RwOut)(1 := RwReading, 2 := RwWriteWait))"

lemma read_rw_run: "rw_run (fst read_rw) (snd read_rw)"
proof -
  have "rw_run (rwmutex_init\<lparr>rw_count := 1\<rparr>) ((\<lambda>_. RwOut)(1 := RwReading))"
    using rw_run.rdlock [OF rw_run.start, of 1 True "rwmutex_init\<lparr>rw_count := 1\<rparr>"]
    by (simp add: rwmutex_rdlock_def rwmutex_init_def)
  from rw_run.wrlock [OF this, of 2 False "rwmutex_init\<lparr>rw_count := 1, rw_write_waiters := [2]\<rparr>"]
  show ?thesis by (simp add: rwmutex_wrlock_def rwmutex_init_def read_rw_def)
qed

text \<open>C34. A read-write mutex lets in either one writer or any number of readers, its count tells which, and
  nobody waits while it is free: in every run, if a thread writes it is alone, \<^verbatim>\<open>count\<close> is the number
  of readers or \<open>-1\<close>, and with a count of zero both queues are empty.\<close>

theorem rwmutex_exclusion:
  assumes "rw_run m pc"
  shows "(\<forall>t u. pc t = RwWriting \<longrightarrow> pc u = RwWriting \<or> pc u = RwReading \<longrightarrow> t = u) \<and>
    rw_count m = (if \<exists>t. pc t = RwWriting then -1 else int (card {t. pc t = RwReading})) \<and>
    (rw_count m = 0 \<longrightarrow> rw_read_waiters m = [] \<and> rw_write_waiters m = []) \<and>
    set (rw_read_waiters m) = {t. pc t = RwReadWait} \<and> set (rw_write_waiters m) = {t. pc t = RwWriteWait}"
proof -
  have inv: "rw_inv m pc" by (rule rw_run_inv [OF assms])
  then have own: "rw_own (rw_count m) {t. pc t = RwReading} {t. pc t = RwWriting}"
    by (simp add: rw_inv_def threads_at_def)
  have "(\<forall>t u. pc t = RwWriting \<longrightarrow> pc u = RwWriting \<or> pc u = RwReading \<longrightarrow> t = u) \<and>
    rw_count m = (if \<exists>t. pc t = RwWriting then -1 else int (card {t. pc t = RwReading}))"
  proof (cases "{t. pc t = RwWriting} = {}")
    case True
    then show ?thesis using own by (auto simp: rw_own_def)
  next
    case False
    then obtain w where c: "rw_count m = -1" "{t. pc t = RwReading} = {}" "{t. pc t = RwWriting} = {w}"
      using own by (auto simp: rw_own_def)
    have "pc t = RwWriting \<longleftrightarrow> t = w" "pc t \<noteq> RwReading" for t using c(2,3) by blast+
    then show ?thesis using c(1) by auto
  qed
  moreover have "rw_count m = 0 \<longrightarrow> rw_read_waiters m = [] \<and> rw_write_waiters m = []"
    "set (rw_read_waiters m) = {t. pc t = RwReadWait}" "set (rw_write_waiters m) = {t. pc t = RwWriteWait}"
    using inv by (auto simp: rw_inv_def threads_at_def)
  ultimately show ?thesis by blast
qed

theorem rwmutex_exclusion_witness: "{t. snd read_rw t = RwWriteWait} = {2}"
proof -
  have "{t. snd read_rw t = RwWriteWait} = set (rw_write_waiters (fst read_rw))"
    using rwmutex_exclusion [OF read_rw_run] by (elim conjE) (rule sym)
  also have "\<dots> = {2}" by (simp add: read_rw_def)
  finally show ?thesis .
qed

text \<open>C35. Wait groups, barriers and semaphores keep their counts and park exactly the threads that have to wait,
  as long as a count stays below \<open>2 ^ 31\<close>, the range of their \<^verbatim>\<open>int\<close>.  A wait group's count is the sum of what was
  added; the parked threads are those in its queue, and with a count of zero there are none.  At a barrier for \<open>n\<close>
  threads the parked ones are the last \<open>a mod n\<close> of the \<open>a\<close> threads that have arrived, in their order: the arrival
  of the \<open>n\<close>-th makes all of them ready.  A semaphore's units are either free or handed out, the parked threads are
  those in its queue, and there are none while a unit is free.\<close>

theorem counts_kept:
  assumes "wg_run wg added parked" and "barrier_run n arrived parked_b b" and "0 < n" and "n < 2 ^ 31"
    and "sem_run units s taken parked_s" and "0 \<le> units" and "units < 2 ^ 31"
  shows "wg_cnt wg = added \<and> 0 \<le> added \<and> set (wg_waiters wg) = parked \<and> (added = 0 \<longrightarrow> parked = {}) \<and>
    int (card parked_b) = int (length arrived) mod n \<and> parked_b = set (take (card parked_b) arrived) \<and>
    b_waiters b = rev (take (card parked_b) arrived) \<and>
    sm_count s + taken = units \<and> 0 \<le> sm_count s \<and> set (sm_waiters s) = parked_s \<and>
    (parked_s \<noteq> {} \<longrightarrow> sm_count s = 0)"
proof -
  note W = wg_run_inv [OF assms(1)]
  note B = barrier_run_inv [OF assms(2-4)]
  note S = sem_run_inv [OF assms(5-7)]
  have c: "card parked_b = length (b_waiters b)" using B distinct_card by auto
  have "b_waiters b = rev (take (card parked_b) arrived)" using B c by (metis rev_rev_ident)
  moreover from this have "parked_b = set (take (card parked_b) arrived)" using B by (metis set_rev)
  ultimately show ?thesis using W B S c by auto
qed

theorem counts_kept_witness:
  "sm_count (semaphore_init 3\<lparr>sm_count := 2\<rparr>) + 1 = 3 \<and>
   b_waiters ((barrier_init 2)\<lparr>b_waiting := 1, b_waiters := [9]\<rparr>) = [9]"
proof -
  have b1: "barrier_run 2 [7] {7} ((barrier_init 2)\<lparr>b_waiting := 1, b_waiters := [7]\<rparr>)"
    using barrier_run.wait [OF barrier_run.start, of 7 2 False "[]" "(barrier_init 2)\<lparr>b_waiting := 1, b_waiters := [7]\<rparr>"]
    by (simp add: barrier_init_def barrier_wait_def i32_id)
  have b2: "barrier_run 2 [8, 7] {} (barrier_init 2)"
    using barrier_run.wait [OF b1, of 8 True "[7]" "barrier_init 2"] by (simp add: barrier_init_def barrier_wait_def i32_id)
  have b3: "barrier_run 2 [9, 8, 7] {9} ((barrier_init 2)\<lparr>b_waiting := 1, b_waiters := [9]\<rparr>)"
    using barrier_run.wait [OF b2, of 9 False "[]" "(barrier_init 2)\<lparr>b_waiting := 1, b_waiters := [9]\<rparr>"]
    by (simp add: barrier_init_def barrier_wait_def i32_id)
  have s: "sem_run 3 (semaphore_init 3\<lparr>sm_count := 2\<rparr>) (0 + of_bool True) (if True then {} else insert 1 {})"
    by (rule sem_run.wait [OF sem_run.start, of 1 3]) (simp_all add: semaphore_init_def semaphore_wait_def i32_id)
  show ?thesis using counts_kept [OF wg_run.start b3 _ _ s] by simp
qed

definition idle_cvs :: cvs where
  "idle_cvs = \<lparr>cw_cv = condvar_init, cw_th = (\<lambda>_. \<lparr>th_ready_tsc = 0, th_enque_ts = 0, th_acc_qdel = 0\<rparr>),
     cw_pc = (\<lambda>_. CvOut), cw_timer = (\<lambda>_. False), cw_timed_out = (\<lambda>_. False)\<rparr>"

text \<open>In every run the queue of a condition variable holds the parked threads, each once; its recorded age is
  that of the thread at its head; and a signal makes exactly that thread ready.\<close>

lemma condvar_queue_exact:
  assumes "cv_start s0" and "s = fold cv_exec as s0"
  shows "distinct (cv_waiters (cw_cv s)) \<and> set (cv_waiters (cw_cv s)) = {t. cw_pc s t = CvParked} \<and>
    cv_oldest_tsc (cw_cv s) = (case cv_waiters (cw_cv s) of [] \<Rightarrow> - 1 | w # _ \<Rightarrow> th_ready_tsc (cw_th s w)) \<and>
    cw_pc (cv_exec (CvSignal now) s) =
      (case cv_waiters (cw_cv s) of [] \<Rightarrow> cw_pc s | w # _ \<Rightarrow> (cw_pc s)(w := CvReady))"
proof -
  have "cv_inv s" using cv_run_inv [OF assms(1), of as] assms(2) by simp
  moreover have "cw_pc (cv_exec (CvSignal now) s) =
      (case cv_waiters (cw_cv s) of [] \<Rightarrow> cw_pc s | w # _ \<Rightarrow> (cw_pc s)(w := CvReady))"
    by (simp add: condvar_signal_def split: list.split)
  ultimately show ?thesis by (auto simp: cv_inv_def oldest_of_def)
qed

text \<open>C40. A timed wait can lose its timeout.  When the timer of a thread in \<^verbatim>\<open>condvar_wait_timed\<close> fires before
  the thread has queued up, the handler does not find it and does not record the timeout; the thread
  then parks without a timer, and stays parked through every further run without a signal.\<close>

theorem condvar_timeout_lost:
  assumes "cv_start s0" and "s = fold cv_exec as s0" and "cw_pc s t = CvArmed" and "cw_timer s t" and "\<not> cw_timed_out s t"
    and "s' = cv_exec (CvQueue t now') (cv_exec (CvFire t now) s)" and "\<forall>b\<in>set bs. \<not> signals b"
  shows "cw_pc s' t = CvParked \<and> \<not> cw_timer s' t \<and> \<not> cw_timed_out s' t \<and> cw_pc (fold cv_exec bs s') t = CvParked"
proof -
  have "cv_inv s" using cv_run_inv [OF assms(1), of as] assms(2) by simp
  then have "t \<notin> set (cv_waiters (cw_cv s))" using assms(3) by (simp add: cv_inv_def)
  then have "cw_pc s' t = CvParked \<and> \<not> cw_timer s' t \<and> \<not> cw_timed_out s' t"
    using assms(3-6) by (simp add: condvar_timeout_def cv_queue_def condvar_enqueue_def Let_def)
  then show ?thesis using cv_stuck_run [of s' t bs] assms(7) by blast
qed

theorem condvar_timeout_lost_witness:
  "cw_pc (cv_exec (CvQueue 4 9) (cv_exec (CvFire 4 8) (cv_exec (CvTimed 4) idle_cvs))) 4 = CvParked"
proof -
  have "cv_start idle_cvs" by (simp add: cv_start_def idle_cvs_def)
  from condvar_timeout_lost [OF this, of _ "[CvTimed 4]" 4 _ 9 8 "[]", OF refl _ _ _ refl] show ?thesis
    by (simp add: idle_cvs_def del: cv_exec.simps) (simp add: idle_cvs_def)
qed

section \<open>Congestion-aware locks\<close>

text \<open>\<^verbatim>\<open>breakwater/src/sync.c\<close>: a request gives up on a lock when the delay it has accumulated and the age of
  the lock's queue exceed the budget of the overload controller.\<close>

definition SBW_LATENCY_BUDGET :: int where "SBW_LATENCY_BUDGET = 55"

datatype srpc_ops = Sbw2Ops | SpccOps | OtherOps

fun qdelay_budget :: "srpc_ops \<Rightarrow> int option" where
  "qdelay_budget Sbw2Ops = Some SBW_LATENCY_BUDGET"
| "qdelay_budget SpccOps = Some (uint SPCC_QDELAY_BUDGET)"
| "qdelay_budget OtherOps = None"

text \<open>\<open>acc\<close> is \<^verbatim>\<open>get_acc_qdel()\<close>, \<open>rpc\<close> whether the thread serves a request.\<close>

definition mutex_lock_is_congested :: "bool \<Rightarrow> srpc_ops \<Rightarrow> int \<Rightarrow> u64 \<Rightarrow> u64 \<Rightarrow> mutex \<Rightarrow> bool" where
  "mutex_lock_is_congested rpc ops cycles_per_us acc now m \<longleftrightarrow>
     (if \<not> rpc then False
      else case qdelay_budget ops of
             Some budget \<Rightarrow> acc + mutex_queue_tsc now m > u64_of_int (budget * cycles_per_us)
           | None \<Rightarrow> False)"

definition is_slo_violated :: "srpc_ops \<Rightarrow> int \<Rightarrow> u64 \<Rightarrow> bool" where
  "is_slo_violated ops cycles_per_us acc \<longleftrightarrow>
     (case qdelay_budget ops of Some budget \<Rightarrow> acc > u64_of_int (budget * cycles_per_us) | None \<Rightarrow> False)"

definition condvar_is_congested :: "bool \<Rightarrow> srpc_ops \<Rightarrow> int \<Rightarrow> u64 \<Rightarrow> u64 \<Rightarrow> condvar \<Rightarrow> bool" where
  "condvar_is_congested rpc ops cycles_per_us acc now cv \<longleftrightarrow>
     (if \<not> rpc then False
      else case qdelay_budget ops of
             Some budget \<Rightarrow> acc + condvar_queue_tsc now cv > u64_of_int (budget * cycles_per_us)
           | None \<Rightarrow> False)"

datatype cong_aware_mutex_policy = POLICY_NONE | POLICY_QDELAY | POLICY_QLEN

text \<open>The counters are 32-bit \<^verbatim>\<open>atomic_t\<close>; a 64-bit time is cut to 32 bits when it is stored.\<close>

record cong_aware_mutex =
  cam_pol :: cong_aware_mutex_policy
  cam_m :: mutex
  cam_hold_time :: u32
  cam_last_acq :: u32
  cam_last_rel :: u32
  cam_num_th :: u32

definition cong_aware_mutex_init :: "cong_aware_mutex_policy \<Rightarrow> cong_aware_mutex" where
  "cong_aware_mutex_init pol =
     \<lparr>cam_pol = pol, cam_m = mutex_init, cam_hold_time = 0, cam_last_acq = 0, cam_last_rel = 0, cam_num_th = 0\<rparr>"

text \<open>Before the mutex is taken, and after; \<^verbatim>\<open>mutex_lock\<close> between the two is that of the mutex.\<close>

definition cong_aware_mutex_lock_enter :: "cong_aware_mutex \<Rightarrow> cong_aware_mutex" where
  "cong_aware_mutex_lock_enter cam = cam\<lparr>cam_num_th := cam_num_th cam + 1\<rparr>"

definition cong_aware_mutex_lock_taken :: "u64 \<Rightarrow> cong_aware_mutex \<Rightarrow> cong_aware_mutex" where
  "cong_aware_mutex_lock_taken now cam = cam\<lparr>cam_num_th := cam_num_th cam - 1, cam_last_acq := ucast now\<rparr>"

definition cong_aware_mutex_try_lock :: "u64 \<Rightarrow> cong_aware_mutex \<Rightarrow> bool \<times> cong_aware_mutex" where
  "cong_aware_mutex_try_lock now cam =
     (let (ok, m) = mutex_try_lock (cam_m cam);
          cam = cam\<lparr>cam_m := m\<rparr>
      in (False, if ok then cam\<lparr>cam_last_acq := ucast now\<rparr> else cam))"

definition cong_aware_mutex_is_congested ::
  "bool \<Rightarrow> srpc_ops \<Rightarrow> u64 \<Rightarrow> u64 \<Rightarrow> u64 \<Rightarrow> cong_aware_mutex \<Rightarrow> bool"
where
  "cong_aware_mutex_is_congested rpc ops cycles_per_us acc_us now cam \<longleftrightarrow>
     (if \<not> rpc then False
      else case qdelay_budget ops of
             None \<Rightarrow> False
           | Some latency_budget \<Rightarrow>
               (case cam_pol cam of
                  POLICY_NONE \<Rightarrow> False
                | POLICY_QDELAY \<Rightarrow>
                    acc_us + mutex_queue_us cycles_per_us now (cam_m cam) > u64_of_int latency_budget
                | POLICY_QLEN \<Rightarrow>
                    acc_us + scast (cam_hold_time cam * cam_num_th cam) > u64_of_int latency_budget))"

text \<open>\<open>ewma\<close> is the floating-point average of the estimate and the last holding time, as an integer.\<close>

definition cong_aware_mutex_unlock_stat :: "(u32 \<Rightarrow> u64 \<Rightarrow> u64) \<Rightarrow> u64 \<Rightarrow> cong_aware_mutex \<Rightarrow> cong_aware_mutex" where
  "cong_aware_mutex_unlock_stat ewma now cam =
     (let cam = cam\<lparr>cam_last_rel := ucast now\<rparr>;
          last_hold_time = scast (cam_last_rel cam - cam_last_acq cam)
      in cam\<lparr>cam_hold_time := ucast (ewma (cam_hold_time cam) last_hold_time)\<rparr>)"

text \<open>C36. The refusal of a congested lock is exact: in every run of a mutex, a request is refused just when its
  accumulated delay, plus the time the head of the queue has waited if there is a queue, exceeds the budget.\<close>

theorem congestion_is_head_delay:
  assumes "mutex_run s" and "now \<noteq> - 1" and "\<forall>w\<in>set (mu_waiters (mx_m s)). th_ready_tsc (mx_th s w) \<le> now"
  shows "mutex_lock_is_congested True SpccOps c acc now (mx_m s) \<longleftrightarrow>
    acc + (case mu_waiters (mx_m s) of [] \<Rightarrow> 0 | w # _ \<Rightarrow> now - th_ready_tsc (mx_th s w)) > u64_of_int (300 * c)"
proof -
  have "now < - 1" using assms(2) by (simp add: word_order.not_eq_extremum)
  moreover have "mu_oldest_tsc (mx_m s) = oldest_of (mu_waiters (mx_m s)) (mx_th s)"
    using mutex_run_inv [OF assms(1)] by (simp add: minv_def)
  ultimately have "mutex_queue_tsc now (mx_m s) = (case mu_waiters (mx_m s) of [] \<Rightarrow> 0 | w # _ \<Rightarrow> now - th_ready_tsc (mx_th s w))"
    using assms(3) by (cases "mu_waiters (mx_m s)") (auto simp: mutex_queue_tsc_def oldest_of_def not_less)
  then show ?thesis by (simp add: mutex_lock_is_congested_def SPCC_QDELAY_BUDGET_def)
qed

theorem congestion_is_head_delay_witness:
  "mutex_lock_is_congested True SpccOps 1 0 400 (mx_m busy_mx)"
proof -
  have "th_ready_tsc (mx_th busy_mx 2) = 9" by (simp add: busy_defs)
  moreover have "(400 :: u64) \<noteq> - 1" by simp
  ultimately show ?thesis
    using congestion_is_head_delay [OF busy_run, of 400 1 0] busy_mx(3) by (simp add: u64_of_int_def)
qed

text \<open>\<^verbatim>\<open>cong_aware_mutex_try_lock\<close> never reports success: it returns false also when it has just
  taken the mutex, which its caller will then not release.\<close>

lemma try_lock_hides_success:
  assumes "mu_held (cam_m cam) = 0"
  shows "\<exists>cam'. cong_aware_mutex_try_lock now cam = (False, cam') \<and> mu_held (cam_m cam') = 1"
  using assms by (simp add: cong_aware_mutex_try_lock_def mutex_try_lock_def atomic_cmpxchg_def)

end
