(* ===== verification/Lrpc.thy ===== *)
theory Lrpc
  imports Stddef "HOL-Library.Sublist"
begin

text \<open>
  The shared-memory channels of \<^verbatim>\<open>inc/base/lrpc.h\<close> and \<^verbatim>\<open>base/lrpc.c\<close> between the runtime and the
  IOKernel: a ring of messages with one sender and one receiver.  There is no shared count; a message carries the
  parity of its lap around the ring, by which the receiver sees that it is new, and the receiver writes its position
  back for the sender.  Sender and receiver interleave at the level of single memory accesses.  The pointers of the
  two channel structures are the shared memory that the operations take as an argument.
\<close>

section \<open>State\<close>

record lrpc_msg =
  lm_cmd :: u64
  lm_payload :: u64

definition LRPC_DONE_PARITY :: u64 where "LRPC_DONE_PARITY = push_bit 63 1"
definition LRPC_CMD_MASK :: u64 where "LRPC_CMD_MASK = NOT LRPC_DONE_PARITY"

text \<open>What the two ends share: the table of messages and the position the receiver writes back.\<close>

record lrpc_mem =
  lm_tbl :: "lrpc_msg list"
  lm_recv_head_wb :: u32

record lrpc_chan_out =
  send_head :: u32
  send_tail :: u32
  out_size :: u32

record lrpc_chan_in =
  recv_head :: u32
  in_size :: u32

text \<open>\<open>None\<close> is \<^verbatim>\<open>-EINVAL\<close>.\<close>

definition lrpc_init_out :: "u32 \<Rightarrow> lrpc_chan_out option" where
  "lrpc_init_out sz =
     (if \<not> is_power_of_two sz then None else Some \<lparr>send_head = 0, send_tail = 0, out_size = sz\<rparr>)"

definition lrpc_init_in :: "u32 \<Rightarrow> lrpc_chan_in option" where
  "lrpc_init_in sz = (if \<not> is_power_of_two sz then None else Some \<lparr>recv_head = 0, in_size = sz\<rparr>)"

section \<open>Operations\<close>

definition lrpc_slot :: "u32 \<Rightarrow> u32 \<Rightarrow> nat" where
  "lrpc_slot head sz = unat (head AND (sz - 1))"

definition lrpc_parity :: "u32 \<Rightarrow> u32 \<Rightarrow> u64" where
  "lrpc_parity head sz = (if head AND sz \<noteq> 0 then 0 else LRPC_DONE_PARITY)"

text \<open>The two stores of a send, payload first.\<close>

definition put_payload :: "u64 \<Rightarrow> lrpc_chan_out \<Rightarrow> lrpc_mem \<Rightarrow> lrpc_mem" where
  "put_payload payload chan mem =
     (let i = lrpc_slot (send_head chan) (out_size chan)
      in mem\<lparr>lm_tbl := (lm_tbl mem)[i := (lm_tbl mem ! i)\<lparr>lm_payload := payload\<rparr>]\<rparr>)"

definition put_cmd :: "u64 \<Rightarrow> lrpc_chan_out \<Rightarrow> lrpc_mem \<Rightarrow> lrpc_chan_out \<times> lrpc_mem" where
  "put_cmd cmd chan mem =
     (let i = lrpc_slot (send_head chan) (out_size chan);
          cmd = cmd OR lrpc_parity (send_head chan) (out_size chan)
      in (chan\<lparr>send_head := send_head chan + 1\<rparr>,
          mem\<lparr>lm_tbl := (lm_tbl mem)[i := (lm_tbl mem ! i)\<lparr>lm_cmd := cmd\<rparr>]\<rparr>))"

definition lrpc_poll_send_tail :: "lrpc_chan_out \<Rightarrow> lrpc_mem \<Rightarrow> u32 \<times> lrpc_chan_out" where
  "lrpc_poll_send_tail chan mem = (lm_recv_head_wb mem, chan\<lparr>send_tail := lm_recv_head_wb mem\<rparr>)"

definition lrpc_send_slow :: "u64 \<Rightarrow> u64 \<Rightarrow> lrpc_chan_out \<times> lrpc_mem \<Rightarrow> bool \<times> lrpc_chan_out \<times> lrpc_mem" where
  "lrpc_send_slow cmd payload = (\<lambda>(chan, mem).
     let chan = chan\<lparr>send_tail := lm_recv_head_wb mem\<rparr>
     in if send_head chan - send_tail chan = out_size chan then (False, chan, mem)
        else (True, put_cmd cmd chan (put_payload payload chan mem)))"

definition lrpc_send :: "u64 \<Rightarrow> u64 \<Rightarrow> lrpc_chan_out \<times> lrpc_mem \<Rightarrow> bool \<times> lrpc_chan_out \<times> lrpc_mem" where
  "lrpc_send cmd payload = (\<lambda>(chan, mem).
     if send_head chan - send_tail chan \<ge> out_size chan then lrpc_send_slow cmd payload (chan, mem)
     else (True, put_cmd cmd chan (put_payload payload chan mem)))"

definition lrpc_get_cached_send_window :: "lrpc_chan_out \<Rightarrow> u32" where
  "lrpc_get_cached_send_window chan = out_size chan - send_head chan + send_tail chan"

definition lrpc_get_cached_length :: "lrpc_chan_out \<Rightarrow> u32" where
  "lrpc_get_cached_length chan = send_head chan - send_tail chan"

definition lrpc_recv :: "lrpc_chan_in \<times> lrpc_mem \<Rightarrow> (u64 \<times> u64) option \<times> lrpc_chan_in \<times> lrpc_mem" where
  "lrpc_recv = (\<lambda>(chan, mem).
     let m = lm_tbl mem ! lrpc_slot (recv_head chan) (in_size chan);
         parity = lrpc_parity (recv_head chan) (in_size chan);
         cmd = lm_cmd m
     in if cmd AND LRPC_DONE_PARITY \<noteq> parity then (None, chan, mem)
        else let chan = chan\<lparr>recv_head := recv_head chan + 1\<rparr>
             in (Some (cmd AND LRPC_CMD_MASK, lm_payload m), chan, mem\<lparr>lm_recv_head_wb := recv_head chan\<rparr>))"

definition lrpc_empty :: "lrpc_chan_in \<Rightarrow> lrpc_mem \<Rightarrow> bool" where
  "lrpc_empty chan mem \<longleftrightarrow>
     lm_cmd (lm_tbl mem ! lrpc_slot (recv_head chan) (in_size chan)) AND LRPC_DONE_PARITY
       \<noteq> lrpc_parity (recv_head chan) (in_size chan)"

section \<open>Positions in the ring\<close>

lemma slot_of_nat:
  assumes "sz = (2 :: u32) ^ k" "k < 32"
  shows "lrpc_slot (of_nat i) sz = i mod 2 ^ k"
proof -
  have "(of_nat i :: u32) AND (sz - 1) = take_bit k (of_nat i)"
    using assms by (simp add: take_bit_eq_mask mask_eq_exp_minus_1)
  then have "lrpc_slot (of_nat i) sz = take_bit k (take_bit 32 i)"
    by (simp add: lrpc_slot_def unsigned_take_bit_eq unsigned_of_nat)
  also have "\<dots> = take_bit k i" using assms(2) by (simp add: min_def)
  finally show ?thesis by (simp add: take_bit_eq_mod)
qed

lemma parity_of_nat:
  assumes "sz = (2 :: u32) ^ k" "k < 32"
  shows "lrpc_parity (of_nat i) sz = (if odd (i div 2 ^ k) then 0 else LRPC_DONE_PARITY)"
proof -
  have "(of_nat i AND sz \<noteq> 0) = bit (of_nat i :: u32) k"
    using assms by (simp add: and_exp_eq_0_iff_not_bit)
  also have "\<dots> = bit i k" using assms(2) by (simp add: bit_of_nat_iff)
  also have "\<dots> = odd (i div 2 ^ k)" by (rule bit_iff_odd)
  finally show ?thesis by (simp add: lrpc_parity_def)
qed

lemma unat_size: "sz = (2 :: u32) ^ k \<Longrightarrow> k < 32 \<Longrightarrow> unat sz = 2 ^ k"
  using unsigned_of_nat [of "2 ^ k" , where ?'a = nat and ?'b = 32] by (simp add: take_bit_nat_eq_self)

lemma parity_bits: "LRPC_DONE_PARITY \<noteq> 0" "LRPC_DONE_PARITY AND LRPC_DONE_PARITY = LRPC_DONE_PARITY"
    "LRPC_DONE_PARITY AND LRPC_CMD_MASK = 0"
  by (simp_all add: LRPC_DONE_PARITY_def LRPC_CMD_MASK_def)

lemma cmd_bits:
  assumes "cmd AND LRPC_DONE_PARITY = 0" and "p = 0 \<or> p = LRPC_DONE_PARITY"
  shows "(cmd OR p) AND LRPC_DONE_PARITY = p" and "(cmd OR p) AND LRPC_CMD_MASK = cmd"
proof -
  show "(cmd OR p) AND LRPC_DONE_PARITY = p" using assms by (auto simp: bit.conj_disj_distrib2)
  have "cmd AND LRPC_CMD_MASK = cmd AND (LRPC_DONE_PARITY OR LRPC_CMD_MASK)"
    using assms(1) by (simp add: bit.conj_disj_distrib)
  also have "\<dots> = cmd" by (simp add: LRPC_CMD_MASK_def)
  finally show "(cmd OR p) AND LRPC_CMD_MASK = cmd"
    using assms(2) parity_bits(3) by (auto simp: bit.conj_disj_distrib2)
qed

lemma mod_distinct: "i < j \<Longrightarrow> j < i + n \<Longrightarrow> i mod n \<noteq> j mod (n :: nat)"
  by (metis add_diff_cancel_left' less_diff_conv2 less_imp_le mod_eq_dvd_iff_nat dvd_imp_le not_less zero_less_diff add.commute)

section \<open>Sender and receiver in parallel\<close>

text \<open>Each action reads or writes one shared location.  The sender is idle, about to read the write-back of the
  receiver (\<^verbatim>\<open>__lrpc_send\<close>), about to store the payload or about to store the command; the receiver is idle,
  has loaded a command of its parity, or is about to store its write-back.\<close>

datatype lrpc_spc = SIdle | SPoll "u64 \<times> u64" | SWrite "u64 \<times> u64" | SStore "u64 \<times> u64"
datatype lrpc_rpc = RIdle | RLoad u64 | RStore

record lrpc_sys =
  ls_mem :: lrpc_mem
  ls_out :: lrpc_chan_out
  ls_in :: lrpc_chan_in
  ls_spc :: lrpc_spc
  ls_rpc :: lrpc_rpc
  ls_sent :: "(u64 \<times> u64) list"
  ls_got :: "(u64 \<times> u64) list"

definition lrpc_sender :: "u64 \<times> u64 \<Rightarrow> lrpc_sys \<Rightarrow> lrpc_sys" where
  "lrpc_sender msg s =
     (case ls_spc s of
        SIdle \<Rightarrow>
          s\<lparr>ls_spc := (if send_head (ls_out s) - send_tail (ls_out s) \<ge> out_size (ls_out s) then SPoll msg else SWrite msg)\<rparr>
      | SPoll m \<Rightarrow>
          (let chan = snd (lrpc_poll_send_tail (ls_out s) (ls_mem s))
           in s\<lparr>ls_out := chan, ls_spc := (if send_head chan - send_tail chan = out_size chan then SIdle else SWrite m)\<rparr>)
      | SWrite m \<Rightarrow> s\<lparr>ls_mem := put_payload (snd m) (ls_out s) (ls_mem s), ls_spc := SStore m\<rparr>
      | SStore m \<Rightarrow>
          (let (chan, mem) = put_cmd (fst m) (ls_out s) (ls_mem s)
           in s\<lparr>ls_mem := mem, ls_out := chan, ls_spc := SIdle, ls_sent := ls_sent s @ [m]\<rparr>))"

definition lrpc_receiver :: "lrpc_sys \<Rightarrow> lrpc_sys" where
  "lrpc_receiver s =
     (let chan = ls_in s;
          m = lm_tbl (ls_mem s) ! lrpc_slot (recv_head chan) (in_size chan)
      in case ls_rpc s of
           RIdle \<Rightarrow>
             (if lm_cmd m AND LRPC_DONE_PARITY \<noteq> lrpc_parity (recv_head chan) (in_size chan) then s
              else s\<lparr>ls_rpc := RLoad (lm_cmd m)\<rparr>)
         | RLoad cmd \<Rightarrow>
             s\<lparr>ls_in := chan\<lparr>recv_head := recv_head chan + 1\<rparr>, ls_rpc := RStore,
               ls_got := ls_got s @ [(cmd AND LRPC_CMD_MASK, lm_payload m)]\<rparr>
         | RStore \<Rightarrow> s\<lparr>ls_mem := (ls_mem s)\<lparr>lm_recv_head_wb := recv_head chan\<rparr>, ls_rpc := RIdle\<rparr>)"

text \<open>Commands do not use the parity bit, as \<^verbatim>\<open>lrpc_send\<close> asserts; the table starts zeroed.\<close>

definition lrpc_valid :: "u64 \<times> u64 \<Rightarrow> bool" where
  "lrpc_valid m \<longleftrightarrow> fst m AND LRPC_DONE_PARITY = 0"

inductive lrpc_run :: "u32 \<Rightarrow> lrpc_sys \<Rightarrow> bool" for sz where
  start: "lrpc_init_out sz = Some (ls_out s) \<Longrightarrow> lrpc_init_in sz = Some (ls_in s) \<Longrightarrow>
    lm_tbl (ls_mem s) = replicate (unat sz) \<lparr>lm_cmd = 0, lm_payload = 0\<rparr> \<Longrightarrow> lm_recv_head_wb (ls_mem s) = 0 \<Longrightarrow>
    ls_spc s = SIdle \<Longrightarrow> ls_rpc s = RIdle \<Longrightarrow> ls_sent s = [] \<Longrightarrow> ls_got s = [] \<Longrightarrow> lrpc_run sz s"
| sender: "lrpc_run sz s \<Longrightarrow> lrpc_valid msg \<Longrightarrow> lrpc_run sz (lrpc_sender msg s)"
| receiver: "lrpc_run sz s \<Longrightarrow> lrpc_run sz (lrpc_receiver s)"

section \<open>The invariant\<close>

definition lap :: "nat \<Rightarrow> nat \<Rightarrow> u64" where
  "lap k i = (if odd (i div 2 ^ k) then 0 else LRPC_DONE_PARITY)"

lemma lap_cases: "lap k i = 0 \<or> lap k i = LRPC_DONE_PARITY"
  by (simp add: lap_def)

lemma lap_next: "lap k (i + 2 ^ k) \<noteq> lap k i"
  using parity_bits(1) by (simp add: lap_def div_add_self2)

text \<open>The slots from the receiver's position to the sender's hold the messages in flight; those beyond do not show
  the parity of their next lap.\<close>

definition lring_ok :: "nat \<Rightarrow> lrpc_msg list \<Rightarrow> (u64 \<times> u64) list \<Rightarrow> nat \<Rightarrow> bool" where
  "lring_ok k t sent r \<longleftrightarrow> length t = 2 ^ k \<and> r \<le> length sent \<and> length sent \<le> r + 2 ^ k \<and> (\<forall>m\<in>set sent. lrpc_valid m) \<and>
     (\<forall>i. r \<le> i \<and> i < length sent \<longrightarrow>
        t ! (i mod 2 ^ k) = \<lparr>lm_cmd = fst (sent ! i) OR lap k i, lm_payload = snd (sent ! i)\<rparr>) \<and>
     (\<forall>i. length sent \<le> i \<and> i < r + 2 ^ k \<longrightarrow> lm_cmd (t ! (i mod 2 ^ k)) AND LRPC_DONE_PARITY \<noteq> lap k i)"

lemma lring_front:
  assumes "lring_ok k t sent r" and "r < length sent"
  shows "lm_cmd (t ! (r mod 2 ^ k)) AND LRPC_DONE_PARITY = lap k r"
    and "lm_cmd (t ! (r mod 2 ^ k)) AND LRPC_CMD_MASK = fst (sent ! r)"
    and "lm_payload (t ! (r mod 2 ^ k)) = snd (sent ! r)"
proof -
  have "t ! (r mod 2 ^ k) = \<lparr>lm_cmd = fst (sent ! r) OR lap k r, lm_payload = snd (sent ! r)\<rparr>"
    "fst (sent ! r) AND LRPC_DONE_PARITY = 0"
    using assms by (auto simp: lring_ok_def lrpc_valid_def)
  then show "lm_cmd (t ! (r mod 2 ^ k)) AND LRPC_DONE_PARITY = lap k r"
    "lm_cmd (t ! (r mod 2 ^ k)) AND LRPC_CMD_MASK = fst (sent ! r)"
    "lm_payload (t ! (r mod 2 ^ k)) = snd (sent ! r)"
    using cmd_bits [OF _ lap_cases] by simp_all
qed

lemma lring_pending:
  assumes "lring_ok k t sent r"
  shows "(lm_cmd (t ! (r mod 2 ^ k)) AND LRPC_DONE_PARITY = lap k r) \<longleftrightarrow> r < length sent"
proof (cases "r < length sent")
  case True
  then show ?thesis using lring_front(1) [OF assms] by simp
next
  case False
  then show ?thesis using assms by (simp add: lring_ok_def)
qed

lemma lring_payload:
  assumes "lring_ok k t sent r" and "length sent < r + 2 ^ k"
  shows "lring_ok k (t[length sent mod 2 ^ k := (t ! (length sent mod 2 ^ k))\<lparr>lm_payload := p\<rparr>]) sent r"
proof -
  let ?h = "length sent"
  have "?h mod 2 ^ k \<noteq> i mod 2 ^ k" if "r \<le> i \<and> i < ?h" for i
    using mod_distinct [of i ?h "2 ^ k"] that assms(2) by simp
  moreover have "?h mod 2 ^ k < length t" using assms(1) by (simp add: lring_ok_def)
  ultimately show ?thesis using assms(1) by (simp add: lring_ok_def nth_list_update)
qed

lemma lring_send:
  assumes ok: "lring_ok k t sent r" and room: "length sent < r + 2 ^ k" and "lrpc_valid m"
    and pay: "lm_payload (t ! (length sent mod 2 ^ k)) = snd m"
  shows "lring_ok k (t[length sent mod 2 ^ k := (t ! (length sent mod 2 ^ k))\<lparr>lm_cmd := fst m OR lap k (length sent)\<rparr>])
    (sent @ [m]) r"
proof -
  let ?h = "length sent"
  have old: "i mod 2 ^ k \<noteq> ?h mod 2 ^ k" if "r \<le> i" "i < ?h" for i
    using mod_distinct [OF that(2), of "2 ^ k"] that room by simp
  have new: "i mod 2 ^ k \<noteq> ?h mod 2 ^ k" if "?h < i" "i < r + 2 ^ k" for i
    using mod_distinct [OF that(1), of "2 ^ k"] that ok by (simp add: lring_ok_def)
  have len: "?h mod 2 ^ k < length t" using ok by (simp add: lring_ok_def)
  have slot: "(t ! (?h mod 2 ^ k))\<lparr>lm_cmd := c\<rparr> = \<lparr>lm_cmd = c, lm_payload = snd m\<rparr>" for c
    using pay by (cases "t ! (?h mod 2 ^ k)") simp
  show ?thesis
    unfolding lring_ok_def slot
  proof (intro conjI allI impI)
    fix i assume i: "r \<le> i \<and> i < length (sent @ [m])"
    show "t[?h mod 2 ^ k := \<lparr>lm_cmd = fst m OR lap k ?h, lm_payload = snd m\<rparr>] ! (i mod 2 ^ k) =
      \<lparr>lm_cmd = fst ((sent @ [m]) ! i) OR lap k i, lm_payload = snd ((sent @ [m]) ! i)\<rparr>"
    proof (cases "i = ?h")
      case True
      then show ?thesis using len by simp
    next
      case False
      then show ?thesis using i old [of i] ok len by (simp add: lring_ok_def nth_append nth_list_update)
    qed
  next
    fix i assume i: "length (sent @ [m]) \<le> i \<and> i < r + 2 ^ k"
    then show "lm_cmd (t[?h mod 2 ^ k := \<lparr>lm_cmd = fst m OR lap k ?h, lm_payload = snd m\<rparr>] ! (i mod 2 ^ k))
      AND LRPC_DONE_PARITY \<noteq> lap k i"
      using new [of i] ok by (simp add: lring_ok_def nth_list_update)
  qed (use assms in \<open>auto simp: lring_ok_def\<close>)
qed

lemma lring_recv:
  assumes "lring_ok k t sent r" and "r < length sent"
  shows "lring_ok k t sent (Suc r)"
proof -
  have "lm_cmd (t ! (i mod 2 ^ k)) AND LRPC_DONE_PARITY \<noteq> lap k i" if "length sent \<le> i" "i < Suc r + 2 ^ k" for i
  proof (cases "i = r + 2 ^ k")
    case True
    then show ?thesis using lring_front(1) [OF assms] lap_next [of k r] by simp
  next
    case False
    then show ?thesis using that assms(1) by (simp add: lring_ok_def)
  qed
  then show ?thesis using assms by (auto simp: lring_ok_def)
qed

text \<open>\<open>ta\<close> and \<open>wb\<close> are the positions behind \<^verbatim>\<open>send_tail\<close> and \<^verbatim>\<open>recv_head_wb\<close>.\<close>

definition heads_ok :: "nat \<Rightarrow> lrpc_sys \<Rightarrow> nat \<Rightarrow> nat \<Rightarrow> bool" where
  "heads_ok k s ta wb \<longleftrightarrow> k < 32 \<and> out_size (ls_out s) = 2 ^ k \<and> in_size (ls_in s) = 2 ^ k \<and>
     send_head (ls_out s) = of_nat (length (ls_sent s)) \<and> recv_head (ls_in s) = of_nat (length (ls_got s)) \<and>
     send_tail (ls_out s) = of_nat ta \<and> lm_recv_head_wb (ls_mem s) = of_nat wb \<and>
     ta \<le> wb \<and> wb \<le> length (ls_got s) \<and> (ls_rpc s \<noteq> RStore \<longrightarrow> wb = length (ls_got s)) \<and>
     length (ls_sent s) \<le> ta + 2 ^ k"

fun sender_ok :: "nat \<Rightarrow> nat \<Rightarrow> lrpc_msg list \<Rightarrow> nat \<Rightarrow> lrpc_spc \<Rightarrow> bool" where
  "sender_ok k ta t h SIdle = True"
| "sender_ok k ta t h (SPoll m) = lrpc_valid m"
| "sender_ok k ta t h (SWrite m) = (lrpc_valid m \<and> h < ta + 2 ^ k)"
| "sender_ok k ta t h (SStore m) = (lrpc_valid m \<and> h < ta + 2 ^ k \<and> lm_payload (t ! (h mod 2 ^ k)) = snd m)"

fun receiver_ok :: "nat \<Rightarrow> lrpc_msg list \<Rightarrow> nat \<Rightarrow> nat \<Rightarrow> lrpc_rpc \<Rightarrow> bool" where
  "receiver_ok k t h r (RLoad cmd) = (r < h \<and> cmd = lm_cmd (t ! (r mod 2 ^ k)))"
| "receiver_ok k t h r _ = True"

definition lrpc_inv :: "nat \<Rightarrow> lrpc_sys \<Rightarrow> bool" where
  "lrpc_inv k s \<longleftrightarrow> lring_ok k (lm_tbl (ls_mem s)) (ls_sent s) (length (ls_got s)) \<and>
     ls_got s = take (length (ls_got s)) (ls_sent s) \<and>
     receiver_ok k (lm_tbl (ls_mem s)) (length (ls_sent s)) (length (ls_got s)) (ls_rpc s) \<and>
     (\<exists>ta wb. heads_ok k s ta wb \<and> sender_ok k ta (lm_tbl (ls_mem s)) (length (ls_sent s)) (ls_spc s))"

lemma lrpc_invI:
  assumes "heads_ok k s ta wb" and "lring_ok k (lm_tbl (ls_mem s)) (ls_sent s) (length (ls_got s))"
    and "ls_got s = take (length (ls_got s)) (ls_sent s)"
    and "receiver_ok k (lm_tbl (ls_mem s)) (length (ls_sent s)) (length (ls_got s)) (ls_rpc s)"
    and "sender_ok k ta (lm_tbl (ls_mem s)) (length (ls_sent s)) (ls_spc s)"
  shows "lrpc_inv k s"
  using assms unfolding lrpc_inv_def by blast

lemma diff_of_nat:
  assumes "ta \<le> h" "h \<le> ta + 2 ^ k" "k < 32"
  shows "unat (of_nat h - of_nat ta :: u32) = h - ta"
    and "(of_nat h - of_nat ta \<ge> (2 ^ k :: u32)) \<longleftrightarrow> h = ta + 2 ^ k"
    and "(of_nat h - of_nat ta = (2 ^ k :: u32)) \<longleftrightarrow> h = ta + 2 ^ k"
proof -
  have "(2 :: nat) ^ k < 2 ^ 32" using assms(3) by (rule power_strict_increasing) simp
  then have "h - ta < 2 ^ 32" using assms(2) by linarith
  moreover have "(of_nat h - of_nat ta :: u32) = of_nat (h - ta)" using assms(1) by simp
  ultimately show d: "unat (of_nat h - of_nat ta :: u32) = h - ta"
    by (simp add: unsigned_of_nat take_bit_nat_eq_self del: of_nat_diff)
  have z: "unat (2 ^ k :: u32) = 2 ^ k" by (rule unat_size [OF refl assms(3)])
  show "(of_nat h - of_nat ta \<ge> (2 ^ k :: u32)) \<longleftrightarrow> h = ta + 2 ^ k"
    using assms(1,2) by (simp only: word_le_nat_alt d z) linarith
  show "(of_nat h - of_nat ta = (2 ^ k :: u32)) \<longleftrightarrow> h = ta + 2 ^ k"
    using assms(1,2) by (simp only: word_unat_eq_iff d z) linarith
qed

lemma out_slot: "heads_ok k s ta wb \<Longrightarrow> lrpc_slot (send_head (ls_out s)) (out_size (ls_out s)) = length (ls_sent s) mod 2 ^ k"
    "heads_ok k s ta wb \<Longrightarrow> lrpc_parity (send_head (ls_out s)) (out_size (ls_out s)) = lap k (length (ls_sent s))"
    "heads_ok k s ta wb \<Longrightarrow> lrpc_slot (recv_head (ls_in s)) (in_size (ls_in s)) = length (ls_got s) mod 2 ^ k"
    "heads_ok k s ta wb \<Longrightarrow> lrpc_parity (recv_head (ls_in s)) (in_size (ls_in s)) = lap k (length (ls_got s))"
  by (auto simp: heads_ok_def lap_def intro!: slot_of_nat parity_of_nat [THEN trans])

lemma sender_idle_inv:
  assumes inv: "lrpc_inv k s" and m: "lrpc_valid msg" and pc: "ls_spc s = SIdle"
  shows "lrpc_inv k (lrpc_sender msg s)"
proof -
  obtain ta wb where h: "heads_ok k s ta wb" using inv by (auto simp: lrpc_inv_def)
  have "(send_head (ls_out s) - send_tail (ls_out s) \<ge> out_size (ls_out s)) \<longleftrightarrow> length (ls_sent s) = ta + 2 ^ k"
    using diff_of_nat(2) [of ta "length (ls_sent s)" k] h inv by (auto simp: heads_ok_def lrpc_inv_def lring_ok_def)
  then have "sender_ok k ta (lm_tbl (ls_mem s)) (length (ls_sent s)) (ls_spc (lrpc_sender msg s))"
    using h pc m by (auto simp: lrpc_sender_def heads_ok_def)
  moreover have "heads_ok k (lrpc_sender msg s) ta wb" using h pc by (simp add: lrpc_sender_def heads_ok_def)
  ultimately show ?thesis using inv pc by (intro lrpc_invI [where ta = ta and wb = wb]) (simp_all add: lrpc_inv_def lrpc_sender_def)
qed

lemma sender_poll_inv:
  assumes inv: "lrpc_inv k s" and pc: "ls_spc s = SPoll m"
  shows "lrpc_inv k (lrpc_sender msg s)"
proof -
  obtain ta wb where h: "heads_ok k s ta wb" and m: "lrpc_valid m" using inv pc by (auto simp: lrpc_inv_def)
  have le: "wb \<le> length (ls_sent s)" "length (ls_sent s) \<le> wb + 2 ^ k"
    using h inv by (auto simp: heads_ok_def lrpc_inv_def lring_ok_def)
  then have "(send_head (ls_out s) - lm_recv_head_wb (ls_mem s) = out_size (ls_out s)) \<longleftrightarrow> length (ls_sent s) = wb + 2 ^ k"
    using diff_of_nat(3) [of wb "length (ls_sent s)" k] h by (simp add: heads_ok_def)
  then have "sender_ok k wb (lm_tbl (ls_mem s)) (length (ls_sent s)) (ls_spc (lrpc_sender msg s))"
    using pc m le by (auto simp: lrpc_sender_def lrpc_poll_send_tail_def Let_def)
  moreover have "heads_ok k (lrpc_sender msg s) wb wb"
    using h pc le by (auto simp: lrpc_sender_def lrpc_poll_send_tail_def heads_ok_def Let_def)
  ultimately show ?thesis using inv pc
    by (intro lrpc_invI [where ta = wb and wb = wb]) (simp_all add: lrpc_inv_def lrpc_sender_def lrpc_poll_send_tail_def Let_def)
qed

lemma receiver_ok_upd:
  assumes "receiver_ok k t h r pc" and "r \<le> h" and "h < r + 2 ^ k"
  shows "receiver_ok k (t[h mod 2 ^ k := v]) h r pc" and "receiver_ok k (t[h mod 2 ^ k := v]) (Suc h) r pc"
proof -
  have "t[h mod 2 ^ k := v] ! (r mod 2 ^ k) = t ! (r mod 2 ^ k)" if "r < h"
    using mod_distinct [OF that assms(3)] by simp
  then show "receiver_ok k (t[h mod 2 ^ k := v]) h r pc" "receiver_ok k (t[h mod 2 ^ k := v]) (Suc h) r pc"
    using assms(1) by (cases pc; simp)+
qed

lemma sender_write_inv:
  assumes inv: "lrpc_inv k s" and pc: "ls_spc s = SWrite m"
  shows "lrpc_inv k (lrpc_sender msg s)"
proof -
  let ?t = "lm_tbl (ls_mem s)" and ?h = "length (ls_sent s)" and ?r = "length (ls_got s)"
  obtain ta wb where h: "heads_ok k s ta wb" and m: "lrpc_valid m" "?h < ta + 2 ^ k" using inv pc by (auto simp: lrpc_inv_def)
  have room: "?h < ?r + 2 ^ k" "?r \<le> ?h" using h m inv by (auto simp: heads_ok_def lrpc_inv_def lring_ok_def)
  define t' where "t' = ?t[?h mod 2 ^ k := (?t ! (?h mod 2 ^ k))\<lparr>lm_payload := snd m\<rparr>]"
  have s': "lrpc_sender msg s = s\<lparr>ls_mem := (ls_mem s)\<lparr>lm_tbl := t'\<rparr>, ls_spc := SStore m\<rparr>"
    using pc out_slot(1) [OF h] by (simp add: lrpc_sender_def put_payload_def t'_def Let_def)
  have "lring_ok k t' (ls_sent s) ?r" using inv room by (auto simp: t'_def lrpc_inv_def intro!: lring_payload)
  moreover have "receiver_ok k t' ?h ?r (ls_rpc s)"
    using inv room by (auto simp: t'_def lrpc_inv_def intro!: receiver_ok_upd(1))
  moreover have "lm_payload (t' ! (?h mod 2 ^ k)) = snd m" using inv by (auto simp: t'_def lrpc_inv_def lring_ok_def)
  moreover have "heads_ok k (lrpc_sender msg s) ta wb" using h by (simp add: s' heads_ok_def)
  ultimately show ?thesis using inv m by (auto simp: lrpc_inv_def s')
qed

lemma sender_store_inv:
  assumes inv: "lrpc_inv k s" and pc: "ls_spc s = SStore m"
  shows "lrpc_inv k (lrpc_sender msg s)"
proof -
  let ?t = "lm_tbl (ls_mem s)" and ?h = "length (ls_sent s)" and ?r = "length (ls_got s)"
  obtain ta wb where h: "heads_ok k s ta wb" and m: "lrpc_valid m" "?h < ta + 2 ^ k" "lm_payload (?t ! (?h mod 2 ^ k)) = snd m"
    using inv pc by (auto simp: lrpc_inv_def)
  have room: "?h < ?r + 2 ^ k" "?r \<le> ?h" using h m inv by (auto simp: heads_ok_def lrpc_inv_def lring_ok_def)
  define t' where "t' = ?t[?h mod 2 ^ k := (?t ! (?h mod 2 ^ k))\<lparr>lm_cmd := fst m OR lap k ?h\<rparr>]"
  have s': "lrpc_sender msg s = s\<lparr>ls_mem := (ls_mem s)\<lparr>lm_tbl := t'\<rparr>,
      ls_out := (ls_out s)\<lparr>send_head := send_head (ls_out s) + 1\<rparr>, ls_spc := SIdle, ls_sent := ls_sent s @ [m]\<rparr>"
    using pc out_slot(1,2) [OF h] by (simp add: lrpc_sender_def put_cmd_def t'_def Let_def)
  have "lring_ok k t' (ls_sent s @ [m]) ?r" using inv room m by (auto simp: t'_def lrpc_inv_def intro!: lring_send)
  moreover have "receiver_ok k t' (Suc ?h) ?r (ls_rpc s)"
    using inv room by (auto simp: t'_def lrpc_inv_def intro!: receiver_ok_upd(2))
  moreover have "heads_ok k (lrpc_sender msg s) ta wb" using h m by (simp add: s' heads_ok_def add.commute)
  moreover have "ls_got s = take ?r (ls_sent s @ [m])" using inv room by (auto simp: lrpc_inv_def)
  ultimately show ?thesis by (auto simp: lrpc_inv_def s')
qed

lemma lrpc_sender_inv: "lrpc_inv k s \<Longrightarrow> lrpc_valid msg \<Longrightarrow> lrpc_inv k (lrpc_sender msg s)"
  by (cases "ls_spc s") (simp_all only: sender_idle_inv sender_poll_inv sender_write_inv sender_store_inv)

lemma lrpc_receiver_inv:
  assumes inv: "lrpc_inv k s"
  shows "lrpc_inv k (lrpc_receiver s)"
proof -
  let ?t = "lm_tbl (ls_mem s)" and ?h = "length (ls_sent s)" and ?r = "length (ls_got s)"
  obtain ta wb where h: "heads_ok k s ta wb" "sender_ok k ta ?t ?h (ls_spc s)" using inv by (auto simp: lrpc_inv_def)
  have ring: "lring_ok k ?t (ls_sent s) ?r" using inv by (simp add: lrpc_inv_def)
  show ?thesis
  proof (cases "ls_rpc s")
    case RIdle
    then show ?thesis using inv h lring_pending [OF ring] out_slot(3,4) [OF h(1)]
      by (auto simp: lrpc_receiver_def Let_def lrpc_inv_def heads_ok_def)
  next
    case (RLoad cmd)
    then have r: "?r < ?h" and c: "cmd = lm_cmd (?t ! (?r mod 2 ^ k))" using inv by (simp_all add: lrpc_inv_def)
    have s': "lrpc_receiver s = s\<lparr>ls_in := (ls_in s)\<lparr>recv_head := recv_head (ls_in s) + 1\<rparr>, ls_rpc := RStore,
        ls_got := ls_got s @ [ls_sent s ! ?r]\<rparr>"
      using RLoad c lring_front(2,3) [OF ring r] out_slot(3) [OF h(1)] by (simp add: lrpc_receiver_def Let_def)
    have "heads_ok k (lrpc_receiver s) ta wb" using h(1) RLoad by (simp add: s' heads_ok_def add.commute)
    moreover have "ls_got s @ [ls_sent s ! ?r] = take (Suc ?r) (ls_sent s)"
      using inv r by (simp add: lrpc_inv_def take_Suc_conv_app_nth)
    ultimately show ?thesis using h(2) lring_recv [OF ring r] Suc_leI [OF r]
      by (intro lrpc_invI [where ta = ta and wb = wb]) (simp_all add: s' min_def)
  next
    case RStore
    then have "heads_ok k (lrpc_receiver s) ta ?r"
      using h(1) by (auto simp: lrpc_receiver_def heads_ok_def Let_def)
    then show ?thesis using inv h(2) RStore by (auto simp: lrpc_inv_def lrpc_receiver_def Let_def)
  qed
qed

lemma lrpc_run_inv: "lrpc_run sz s \<Longrightarrow> \<exists>k. sz = 2 ^ k \<and> lrpc_inv k s"
proof (induction rule: lrpc_run.induct)
  case (start s)
  then obtain k where k: "k < 32" "sz = 2 ^ k"
    using is_power_of_two_iff [of sz] by (auto simp: lrpc_init_out_def split: if_splits)
  have len: "unat sz = 2 ^ k" by (rule unat_size [OF k(2,1)])
  have "lring_ok k (lm_tbl (ls_mem s)) [] 0"
    using start(3) len parity_bits(1) by (auto simp: lring_ok_def lap_def)
  moreover have "ls_out s = \<lparr>send_head = 0, send_tail = 0, out_size = sz\<rparr>" "ls_in s = \<lparr>recv_head = 0, in_size = sz\<rparr>"
    using start(1,2) by (simp_all add: lrpc_init_out_def lrpc_init_in_def split: if_splits)
  then have "heads_ok k s 0 0" using start k by (simp add: heads_ok_def)
  ultimately show ?case using start k by (auto simp: lrpc_inv_def)
next
  case (sender s msg)
  then show ?case using lrpc_sender_inv by blast
next
  case (receiver s)
  then show ?case using lrpc_receiver_inv by blast
qed

section \<open>Whole calls\<close>

text \<open>A call of \<^verbatim>\<open>lrpc_send\<close> or \<^verbatim>\<open>lrpc_recv\<close> that nobody interrupts is a run of its actions.\<close>

type_synonym lrpc_chan = "lrpc_chan_out \<times> lrpc_chan_in \<times> lrpc_mem"

definition chan_send :: "u64 \<times> u64 \<Rightarrow> lrpc_chan \<Rightarrow> bool \<times> lrpc_chan" where
  "chan_send m = (\<lambda>(co, ci, mem). case lrpc_send (fst m) (snd m) (co, mem) of (ok, co, mem) \<Rightarrow> (ok, co, ci, mem))"

definition chan_recv :: "lrpc_chan \<Rightarrow> (u64 \<times> u64) option \<times> lrpc_chan" where
  "chan_recv = (\<lambda>(co, ci, mem). case lrpc_recv (ci, mem) of (r, ci, mem) \<Rightarrow> (r, co, ci, mem))"

definition chan_of :: "lrpc_sys \<Rightarrow> lrpc_chan" where
  "chan_of s = (ls_out s, ls_in s, ls_mem s)"

text \<open>The messages between the two heads.\<close>

definition chan_contents :: "lrpc_chan \<Rightarrow> (u64 \<times> u64) list" where
  "chan_contents = (\<lambda>(co, ci, mem).
     map (\<lambda>j. let m = lm_tbl mem ! lrpc_slot (recv_head ci + of_nat j) (in_size ci)
              in (lm_cmd m AND LRPC_CMD_MASK, lm_payload m))
       [0..<unat (send_head co - recv_head ci)])"

definition lrpc_idle :: "lrpc_sys \<Rightarrow> bool" where
  "lrpc_idle s \<longleftrightarrow> ls_spc s = SIdle \<and> ls_rpc s = RIdle"

definition chan_ok :: "u32 \<Rightarrow> lrpc_chan \<Rightarrow> bool" where
  "chan_ok sz c \<longleftrightarrow> (\<exists>s. lrpc_run sz s \<and> lrpc_idle s \<and> c = chan_of s)"

lemma contents_eq:
  assumes "lrpc_inv k s"
  shows "chan_contents (chan_of s) = drop (length (ls_got s)) (ls_sent s)"
proof -
  let ?t = "lm_tbl (ls_mem s)" and ?h = "length (ls_sent s)" and ?r = "length (ls_got s)"
  obtain ta wb where h: "heads_ok k s ta wb" using assms by (auto simp: lrpc_inv_def)
  have ring: "lring_ok k ?t (ls_sent s) ?r" using assms by (simp add: lrpc_inv_def)
  have n: "unat (send_head (ls_out s) - recv_head (ls_in s)) = ?h - ?r"
    using diff_of_nat(1) [of ?r ?h k] h ring by (simp add: heads_ok_def lring_ok_def)
  have "(let m = ?t ! lrpc_slot (recv_head (ls_in s) + of_nat j) (in_size (ls_in s))
      in (lm_cmd m AND LRPC_CMD_MASK, lm_payload m)) = ls_sent s ! (?r + j)" if "j < ?h - ?r" for j
  proof -
    have "lrpc_slot (recv_head (ls_in s) + of_nat j) (in_size (ls_in s)) = (?r + j) mod 2 ^ k"
      using slot_of_nat [of _ k "?r + j"] h by (simp add: heads_ok_def)
    moreover have "?t ! ((?r + j) mod 2 ^ k) = \<lparr>lm_cmd = fst (ls_sent s ! (?r + j)) OR lap k (?r + j), lm_payload = snd (ls_sent s ! (?r + j))\<rparr>"
      "lrpc_valid (ls_sent s ! (?r + j))"
      using ring that by (auto simp: lring_ok_def)
    ultimately show ?thesis using cmd_bits(2) [OF _ lap_cases] by (simp add: lrpc_valid_def)
  qed
  then show ?thesis by (intro nth_equalityI) (simp_all add: chan_contents_def chan_of_def n)
qed

text \<open>The sender's actions of one call, and the receiver's.\<close>

lemma send_run:
  assumes run: "lrpc_run sz s" and idle: "lrpc_idle s" and m: "lrpc_valid m" and inv: "lrpc_inv k s"
    and send: "chan_send m (chan_of s) = (ok, c)"
  shows "\<exists>s'. lrpc_run sz s' \<and> lrpc_idle s' \<and> c = chan_of s' \<and> ls_got s' = ls_got s \<and>
    ls_sent s' = (if ok then ls_sent s @ [m] else ls_sent s) \<and> ok = (length (ls_sent s) < length (ls_got s) + 2 ^ k)"
proof -
  let ?a = "lrpc_sender m" and ?h = "length (ls_sent s)" and ?r = "length (ls_got s)"
  obtain ta wb where h: "heads_ok k s ta wb" using inv by (auto simp: lrpc_inv_def)
  have le: "ta \<le> ?r" "?r \<le> ?h" "?h \<le> ta + 2 ^ k" "k < 32"
    using h inv by (auto simp: heads_ok_def lrpc_inv_def lring_ok_def)
  have wb: "lm_recv_head_wb (ls_mem s) = of_nat ?r" using h idle by (auto simp: heads_ok_def lrpc_idle_def)
  have fast: "(send_head (ls_out s) - send_tail (ls_out s) \<ge> out_size (ls_out s)) \<longleftrightarrow> ?h = ta + 2 ^ k"
    using diff_of_nat(2) [of ta ?h k] h le by (simp add: heads_ok_def)
  have slow: "(send_head (ls_out s) - lm_recv_head_wb (ls_mem s) = out_size (ls_out s)) \<longleftrightarrow> ?h = ?r + 2 ^ k"
    using diff_of_nat(3) [of ?r ?h k] h le by (simp add: heads_ok_def wb)
  note runs = lrpc_run.sender [OF _ m]
  note defs = chan_send_def lrpc_send_def lrpc_send_slow_def chan_of_def lrpc_idle_def lrpc_sender_def lrpc_poll_send_tail_def
    put_payload_def put_cmd_def Let_def
  consider "?h < ta + 2 ^ k" | "?h = ta + 2 ^ k" "?h < ?r + 2 ^ k" | "?h = ta + 2 ^ k" "?h = ?r + 2 ^ k"
    using le by linarith
  then show ?thesis
  proof cases
    case 1
    have "lrpc_run sz (?a (?a (?a s)))" by (intro runs run)
    then show ?thesis using 1 fast idle send le by (intro exI [of _ "?a (?a (?a s))"]) (auto simp: defs)
  next
    case 2
    have "lrpc_run sz (?a (?a (?a (?a s))))" by (intro runs run)
    then show ?thesis using 2 fast slow idle send by (intro exI [of _ "?a (?a (?a (?a s)))"]) (auto simp: defs)
  next
    case 3
    have "lrpc_run sz (?a (?a s))" by (intro runs run)
    then show ?thesis using 3 fast slow idle send by (intro exI [of _ "?a (?a s)"]) (auto simp: defs)
  qed
qed

lemma recv_run:
  assumes run: "lrpc_run sz s" and idle: "lrpc_idle s" and inv: "lrpc_inv k s" and recv: "chan_recv (chan_of s) = (r, c)"
  shows "\<exists>s'. lrpc_run sz s' \<and> lrpc_idle s' \<and> c = chan_of s' \<and> ls_sent s' = ls_sent s \<and>
    (if length (ls_got s) < length (ls_sent s)
     then r = Some (ls_sent s ! length (ls_got s)) \<and> length (ls_got s') = Suc (length (ls_got s))
     else r = None \<and> ls_got s' = ls_got s)"
proof -
  let ?a = lrpc_receiver and ?r = "length (ls_got s)"
  obtain ta wb where h: "heads_ok k s ta wb" using inv by (auto simp: lrpc_inv_def)
  have ring: "lring_ok k (lm_tbl (ls_mem s)) (ls_sent s) ?r" using inv by (simp add: lrpc_inv_def)
  note defs = chan_recv_def lrpc_recv_def chan_of_def lrpc_idle_def lrpc_receiver_def Let_def out_slot(3,4) [OF h] lring_pending [OF ring]
  show ?thesis
  proof (cases "?r < length (ls_sent s)")
    case True
    have "lrpc_run sz (?a (?a (?a s)))" by (intro lrpc_run.receiver run)
    then show ?thesis using True idle recv lring_front(2,3) [OF ring True]
      by (intro exI [of _ "?a (?a (?a s))"]) (auto simp: defs)
  next
    case False
    then show ?thesis using run idle recv by (intro exI [of _ s]) (auto simp: defs)
  qed
qed

section \<open>Channels as bounded queues\<close>

text \<open>Sending a list of messages, and receiving up to \<open>n\<close> messages.\<close>

fun send_all :: "('m \<Rightarrow> 's \<Rightarrow> bool \<times> 's) \<Rightarrow> 'm list \<Rightarrow> 's \<Rightarrow> bool \<times> 's" where
  "send_all snd_op [] s = (True, s)"
| "send_all snd_op (m # ms) s = (case snd_op m s of (ok, s) \<Rightarrow> if ok then send_all snd_op ms s else (False, s))"

fun recv_all :: "('s \<Rightarrow> 'm option \<times> 's) \<Rightarrow> nat \<Rightarrow> 's \<Rightarrow> 'm list \<times> 's" where
  "recv_all rcv_op 0 s = ([], s)"
| "recv_all rcv_op (Suc n) s =
     (case rcv_op s of
        (None, s) \<Rightarrow> ([], s)
      | (Some m, s) \<Rightarrow> (case recv_all rcv_op n s of (ms, s) \<Rightarrow> (m # ms, s)))"

locale fifo_channel =
  fixes ok :: "'s \<Rightarrow> bool" and valid :: "'m \<Rightarrow> bool" and cap :: nat and contents :: "'s \<Rightarrow> 'm list"
    and snd_op :: "'m \<Rightarrow> 's \<Rightarrow> bool \<times> 's" and rcv_op :: "'s \<Rightarrow> 'm option \<times> 's"
  assumes snd_law: "ok s \<Longrightarrow> valid m \<Longrightarrow> snd_op m s = (b, s') \<Longrightarrow>
      ok s' \<and> b = (length (contents s) < cap) \<and> contents s' = (if b then contents s @ [m] else contents s)"
    and rcv_law: "ok s \<Longrightarrow> rcv_op s = (r, s') \<Longrightarrow>
      ok s' \<and> (case contents s of [] \<Rightarrow> r = None \<and> contents s' = [] | m # ms \<Rightarrow> r = Some m \<and> contents s' = ms)"
begin

lemma send_all_spec:
  "ok s \<Longrightarrow> \<forall>m\<in>set ms. valid m \<Longrightarrow> length (contents s) + length ms \<le> cap \<Longrightarrow>
    \<exists>s'. send_all snd_op ms s = (True, s') \<and> ok s' \<and> contents s' = contents s @ ms"
proof (induction ms arbitrary: s)
  case (Cons m ms)
  obtain b s1 where s1: "snd_op m s = (b, s1)" by fastforce
  have "ok s1 \<and> b \<and> contents s1 = contents s @ [m]" using snd_law [OF Cons.prems(1) _ s1] Cons.prems by auto
  moreover from this have "\<exists>s'. send_all snd_op ms s1 = (True, s') \<and> ok s' \<and> contents s' = contents s1 @ ms"
    using Cons.prems by (intro Cons.IH) auto
  ultimately show ?case using s1 by auto
qed simp

lemma recv_all_spec:
  "ok s \<Longrightarrow> length (contents s) \<le> n \<Longrightarrow> \<exists>s'. recv_all rcv_op n s = (contents s, s') \<and> ok s' \<and> contents s' = []"
proof (induction n arbitrary: s)
  case (Suc n)
  obtain r s1 where s1: "rcv_op s = (r, s1)" by fastforce
  note law = rcv_law [OF Suc.prems(1) s1]
  show ?case
  proof (cases "contents s")
    case Nil
    then show ?thesis using law s1 by simp
  next
    case (Cons m ms)
    then have c: "ok s1" "r = Some m" "contents s1 = ms" using law by simp_all
    then obtain s' where "recv_all rcv_op n s1 = (ms, s') \<and> ok s' \<and> contents s' = []"
      using Suc.IH [of s1] Suc.prems(2) Cons by auto
    then show ?thesis using s1 c Cons by simp
  qed
qed simp

lemma round_trip:
  assumes "ok s" and "\<forall>m\<in>set ms. valid m" and "length (contents s) + length ms \<le> cap" and "cap \<le> n"
  shows "\<exists>s1 s2. send_all snd_op ms s = (True, s1) \<and> recv_all rcv_op n s1 = (contents s @ ms, s2) \<and> ok s2 \<and> contents s2 = []"
proof -
  obtain s1 where s1: "send_all snd_op ms s = (True, s1)" "ok s1" "contents s1 = contents s @ ms"
    using send_all_spec [OF assms(1-3)] by blast
  then show ?thesis using recv_all_spec [OF s1(2), of n] assms(3,4) by auto
qed

end

lemma chan_send_law:
  assumes "chan_ok sz c" and "lrpc_valid m" and "chan_send m c = (b, c')"
  shows "chan_ok sz c' \<and> b = (length (chan_contents c) < unat sz) \<and>
    chan_contents c' = (if b then chan_contents c @ [m] else chan_contents c)"
proof -
  obtain s where s: "lrpc_run sz s" "lrpc_idle s" "c = chan_of s" using assms(1) by (auto simp: chan_ok_def)
  obtain k where k: "sz = 2 ^ k" "lrpc_inv k s" using lrpc_run_inv [OF s(1)] by blast
  have k32: "k < 32" and r: "length (ls_got s) \<le> length (ls_sent s)"
    using k(2) by (auto simp: lrpc_inv_def heads_ok_def lring_ok_def)
  have z: "unat sz = 2 ^ k" by (rule unat_size [OF k(1) k32])
  obtain s' where s': "lrpc_run sz s'" "lrpc_idle s'" "c' = chan_of s'" "ls_got s' = ls_got s"
      "ls_sent s' = (if b then ls_sent s @ [m] else ls_sent s)" "b = (length (ls_sent s) < length (ls_got s) + 2 ^ k)"
    using send_run [OF s(1,2) assms(2) k(2)] assms(3) s(3) by blast
  obtain k' where k': "sz = 2 ^ k'" "lrpc_inv k' s'" using lrpc_run_inv [OF s'(1)] by blast
  have b: "b = (length (ls_sent s) - length (ls_got s) < 2 ^ k)" using s'(6) r by linarith
  have "chan_contents c = drop (length (ls_got s)) (ls_sent s)" "chan_contents c' = drop (length (ls_got s)) (ls_sent s')"
    using contents_eq [OF k(2)] contents_eq [OF k'(2)] s(3) s'(3,4) by simp_all
  then show ?thesis using s' r b by (auto simp: chan_ok_def z)
qed

lemma chan_recv_law:
  assumes "chan_ok sz c" and "chan_recv c = (r, c')"
  shows "chan_ok sz c' \<and> (case chan_contents c of [] \<Rightarrow> r = None \<and> chan_contents c' = []
    | m # ms \<Rightarrow> r = Some m \<and> chan_contents c' = ms)"
proof -
  obtain s where s: "lrpc_run sz s" "lrpc_idle s" "c = chan_of s" using assms(1) by (auto simp: chan_ok_def)
  obtain k where k: "sz = 2 ^ k" "lrpc_inv k s" using lrpc_run_inv [OF s(1)] by blast
  obtain s' where s': "lrpc_run sz s'" "lrpc_idle s'" "c' = chan_of s'" "ls_sent s' = ls_sent s"
      "if length (ls_got s) < length (ls_sent s)
       then r = Some (ls_sent s ! length (ls_got s)) \<and> length (ls_got s') = Suc (length (ls_got s))
       else r = None \<and> ls_got s' = ls_got s"
    using recv_run [OF s(1,2) k(2)] assms(2) s(3) by blast
  obtain k' where k': "lrpc_inv k' s'" using lrpc_run_inv [OF s'(1)] by blast
  have c: "chan_contents c = drop (length (ls_got s)) (ls_sent s)" "chan_contents c' = drop (length (ls_got s')) (ls_sent s)"
    using contents_eq [OF k(2)] contents_eq [OF k'] s(3) s'(3,4) by simp_all
  have "case chan_contents c of [] \<Rightarrow> r = None \<and> chan_contents c' = [] | m # ms \<Rightarrow> r = Some m \<and> chan_contents c' = ms"
  proof (cases "length (ls_got s) < length (ls_sent s)")
    case True
    then show ?thesis using c s'(5) Cons_nth_drop_Suc [OF True] by (auto split: list.split)
  next
    case False
    then show ?thesis using c s'(5) by simp
  qed
  then show ?thesis using s' by (auto simp: chan_ok_def)
qed

interpretation lc: fifo_channel "chan_ok sz" lrpc_valid "unat sz" chan_contents chan_send chan_recv for sz
  by unfold_locales (fact chan_send_law, fact chan_recv_law)

section \<open>What the channel guarantees\<close>

text \<open>A fresh channel of four slots.\<close>

definition fresh_lrpc :: lrpc_sys where
  "fresh_lrpc = \<lparr>ls_mem = \<lparr>lm_tbl = replicate 4 \<lparr>lm_cmd = 0, lm_payload = 0\<rparr>, lm_recv_head_wb = 0\<rparr>,
     ls_out = \<lparr>send_head = 0, send_tail = 0, out_size = 4\<rparr>, ls_in = \<lparr>recv_head = 0, in_size = 4\<rparr>,
     ls_spc = SIdle, ls_rpc = RIdle, ls_sent = [], ls_got = []\<rparr>"

lemma fresh_run: "lrpc_run 4 fresh_lrpc"
proof -
  have "is_power_of_two (4 :: u32)" by (simp add: is_power_of_two_def)
  then show ?thesis by (intro lrpc_run.start) (simp_all add: fresh_lrpc_def lrpc_init_out_def lrpc_init_in_def)
qed

text \<open>C26. The channel is a first-in first-out queue under every interleaving of the memory accesses of its two
  ends, also after its 32-bit positions have wrapped around: what was received is the beginning of what was sent,
  the number of messages in flight never exceeds the size of the table, an idle receiver finds the channel empty
  exactly when everything sent was received, and no accessible slot lies outside the table.\<close>

theorem lrpc_fifo:
  assumes "lrpc_run sz s"
  shows "prefix (ls_got s) (ls_sent s) \<and> length (ls_sent s) - length (ls_got s) \<le> unat sz \<and>
    (lrpc_empty (ls_in s) (ls_mem s) \<longleftrightarrow> ls_got s = ls_sent s) \<and>
    lrpc_slot (send_head (ls_out s)) sz < length (lm_tbl (ls_mem s)) \<and> lrpc_slot (recv_head (ls_in s)) sz < length (lm_tbl (ls_mem s))"
proof -
  obtain k where k: "sz = 2 ^ k" "lrpc_inv k s" using lrpc_run_inv [OF assms] by blast
  obtain ta wb where h: "heads_ok k s ta wb" using k(2) by (auto simp: lrpc_inv_def)
  have z: "unat sz = 2 ^ k" using unat_size [OF k(1)] h by (simp add: heads_ok_def)
  have ring: "lring_ok k (lm_tbl (ls_mem s)) (ls_sent s) (length (ls_got s))"
    and got: "ls_got s = take (length (ls_got s)) (ls_sent s)" using k(2) by (auto simp: lrpc_inv_def)
  have "prefix (ls_got s) (ls_sent s)" by (subst got) (rule take_is_prefix)
  moreover have "ls_got s = ls_sent s \<longleftrightarrow> \<not> length (ls_got s) < length (ls_sent s)"
    using got by (metis less_irrefl not_less take_all)
  moreover have "lrpc_empty (ls_in s) (ls_mem s) \<longleftrightarrow> \<not> length (ls_got s) < length (ls_sent s)"
    using lring_pending [OF ring] by (simp add: lrpc_empty_def out_slot(3,4) [OF h])
  moreover have "lrpc_slot (send_head (ls_out s)) sz < 2 ^ k" "lrpc_slot (recv_head (ls_in s)) sz < 2 ^ k"
    using out_slot(1,3) [OF h] h k(1) by (simp_all add: heads_ok_def)
  moreover have "length (lm_tbl (ls_mem s)) = 2 ^ k" "length (ls_sent s) \<le> length (ls_got s) + 2 ^ k"
    using ring by (simp_all add: lring_ok_def)
  ultimately show ?thesis using z by simp
qed

theorem lrpc_fifo_witness:
  "lrpc_empty (ls_in (lrpc_sender (1, 7) (lrpc_sender (1, 7) fresh_lrpc))) (ls_mem (lrpc_sender (1, 7) (lrpc_sender (1, 7) fresh_lrpc)))"
proof -
  have v: "lrpc_valid (1, 7)" by (simp add: lrpc_valid_def LRPC_DONE_PARITY_def)
  have "lrpc_run 4 (lrpc_sender (1, 7) (lrpc_sender (1, 7) fresh_lrpc))" by (intro lrpc_run.sender fresh_run v)
  from lrpc_fifo [OF this] show ?thesis by (simp add: lrpc_sender_def fresh_lrpc_def)
qed

text \<open>C27. Round trip: from any state of a channel that its two ends can reach, messages that fit into the free
  slots are all accepted, and receiving then yields what was in the channel followed by the sent messages,
  unchanged and in order, and leaves the channel empty.\<close>

theorem lrpc_round_trip:
  assumes "chan_ok sz c" and "\<forall>m\<in>set ms. lrpc_valid m" and "length (chan_contents c) + length ms \<le> unat sz"
  shows "\<exists>c1 c2. send_all chan_send ms c = (True, c1) \<and> recv_all chan_recv (unat sz) c1 = (chan_contents c @ ms, c2) \<and>
    chan_contents c2 = []"
  using lc.round_trip [OF assms order_refl] by blast

theorem lrpc_round_trip_witness:
  "\<exists>c1 c2. send_all chan_send [(1, 7), (2, 8)] (chan_of fresh_lrpc) = (True, c1) \<and>
     recv_all chan_recv 4 c1 = ([(1, 7), (2, 8)], c2) \<and> chan_contents c2 = []"
proof -
  have ok: "chan_ok 4 (chan_of fresh_lrpc)" using fresh_run by (auto simp: chan_ok_def lrpc_idle_def fresh_lrpc_def)
  have e: "chan_contents (chan_of fresh_lrpc) = []" by (simp add: chan_contents_def chan_of_def fresh_lrpc_def)
  have v: "\<forall>m\<in>set [(1, 7), (2, 8)]. lrpc_valid m" by (simp add: lrpc_valid_def LRPC_DONE_PARITY_def)
  show ?thesis using lrpc_round_trip [OF ok v] by (simp add: e del: send_all.simps recv_all.simps)
qed

end
