(* ===== verification/Sched_Queue.thy ===== *)
theory Sched_Queue
  imports Mutex Stddef "HOL-Library.Multiset"
begin

text \<open>
  The run queue of a kthread, \<^verbatim>\<open>runtime/sched.c\<close>: a ring of 32 threads with wrapping 32-bit positions, and an overflow
  list.  The operations are shown to be those of a double-ended queue; a thief takes a prefix of another queue and
  merges it with its own by the time the threads became ready.  The build without a second queue for preempted threads
  and without garbage collection is modelled; statistics counters are left out.
\<close>

section \<open>State\<close>

definition RUNTIME_RQ_SIZE :: u32 where "RUNTIME_RQ_SIZE = 32"

record sthread = uthread +
  th_thread_ready :: bool
  th_thread_running :: bool
  th_last_cpu :: nat
  th_run_start_tsc :: u64
  th_main_thread :: bool
  th_tlsvar :: u64
  th_rpc_ctx :: u64

record q_ptrs =
  qp_rq_head :: u32
  qp_rq_tail :: u32
  qp_oldest_tsc :: u64
  qp_rcu_gen :: u64
  qp_run_start_tsc :: u64

record kth =
  kt_rq_head :: u32
  kt_rq_tail :: u32
  kt_rq_overflow :: "nat list"
  kt_q_ptrs :: q_ptrs
  kt_rcu_gen :: u32
  kt_curr_cpu :: nat
  kt_rq :: "nat list"
  kt_iokernel_softirq :: nat
  kt_timer_softirq :: nat
  kt_storage_softirq :: nat
  kt_iokernel_busy :: bool
  kt_timer_busy :: bool
  kt_storage_busy :: bool
  kt_last_softirq_tsc :: u64

type_synonym sthreads = "nat \<Rightarrow> sthread"

section \<open>The run queue of a kthread\<close>

definition rq_at :: "u32 \<Rightarrow> kth \<Rightarrow> nat" where
  "rq_at i k = kt_rq k ! unat (i mod RUNTIME_RQ_SIZE)"

definition rq_put :: "nat \<Rightarrow> kth \<Rightarrow> kth" where
  "rq_put th k = k\<lparr>kt_rq := (kt_rq k)[unat (kt_rq_head k mod RUNTIME_RQ_SIZE) := th], kt_rq_head := kt_rq_head k + 1\<rparr>"

definition count_head :: "u32 \<Rightarrow> kth \<Rightarrow> kth" where
  "count_head n k = k\<lparr>kt_q_ptrs := (kt_q_ptrs k)\<lparr>qp_rq_head := qp_rq_head (kt_q_ptrs k) + n\<rparr>\<rparr>"

definition count_tail :: "u32 \<Rightarrow> kth \<Rightarrow> kth" where
  "count_tail n k = k\<lparr>kt_q_ptrs := (kt_q_ptrs k)\<lparr>qp_rq_tail := qp_rq_tail (kt_q_ptrs k) + n\<rparr>\<rparr>"

definition set_oldest :: "u64 \<Rightarrow> kth \<Rightarrow> kth" where
  "set_oldest tsc k = k\<lparr>kt_q_ptrs := (kt_q_ptrs k)\<lparr>qp_oldest_tsc := tsc\<rparr>\<rparr>"

text \<open>The loop over the threads of the overflow list.\<close>

fun drain_loop :: "nat list \<Rightarrow> kth \<Rightarrow> kth" where
  "drain_loop [] k = k\<lparr>kt_rq_overflow := []\<rparr>"
| "drain_loop (th # ths) k =
     (if kt_rq_head k - kt_rq_tail k < RUNTIME_RQ_SIZE then drain_loop ths (rq_put th k)
      else k\<lparr>kt_rq_overflow := th # ths\<rparr>)"

definition drain_overflow :: "kth \<Rightarrow> kth" where
  "drain_overflow k = drain_loop (kt_rq_overflow k) k"

definition work_available :: "u32 \<Rightarrow> u32 \<Rightarrow> bool \<Rightarrow> bool" where
  "work_available rq_tail rq_head softirq_pending \<longleftrightarrow> rq_tail \<noteq> rq_head \<or> softirq_pending"

definition update_oldest_tsc :: "sthreads \<Rightarrow> kth \<Rightarrow> kth" where
  "update_oldest_tsc ths k =
     (if kt_rq_head k \<noteq> kt_rq_tail k then set_oldest (th_ready_tsc (ths (rq_at (kt_rq_tail k) k))) k else k)"

text \<open>Up to \<open>nr\<close> threads between the tail and the head, then from the overflow list; with the new tail and what is
  left of the overflow list.\<close>

fun drain_from :: "nat \<Rightarrow> kth \<Rightarrow> u32 \<Rightarrow> u32 \<Rightarrow> nat list \<Rightarrow> nat list \<times> u32 \<times> nat list" where
  "drain_from 0 k rq_head rq_tail ovf = ([], rq_tail, ovf)"
| "drain_from (Suc nr) k rq_head rq_tail ovf =
     (if wraps_lt rq_tail rq_head
      then case drain_from nr k rq_head (rq_tail + 1) ovf of (ths, tail, ovf) \<Rightarrow> (rq_at rq_tail k # ths, tail, ovf)
      else case ovf of
             [] \<Rightarrow> ([], rq_tail, [])
           | th # ovf \<Rightarrow> (case drain_from nr k rq_head rq_tail ovf of (ths, tail, ovf) \<Rightarrow> (th # ths, tail, ovf)))"

definition drain_threads :: "kth \<Rightarrow> u32 \<Rightarrow> bool \<Rightarrow> nat list \<times> kth" where
  "drain_threads k nr update_tail =
     (case drain_from (unat nr) k (kt_rq_head k) (kt_rq_tail k) (kt_rq_overflow k) of
        (ths, rq_tail, ovf) \<Rightarrow>
          (ths, if update_tail then count_tail (of_nat (length ths)) (k\<lparr>kt_rq_overflow := ovf, kt_rq_tail := rq_tail\<rparr>)
                else k\<lparr>kt_rq_overflow := ovf\<rparr>))"

definition merge_put :: "nat \<Rightarrow> kth \<Rightarrow> kth" where
  "merge_put th l =
     (if kt_rq_head l - kt_rq_tail l \<ge> RUNTIME_RQ_SIZE then l\<lparr>kt_rq_overflow := kt_rq_overflow l @ [th]\<rparr>
      else rq_put th l)"

text \<open>The loop that merges the two lists of threads by the time they became ready.\<close>

fun merge_loop :: "sthreads \<Rightarrow> nat list \<Rightarrow> nat list \<Rightarrow> kth \<Rightarrow> kth" where
  "merge_loop ths (r # rs) (l # ls) k =
     (if th_ready_tsc (ths r) < th_ready_tsc (ths l) then merge_loop ths rs (l # ls) (merge_put r k)
      else merge_loop ths (r # rs) ls (merge_put l k))"
| "merge_loop ths (r # rs) [] k = merge_loop ths rs [] (merge_put r k)"
| "merge_loop ths [] (l # ls) k = merge_loop ths [] ls (merge_put l k)"
| "merge_loop ths [] [] k = k"

definition merge_runqueues :: "sthreads \<Rightarrow> kth \<Rightarrow> u32 \<Rightarrow> kth \<Rightarrow> u32 \<Rightarrow> kth \<times> kth" where
  "merge_runqueues ths l lsize r rsize =
     (let (r_ths, r) = drain_threads r rsize True;
          rsize = of_nat (length r_ths);
          r = update_oldest_tsc ths r;
          (l_ths, l) = drain_threads l lsize False;
          l = l\<lparr>kt_rq_head := 0, kt_rq_tail := 0\<rparr>;
          l = merge_loop ths r_ths l_ths l
      in (update_oldest_tsc ths (count_head rsize l), r))"

text \<open>The number of threads to steal, from the published counts.\<close>

definition num_to_steal :: "u32 \<Rightarrow> u32 \<Rightarrow> u32" where
  "num_to_steal lsize rsize = (if lsize < rsize then min (of_nat (div_up (unat (rsize - lsize)) 2)) RUNTIME_RQ_SIZE else 0)"

text \<open>A thread at the tail and at the head of the queue; its time of becoming ready is set already.\<close>

definition rq_add_tail :: "nat \<Rightarrow> sthreads \<Rightarrow> kth \<Rightarrow> kth" where
  "rq_add_tail th ths k =
     (if kt_rq_head k - kt_rq_tail k \<ge> RUNTIME_RQ_SIZE
      then count_head 1 (k\<lparr>kt_rq_overflow := kt_rq_overflow k @ [th]\<rparr>)
      else let k = rq_put th k;
               k = (if kt_rq_head k - kt_rq_tail k = 1 then set_oldest (th_ready_tsc (ths th)) k else k)
           in count_head 1 k)"

definition rq_add_head :: "nat \<Rightarrow> kth \<times> sthreads \<Rightarrow> kth \<times> sthreads" where
  "rq_add_head th = (\<lambda>(k, ths).
     let ths = (if kt_rq_head k \<noteq> kt_rq_tail k
                then ths(th := (ths th)\<lparr>th_ready_tsc := th_ready_tsc (ths (rq_at (kt_rq_tail k) k))\<rparr>) else ths);
         k = k\<lparr>kt_rq_tail := kt_rq_tail k - 1\<rparr>;
         oldestth = rq_at (kt_rq_tail k) k;
         k = k\<lparr>kt_rq := (kt_rq k)[unat (kt_rq_tail k mod RUNTIME_RQ_SIZE) := th]\<rparr>;
         k = (if kt_rq_head k - kt_rq_tail k > RUNTIME_RQ_SIZE
              then k\<lparr>kt_rq_overflow := oldestth # kt_rq_overflow k, kt_rq_head := kt_rq_head k - 1\<rparr> else k)
     in (count_head 1 (set_oldest (th_ready_tsc (ths th)) k), ths))"

text \<open>The thread at the head of the queue leaves it.\<close>

definition rq_pop :: "sthreads \<Rightarrow> kth \<Rightarrow> nat \<times> kth" where
  "rq_pop ths k =
     (let th = rq_at (kt_rq_tail k) k;
          k = count_tail 1 (k\<lparr>kt_rq_tail := kt_rq_tail k + 1\<rparr>);
          k = (if kt_rq_overflow k \<noteq> [] then drain_overflow k else k)
      in (th, update_oldest_tsc ths k))"

section \<open>The queue as a sequence\<close>

definition ring_list :: "kth \<Rightarrow> u32 \<Rightarrow> nat \<Rightarrow> nat list" where
  "ring_list k tail n = map (\<lambda>i. rq_at (tail + of_nat i) k) [0..<n]"

definition rq_len :: "kth \<Rightarrow> nat" where
  "rq_len k = unat (kt_rq_head k - kt_rq_tail k)"

definition rq_list :: "kth \<Rightarrow> nat list" where
  "rq_list k = ring_list k (kt_rq_tail k) (rq_len k)"

definition runq :: "kth \<Rightarrow> nat list" where
  "runq k = rq_list k @ kt_rq_overflow k"

definition rq_ok :: "kth \<Rightarrow> bool" where
  "rq_ok k \<longleftrightarrow> length (kt_rq k) = 32 \<and> rq_len k \<le> 32"

lemma slot_nat: "unat ((t + of_nat i) mod RUNTIME_RQ_SIZE) = (unat t + i) mod 32" for t :: u32
proof -
  have "unat (t + of_nat i) = (unat t + i) mod 2 ^ 32"
    by (simp add: unat_word_ariths unsigned_of_nat take_bit_eq_mod mod_simps)
  moreover have "(x mod 2 ^ 32) mod 32 = x mod (32 :: nat)" for x by (rule mod_mod_cancel) simp
  ultimately show ?thesis by (simp add: RUNTIME_RQ_SIZE_def unat_mod)
qed

lemma rq_at_nat: "rq_at (t + of_nat i) k = kt_rq k ! ((unat t + i) mod 32)"
  by (simp add: rq_at_def slot_nat)

lemma ring_list_nth: "i < n \<Longrightarrow> ring_list k t n ! i = kt_rq k ! ((unat t + i) mod 32)"
  by (simp add: ring_list_def rq_at_nat)

lemma ring_list_length [simp]: "length (ring_list k t n) = n"
  by (simp add: ring_list_def)

lemma rq_list_length [simp]: "length (rq_list k) = rq_len k"
  by (simp add: rq_list_def)

lemma mod32_distinct: "i < j \<Longrightarrow> j < i + 32 \<Longrightarrow> (a + i) mod 32 \<noteq> (a + j) mod (32 :: nat)"
proof
  assume ij: "i < j" "j < i + 32" and e: "(a + i) mod 32 = (a + j) mod 32"
  then have "32 dvd (a + j) - (a + i)" using mod_eq_dvd_iff_nat [of "a + i" "a + j" 32] by simp
  then show False using ij by (auto dest!: dvd_imp_le)
qed

lemma unat_u32_of_nat: "n \<le> 32 \<Longrightarrow> unat (of_nat n :: u32) = n"
  by (simp add: unsigned_of_nat take_bit_nat_eq_self)

lemma head_eq: "kt_rq_head k = kt_rq_tail k + of_nat (rq_len k)"
  by (simp add: rq_len_def)

lemma rq_len_iff: "n \<le> 32 \<Longrightarrow> kt_rq_head k = kt_rq_tail k + of_nat n \<Longrightarrow> rq_len k = n"
  by (simp add: rq_len_def unat_u32_of_nat)

lemma rq_full_iff:
  assumes "rq_ok k"
  shows "(kt_rq_head k - kt_rq_tail k < RUNTIME_RQ_SIZE) = (rq_len k < 32)"
    and "(kt_rq_head k - kt_rq_tail k \<ge> RUNTIME_RQ_SIZE) = (rq_len k = 32)"
    and "(kt_rq_head k \<noteq> kt_rq_tail k) = (rq_len k \<noteq> 0)"
  using assms by (auto simp: rq_ok_def rq_len_def RUNTIME_RQ_SIZE_def word_less_nat_alt word_le_nat_alt unat_eq_0)

lemma rq_list_at: "rq_len k \<noteq> 0 \<Longrightarrow> rq_at (kt_rq_tail k) k = hd (rq_list k)"
  using ring_list_nth [of 0 "rq_len k" k "kt_rq_tail k"] rq_at_nat [of "kt_rq_tail k" 0 k]
  by (simp add: rq_list_def hd_conv_nth ring_list_def)

lemma rq_put_list:
  assumes ok: "rq_ok k" and room: "rq_len k < 32"
  shows "rq_list (rq_put th k) = rq_list k @ [th]" and "rq_ok (rq_put th k)" and "rq_len (rq_put th k) = Suc (rq_len k)"
proof -
  let ?n = "rq_len k" and ?t = "kt_rq_tail k"
  have h: "kt_rq_head (rq_put th k) = kt_rq_tail (rq_put th k) + of_nat (Suc ?n)"
    using head_eq [of k] by (simp add: rq_put_def)
  then show len: "rq_len (rq_put th k) = Suc ?n" using room by (intro rq_len_iff) simp_all
  then show "rq_ok (rq_put th k)" using ok room by (simp add: rq_ok_def) (simp add: rq_put_def)
  have rq: "kt_rq (rq_put th k) = (kt_rq k)[(unat ?t + ?n) mod 32 := th]"
    using slot_nat [of ?t ?n] head_eq [of k] by (simp add: rq_put_def)
  have tail: "kt_rq_tail (rq_put th k) = ?t" by (simp add: rq_put_def)
  show "rq_list (rq_put th k) = rq_list k @ [th]"
  proof (rule nth_equalityI)
    fix i assume i: "i < length (rq_list (rq_put th k))"
    then have "i \<le> ?n" using len by simp
    have "rq_list (rq_put th k) ! i = (kt_rq k)[(unat ?t + ?n) mod 32 := th] ! ((unat ?t + i) mod 32)"
      using i ring_list_nth [of i "Suc ?n"] by (simp add: rq_list_def len tail rq)
    moreover have "(unat ?t + ?n) mod 32 \<noteq> (unat ?t + i) mod 32" if "i < ?n"
      using mod32_distinct [of i ?n "unat ?t"] that room by simp
    ultimately show "rq_list (rq_put th k) ! i = (rq_list k @ [th]) ! i"
      using \<open>i \<le> ?n\<close> ok ring_list_nth [of i ?n k ?t]
      by (cases "i = ?n") (simp_all add: rq_list_def nth_append rq_ok_def)
  qed (simp add: len)
qed

lemma rq_put_others [simp]: "kt_rq_tail (rq_put th k) = kt_rq_tail k" "kt_rq_overflow (rq_put th k) = kt_rq_overflow k"
    "kt_q_ptrs (rq_put th k) = kt_q_ptrs k"
  by (simp_all add: rq_put_def)

lemma rq_len_cong: "kt_rq_head k' = kt_rq_head k \<Longrightarrow> kt_rq_tail k' = kt_rq_tail k \<Longrightarrow> rq_len k' = rq_len k"
  by (simp add: rq_len_def)

lemma rq_list_cong:
  "kt_rq_head k' = kt_rq_head k \<Longrightarrow> kt_rq_tail k' = kt_rq_tail k \<Longrightarrow> kt_rq k' = kt_rq k \<Longrightarrow> rq_list k' = rq_list k"
  by (simp add: rq_list_def rq_len_def ring_list_def rq_at_def)

lemma rq_ok_cong:
  "kt_rq_head k' = kt_rq_head k \<Longrightarrow> kt_rq_tail k' = kt_rq_tail k \<Longrightarrow> kt_rq k' = kt_rq k \<Longrightarrow> rq_ok k' = rq_ok k"
  by (simp add: rq_ok_def rq_len_def)

lemma rq_upd [simp]:
  "rq_list (k\<lparr>kt_rq_overflow := v\<rparr>) = rq_list k" "rq_ok (k\<lparr>kt_rq_overflow := v\<rparr>) = rq_ok k" "rq_len (k\<lparr>kt_rq_overflow := v\<rparr>) = rq_len k"
  "rq_list (count_head n k) = rq_list k" "rq_ok (count_head n k) = rq_ok k" "rq_len (count_head n k) = rq_len k"
  "rq_list (count_tail n k) = rq_list k" "rq_ok (count_tail n k) = rq_ok k" "rq_len (count_tail n k) = rq_len k"
  "rq_list (set_oldest tsc k) = rq_list k" "rq_ok (set_oldest tsc k) = rq_ok k" "rq_len (set_oldest tsc k) = rq_len k"
  by (simp_all add: count_head_def count_tail_def set_oldest_def rq_list_def rq_len_def ring_list_def rq_at_def rq_ok_def)

lemma kt_upd [simp]:
  "kt_rq_overflow (count_head n k) = kt_rq_overflow k" "kt_rq_overflow (count_tail n k) = kt_rq_overflow k"
  "kt_rq_overflow (set_oldest tsc k) = kt_rq_overflow k"
  "kt_rq_head (count_head n k) = kt_rq_head k" "kt_rq_head (count_tail n k) = kt_rq_head k" "kt_rq_head (set_oldest tsc k) = kt_rq_head k"
  "kt_rq_tail (count_head n k) = kt_rq_tail k" "kt_rq_tail (count_tail n k) = kt_rq_tail k" "kt_rq_tail (set_oldest tsc k) = kt_rq_tail k"
  "kt_rq (count_head n k) = kt_rq k" "kt_rq (count_tail n k) = kt_rq k" "kt_rq (set_oldest tsc k) = kt_rq k"
  by (simp_all add: count_head_def count_tail_def set_oldest_def)

text \<open>What the queue publishes: the number of its threads and the age of its head.\<close>

definition published :: "kth \<Rightarrow> u32" where
  "published k = qp_rq_head (kt_q_ptrs k) - qp_rq_tail (kt_q_ptrs k)"

lemma published_upd [simp]:
  "published (k\<lparr>kt_rq_overflow := v\<rparr>) = published k" "published (count_head n k) = published k + n"
  "published (count_tail n k) = published k - n" "published (set_oldest tsc k) = published k" "published (rq_put th k) = published k"
  by (simp_all add: published_def count_head_def count_tail_def set_oldest_def)

lemma drain_loop_spec:
  assumes "rq_ok k"
  shows "rq_list (drain_loop ovs k) @ kt_rq_overflow (drain_loop ovs k) = rq_list k @ ovs \<and> rq_ok (drain_loop ovs k) \<and>
    (kt_rq_overflow (drain_loop ovs k) = [] \<or> rq_len (drain_loop ovs k) = 32) \<and> kt_rq_tail (drain_loop ovs k) = kt_rq_tail k \<and>
    kt_q_ptrs (drain_loop ovs k) = kt_q_ptrs k \<and> rq_len k \<le> rq_len (drain_loop ovs k)"
  using assms
proof (induction ovs arbitrary: k)
  case (Cons th ths)
  show ?case
  proof (cases "rq_len k < 32")
    case True
    then show ?thesis using Cons.IH [of "rq_put th k"] rq_put_list [OF Cons.prems True] rq_full_iff(1) [OF Cons.prems] by simp
  next
    case False
    then show ?thesis using Cons.prems rq_full_iff(1) [OF Cons.prems] by (simp add: rq_ok_def)
  qed
qed simp

lemma drain_overflow_spec:
  assumes "rq_ok k"
  shows "runq (drain_overflow k) = runq k" and "rq_ok (drain_overflow k)"
    and "kt_rq_overflow (drain_overflow k) = [] \<or> rq_len (drain_overflow k) = 32"
    and "published (drain_overflow k) = published k"
    and "kt_q_ptrs (drain_overflow k) = kt_q_ptrs k" and "rq_len k \<le> rq_len (drain_overflow k)"
  using drain_loop_spec [OF assms, of "kt_rq_overflow k"] by (simp_all add: drain_overflow_def runq_def published_def)

lemma update_oldest_upd [simp]:
  "runq (update_oldest_tsc ths k) = runq k" "rq_ok (update_oldest_tsc ths k) = rq_ok k"
  "published (update_oldest_tsc ths k) = published k" "rq_len (update_oldest_tsc ths k) = rq_len k"
  "kt_rq_overflow (update_oldest_tsc ths k) = kt_rq_overflow k"
  by (simp_all add: update_oldest_tsc_def runq_def)

lemma runq_upd [simp]: "runq (count_head n k) = runq k" "runq (count_tail n k) = runq k" "runq (set_oldest tsc k) = runq k"
  by (simp_all add: runq_def)

section \<open>Operations on the sequence\<close>

text \<open>Every queue is drained: threads overflow only when the ring is full.\<close>

definition drained :: "kth \<Rightarrow> bool" where
  "drained k \<longleftrightarrow> kt_rq_overflow k = [] \<or> rq_len k = 32"

lemma merge_put_spec:
  assumes "rq_ok k" and "drained k"
  shows "runq (merge_put th k) = runq k @ [th]" and "rq_ok (merge_put th k)" and "drained (merge_put th k)"
    and "published (merge_put th k) = published k"
  using assms rq_put_list [OF assms(1), of th] rq_full_iff(2) [OF assms(1)]
  by (cases "rq_len k = 32"; simp add: merge_put_def runq_def drained_def rq_ok_def)+

lemma rq_add_tail_spec:
  assumes "rq_ok k" and "drained k"
  shows "runq (rq_add_tail th ths k) = runq k @ [th]" and "rq_ok (rq_add_tail th ths k)"
    and "published (rq_add_tail th ths k) = published k + 1" and "drained (rq_add_tail th ths k)"
  using assms rq_put_list [OF assms(1), of th] rq_full_iff(2) [OF assms(1)]
  by (cases "rq_len k = 32"; simp add: rq_add_tail_def runq_def drained_def rq_ok_def Let_def)+

lemma rq_tail_down:
  assumes ok: "rq_ok k" and th: "k' = k\<lparr>kt_rq_tail := kt_rq_tail k - 1, kt_rq := (kt_rq k)[unat ((kt_rq_tail k - 1) mod RUNTIME_RQ_SIZE) := th]\<rparr>"
  shows "kt_rq_head k' - kt_rq_tail k' = of_nat (Suc (rq_len k))"
    and "ring_list k' (kt_rq_tail k') (min 32 (Suc (rq_len k))) = th # ring_list k (kt_rq_tail k) (min 31 (rq_len k))"
proof -
  let ?n = "rq_len k" and ?t = "kt_rq_tail k - 1"
  show "kt_rq_head k' - kt_rq_tail k' = of_nat (Suc ?n)" using head_eq [of k] by (simp add: th)
  have t: "kt_rq_tail k = ?t + of_nat 1" by simp
  have slot: "unat (?t mod RUNTIME_RQ_SIZE) = unat ?t mod 32" using slot_nat [of ?t 0] by simp
  have tail: "kt_rq_tail k' = ?t" and rq: "kt_rq k' = (kt_rq k)[unat ?t mod 32 := th]" by (simp_all add: th slot)
  have len: "length (kt_rq k) = 32" using ok by (simp add: rq_ok_def)
  have down: "ring_list k (kt_rq_tail k) m ! i = kt_rq k ! ((unat ?t + Suc i) mod 32)" if "i < m" for i m
  proof -
    have "ring_list k (kt_rq_tail k) m ! i = rq_at (?t + of_nat (Suc i)) k" using that by (simp add: ring_list_def add.commute)
    then show ?thesis by (simp only: rq_at_nat)
  qed
  show "ring_list k' (kt_rq_tail k') (min 32 (Suc ?n)) = th # ring_list k (kt_rq_tail k) (min 31 ?n)"
  proof (rule nth_equalityI)
    fix i assume "i < length (ring_list k' (kt_rq_tail k') (min 32 (Suc ?n)))"
    then have i: "i < min 32 (Suc ?n)" by simp
    have v: "ring_list k' (kt_rq_tail k') (min 32 (Suc ?n)) ! i = (kt_rq k)[unat ?t mod 32 := th] ! ((unat ?t + i) mod 32)"
      using ring_list_nth [OF i] by (simp add: tail rq)
    show "ring_list k' (kt_rq_tail k') (min 32 (Suc ?n)) ! i = (th # ring_list k (kt_rq_tail k) (min 31 ?n)) ! i"
    proof (cases i)
      case 0
      then show ?thesis using v len by simp
    next
      case (Suc j)
      have "unat ?t mod 32 \<noteq> (unat ?t + i) mod 32" using mod32_distinct [of 0 i "unat ?t"] i Suc by simp
      then show ?thesis using v i Suc down [of j "min 31 ?n"] by simp
    qed
  qed simp
qed

lemma ring_list_take: "m \<le> n \<Longrightarrow> ring_list k t m = take m (ring_list k t n)"
  by (rule nth_equalityI) (simp_all add: ring_list_nth)

lemma rq_add_head_spec:
  assumes ok: "rq_ok k" and r: "rq_add_head th (k, ths) = (k', ths')"
  shows "runq k' = th # runq k" and "rq_ok k'" and "published k' = published k + 1"
    and "ths' = ths(th := (ths th)\<lparr>th_ready_tsc := (if rq_len k = 0 then th_ready_tsc (ths th) else th_ready_tsc (ths (hd (runq k))))\<rparr>)"
    and "qp_oldest_tsc (kt_q_ptrs k') = th_ready_tsc (ths' (hd (runq k')))" and "rq_len k' \<noteq> 0"
proof -
  let ?n = "rq_len k"
  define k1 where "k1 = k\<lparr>kt_rq_tail := kt_rq_tail k - 1, kt_rq := (kt_rq k)[unat ((kt_rq_tail k - 1) mod RUNTIME_RQ_SIZE) := th]\<rparr>"
  note k1 = rq_tail_down [OF ok k1_def]
  have n: "?n \<le> 32" using ok by (simp add: rq_ok_def)
  have u: "unat (of_nat (Suc ?n) :: u32) = Suc ?n" using n by (subst unsigned_of_nat) (simp add: take_bit_nat_eq_self)
  have gt: "kt_rq_head k1 - kt_rq_tail k1 > RUNTIME_RQ_SIZE \<longleftrightarrow> ?n = 32"
    using n by (simp only: k1(1) word_less_nat_alt u) (auto simp: RUNTIME_RQ_SIZE_def)
  define k2 where "k2 = (if ?n = 32 then k1\<lparr>kt_rq_overflow := rq_at (kt_rq_tail k - 1) k # kt_rq_overflow k, kt_rq_head := kt_rq_head k - 1\<rparr> else k1)"
  have hd: "rq_at (kt_rq_tail k) k = hd (runq k)" if "?n \<noteq> 0"
    using rq_list_at [OF that] that by (metis hd_append2 length_greater_0_conv neq0_conv rq_list_length runq_def)
  show ths: "ths' = ths(th := (ths th)\<lparr>th_ready_tsc := (if ?n = 0 then th_ready_tsc (ths th) else th_ready_tsc (ths (hd (runq k))))\<rparr>)"
  proof -
    have "(ths th)\<lparr>th_ready_tsc := th_ready_tsc (ths th)\<rparr> = ths th" by simp
    moreover have "ths' = snd (rq_add_head th (k, ths))" using r by simp
    ultimately show ?thesis using hd rq_full_iff(3) [OF ok] by (simp add: rq_add_head_def Let_def)
  qed
  have k': "k' = count_head 1 (set_oldest (th_ready_tsc (ths' th)) k2)"
    using r gt by (auto simp: rq_add_head_def Let_def k2_def k1_def rq_at_def)
  have len: "rq_len k2 = min 32 (Suc ?n)"
  proof (cases "?n = 32")
    case True
    then show ?thesis using k1(1) n u by (intro rq_len_iff) (simp_all add: k2_def k1_def algebra_simps)
  next
    case False
    then have "rq_len k2 = unat (kt_rq_head k1 - kt_rq_tail k1)" unfolding k2_def by (simp only: if_False rq_len_def)
    also have "\<dots> = Suc ?n" by (simp only: k1(1) u)
    finally show ?thesis using False n by simp
  qed
  have last: "rq_at (kt_rq_tail k - 1) k = rq_list k ! 31" if "?n = 32"
  proof -
    have "rq_list k ! 31 = rq_at (kt_rq_tail k + of_nat 31) k" using that by (simp add: rq_list_def ring_list_def)
    also have "\<dots> = rq_at (kt_rq_tail k - 1 + of_nat 32) k" by (simp add: add.commute)
    also have "\<dots> = rq_at (kt_rq_tail k - 1 + of_nat 0) k" by (simp only: rq_at_nat) simp
    finally show ?thesis by simp
  qed
  have "rq_list k2 = ring_list k1 (kt_rq_tail k1) (min 32 (Suc ?n))"
    using len by (auto simp: rq_list_def k2_def ring_list_def rq_at_def)
  then have list: "rq_list k2 = th # take 31 (rq_list k)"
    using k1(2) ring_list_take [of "min 31 ?n" ?n k "kt_rq_tail k"] by (simp add: rq_list_def min_def)
  show rq: "runq k' = th # runq k"
  proof (cases "?n = 32")
    case True
    have "rq_list k = take 31 (rq_list k) @ [rq_list k ! 31]"
      using True take_Suc_conv_app_nth [of 31 "rq_list k"] by simp
    then show ?thesis using True list last by (simp add: k' runq_def k2_def k1_def)
  next
    case False
    then show ?thesis using list n by (simp add: k' runq_def k2_def k1_def)
  qed
  show "rq_ok k'" using len ok by (simp add: k' rq_ok_def) (simp add: k2_def k1_def)
  show "rq_len k' \<noteq> 0" using len by (simp add: k')
  show "published k' = published k + 1" by (simp add: k') (simp add: k2_def k1_def published_def)
  show "qp_oldest_tsc (kt_q_ptrs k') = th_ready_tsc (ths' (hd (runq k')))"
    by (simp add: rq) (simp add: k' count_head_def set_oldest_def)
qed

lemma rq_step:
  assumes "rq_ok k" and "rq_len k \<noteq> 0"
  shows "rq_list (k\<lparr>kt_rq_tail := kt_rq_tail k + 1\<rparr>) = tl (rq_list k)" and "rq_ok (k\<lparr>kt_rq_tail := kt_rq_tail k + 1\<rparr>)"
    and "rq_len (k\<lparr>kt_rq_tail := kt_rq_tail k + 1\<rparr>) = rq_len k - 1"
proof -
  let ?k = "k\<lparr>kt_rq_tail := kt_rq_tail k + 1\<rparr>"
  obtain m where m: "rq_len k = Suc m" using assms(2) by (cases "rq_len k") auto
  show len: "rq_len ?k = rq_len k - 1"
    using head_eq [of k] assms m by (intro rq_len_iff) (simp_all add: rq_ok_def)
  show "rq_ok ?k" using assms(1) len by (auto simp: rq_ok_def)
  have "rq_at (kt_rq_tail k + 1 + of_nat i) ?k = rq_at (kt_rq_tail k + of_nat (Suc i)) k" for i
    by (simp add: rq_at_def add.assoc)
  then show "rq_list ?k = tl (rq_list k)"
    by (simp add: rq_list_def len ring_list_def m map_tl [symmetric] del: upt_Suc of_nat_Suc)
      (simp add: upt_conv_Cons map_Suc_upt [symmetric] del: upt_Suc of_nat_Suc)
qed

lemma rq_pop_spec:
  assumes ok: "rq_ok k" and ne: "rq_len k \<noteq> 0" and pop: "rq_pop ths k = (th, k')"
  shows "runq k = th # runq k'" and "rq_ok k'" and "published k' = published k - 1" and "drained k'"
proof -
  define k1 where "k1 = count_tail 1 (k\<lparr>kt_rq_tail := kt_rq_tail k + 1\<rparr>)"
  define k2 where "k2 = (if kt_rq_overflow k1 \<noteq> [] then drain_overflow k1 else k1)"
  note st = rq_step [OF ok ne]
  have k1: "rq_ok k1" "rq_list k1 = tl (rq_list k)" "published k1 = published k - 1" "kt_rq_overflow k1 = kt_rq_overflow k"
    by (simp_all add: k1_def st) (simp add: published_def count_tail_def)
  have k2: "runq k2 = runq k1" "rq_ok k2" "published k2 = published k1" "drained k2"
    using drain_overflow_spec [OF k1(1)] k1(1) by (auto simp: k2_def drained_def)
  have th: "th = hd (rq_list k)" and k': "k' = update_oldest_tsc ths k2"
    using pop rq_list_at [OF ne] by (auto simp: rq_pop_def k2_def k1_def Let_def)
  have "rq_list k \<noteq> []" using ne by (metis length_0_conv rq_list_length)
  moreover have "runq k' = tl (rq_list k) @ kt_rq_overflow k" using k1(2,4) k2(1) by (simp add: k') (simp add: runq_def)
  ultimately show "runq k = th # runq k'" using th by (simp add: runq_def)
  show "rq_ok k'" "published k' = published k - 1" "drained k'" using k1(3) k2 by (simp_all add: k' drained_def)
qed

lemma wraps_len:
  assumes "m \<le> 32"
  shows "wraps_lt t (t + of_nat m) \<longleftrightarrow> m \<noteq> 0"
  using wraps_window(1) [of m t] assms by simp

lemma drain_from_spec:
  assumes "m \<le> 32"
  shows "drain_from n k (t + of_nat m) t ovf =
    (take n (ring_list k t m @ ovf), t + of_nat (min n m), drop (n - m) ovf)"
  using assms
proof (induction n arbitrary: t m ovf)
  case (Suc n)
  show ?case
  proof (cases m)
    case 0
    then show ?thesis using Suc.IH [of 0 t] wraps_len [of 0 t] by (cases ovf) (simp_all add: ring_list_def)
  next
    case (Suc m')
    have "ring_list k t (Suc m') = rq_at t k # ring_list k (t + 1) m'"
      by (simp add: ring_list_def upt_conv_Cons map_Suc_upt [symmetric] add.assoc del: upt_Suc)
    then show ?thesis using Suc Suc.IH [of m' "t + 1"] Suc.prems wraps_len [of m t] by (simp add: add.assoc)
  qed
qed simp

lemma drain_threads_spec:
  assumes ok: "rq_ok k" and d: "drain_threads k nr True = (ts, k')"
  shows "ts = take (unat nr) (runq k)" and "runq k' = drop (unat nr) (runq k)" and "rq_ok k'"
    and "published k' = published k - of_nat (length ts)"
proof -
  let ?m = "rq_len k" and ?n = "unat nr"
  have m: "?m \<le> 32" using ok by (simp add: rq_ok_def)
  have f: "drain_from ?n k (kt_rq_head k) (kt_rq_tail k) (kt_rq_overflow k) =
      (take ?n (runq k), kt_rq_tail k + of_nat (min ?n ?m), drop (?n - ?m) (kt_rq_overflow k))"
    using drain_from_spec [OF m, of ?n k "kt_rq_tail k"] head_eq [of k] by (simp add: runq_def rq_list_def)
  define k1 where "k1 = k\<lparr>kt_rq_overflow := drop (?n - ?m) (kt_rq_overflow k), kt_rq_tail := kt_rq_tail k + of_nat (min ?n ?m)\<rparr>"
  show ts: "ts = take ?n (runq k)" using d f by (simp add: drain_threads_def)
  have k': "k' = count_tail (of_nat (length ts)) k1" using d f ts by (simp add: drain_threads_def k1_def)
  have len: "rq_len k1 = ?m - min ?n ?m"
  proof (rule rq_len_iff)
    have "(of_nat (min ?n ?m) + of_nat (?m - min ?n ?m) :: u32) = of_nat ?m" by (simp flip: of_nat_add)
    then show "kt_rq_head k1 = kt_rq_tail k1 + of_nat (?m - min ?n ?m)" using head_eq [of k] by (simp add: k1_def add.assoc)
  qed (use m in simp)
  have "rq_list k1 = drop ?n (rq_list k)"
  proof (rule nth_equalityI)
    fix i assume "i < length (rq_list k1)"
    then have i: "i < ?m - min ?n ?m" by (simp add: len)
    then have n: "min ?n ?m = ?n" by (cases "?n \<le> ?m") (simp_all add: min_def)
    have "rq_list k1 ! i = rq_at (kt_rq_tail k1 + of_nat i) k1" using i n by (simp add: rq_list_def len ring_list_def)
    also have "\<dots> = rq_at (kt_rq_tail k + of_nat ?n + of_nat i) k" using n by (simp add: k1_def rq_at_def)
    also have "\<dots> = rq_at (kt_rq_tail k + of_nat (?n + i)) k" by (simp add: add.assoc)
    also have "\<dots> = drop ?n (rq_list k) ! i"
      using i n by (simp add: rq_list_def ring_list_def del: of_nat_add)
    finally show "rq_list k1 ! i = drop ?n (rq_list k) ! i" .
  qed (simp add: len min_def)
  then show "runq k' = drop ?n (runq k)" by (simp add: k' runq_def) (simp add: k1_def)
  show "rq_ok k'" using len ok m by (simp add: k' rq_ok_def) (simp add: k1_def)
  show "published k' = published k - of_nat (length ts)" by (simp add: k') (simp add: k1_def published_def)
qed

section \<open>Stealing\<close>

text \<open>The merge of two sequences by a key; the second one goes first on equal keys.\<close>

fun merge_by :: "('a \<Rightarrow> u64) \<Rightarrow> 'a list \<Rightarrow> 'a list \<Rightarrow> 'a list" where
  "merge_by f (r # rs) (l # ls) = (if f r < f l then r # merge_by f rs (l # ls) else l # merge_by f (r # rs) ls)"
| "merge_by f rs [] = rs"
| "merge_by f [] ls = ls"

lemma merge_by_mset: "mset (merge_by f rs ls) = mset rs + mset ls"
  by (induction f rs ls rule: merge_by.induct) auto

lemma merge_by_set: "set (merge_by f rs ls) = set rs \<union> set ls"
  using arg_cong [OF merge_by_mset, of set_mset f rs ls] by simp

lemma merge_by_sorted:
  "sorted (map f rs) \<Longrightarrow> sorted (map f ls) \<Longrightarrow> sorted (map f (merge_by f rs ls))"
  by (induction f rs ls rule: merge_by.induct) (auto simp: merge_by_set less_imp_le)

lemma merge_by_length: "length (merge_by f rs ls) = length rs + length ls"
  using arg_cong [OF merge_by_mset, of size f rs ls] by simp

lemma merge_loop_spec:
  assumes "rq_ok k" and "drained k"
  shows "runq (merge_loop ths rs ls k) = runq k @ merge_by (\<lambda>t. th_ready_tsc (ths t)) rs ls \<and> rq_ok (merge_loop ths rs ls k) \<and>
    drained (merge_loop ths rs ls k) \<and> published (merge_loop ths rs ls k) = published k"
  using assms
proof (induction ths rs ls k rule: merge_loop.induct)
  case (1 ths r rs l ls k)
  then show ?case using merge_put_spec [OF 1(3,4)] by simp
next
  case (2 ths r rs k)
  then show ?case using merge_put_spec [OF 2(2,3)] by (cases rs) simp_all
next
  case (3 ths l ls k)
  then show ?case using merge_put_spec [OF 3(2,3)] by (cases ls) simp_all
qed simp

lemma drain_all_spec:
  assumes ok: "rq_ok k" and d: "drain_threads k nr False = (ts, k')" and n: "length (runq k) \<le> unat nr"
  shows "ts = runq k" and "kt_rq_overflow k' = []" and "kt_rq k' = kt_rq k" and "published k' = published k"
proof -
  have m: "rq_len k \<le> 32" using ok by (simp add: rq_ok_def)
  have f: "drain_from (unat nr) k (kt_rq_head k) (kt_rq_tail k) (kt_rq_overflow k) =
      (take (unat nr) (runq k), kt_rq_tail k + of_nat (min (unat nr) (rq_len k)), drop (unat nr - rq_len k) (kt_rq_overflow k))"
    using drain_from_spec [OF m, of "unat nr" k "kt_rq_tail k"] head_eq [of k] by (simp add: runq_def rq_list_def)
  show "ts = runq k" "kt_rq_overflow k' = []" "kt_rq k' = kt_rq k" "published k' = published k"
    using d f n by (auto simp: drain_threads_def runq_def)
qed

lemma runq_reset:
  assumes "rq_ok k" and "kt_rq_overflow k' = []" and "kt_rq k' = kt_rq k"
  shows "rq_ok (k'\<lparr>kt_rq_head := 0, kt_rq_tail := 0\<rparr>)" and "runq (k'\<lparr>kt_rq_head := 0, kt_rq_tail := 0\<rparr>) = []"
    and "drained (k'\<lparr>kt_rq_head := 0, kt_rq_tail := 0\<rparr>)"
proof -
  let ?k = "k'\<lparr>kt_rq_head := 0, kt_rq_tail := 0\<rparr>"
  have "rq_len ?k = 0" by (simp add: rq_len_def)
  then show "rq_ok ?k" "runq ?k = []" "drained ?k"
    using assms by (simp_all add: rq_ok_def runq_def drained_def rq_list_def ring_list_def)
qed

lemma merge_runqueues_spec:
  assumes okl: "rq_ok l" and okr: "rq_ok r" and pub: "unat (published l) = length (runq l)"
    and merge: "merge_runqueues ths l (published l) r nr = (l', r')"
  shows "runq r' = drop (unat nr) (runq r)"
    and "runq l' = merge_by (\<lambda>t. th_ready_tsc (ths t)) (take (unat nr) (runq r)) (runq l)"
    and "rq_ok l'" and "rq_ok r'" and "drained l'"
    and "published l' = published l + of_nat (length (take (unat nr) (runq r)))"
    and "published r' = published r - of_nat (length (take (unat nr) (runq r)))"
proof -
  obtain tr r1 where r1: "drain_threads r nr True = (tr, r1)" by fastforce
  obtain tl l1 where l1: "drain_threads l (published l) False = (tl, l1)" by fastforce
  note r = drain_threads_spec [OF okr r1]
  note l = drain_all_spec [OF okl l1 eq_imp_le [OF pub [symmetric]]]
  note l0 = runq_reset [OF okl l(2,3)]
  define l2 where "l2 = l1\<lparr>kt_rq_head := 0, kt_rq_tail := 0\<rparr>"
  define l3 where "l3 = merge_loop ths tr tl l2"
  have l2: "rq_ok l2" "runq l2 = []" "drained l2" "published l2 = published l"
    using l0 l(4) by (simp_all add: l2_def) (simp add: published_def)
  have l3: "runq l3 = merge_by (\<lambda>t. th_ready_tsc (ths t)) tr tl" "rq_ok l3" "drained l3" "published l3 = published l"
    using merge_loop_spec [OF l2(1,3), of ths tr tl] l2 by (simp_all add: l3_def)
  have l': "l' = update_oldest_tsc ths (count_head (of_nat (length tr)) l3)" and r': "r' = update_oldest_tsc ths r1"
    using merge by (auto simp: merge_runqueues_def r1 l1 l2_def l3_def Let_def)
  show "runq r' = drop (unat nr) (runq r)" "rq_ok r'"
    "published r' = published r - of_nat (length (take (unat nr) (runq r)))" using r by (simp_all add: r')
  show "runq l' = merge_by (\<lambda>t. th_ready_tsc (ths t)) (take (unat nr) (runq r)) (runq l)" "rq_ok l'" "drained l'"
    "published l' = published l + of_nat (length (take (unat nr) (runq r)))"
    using l3 r(1) l(1) by (simp_all add: l' drained_def)
qed

end
