(* ===== verification/Sched.thy ===== *)
theory Sched
  imports Sched_Queue "HOL-Library.Monad_Syntax"
begin

text \<open>
  The scheduler of user-level threads, \<^verbatim>\<open>runtime/sched.c\<close> and \<^verbatim>\<open>runtime/softirq.c\<close>: making threads ready, softirqs,
  stealing, entering the scheduler and switching stacks, as operations on the kthreads and the threads of a process; and
  its runs.  A step of \<^verbatim>\<open>sched_act\<close> is what one kthread does under its lock, or without the lock on readings of what
  others may change.  What is pending, the clock, and the choices of \<^verbatim>\<open>schedule\<close> that depend on them are inputs.  A
  kthread that cedes its core parks between two steps; that \<^verbatim>\<open>schedule\<close> parks when it finds no work, statistics counters and
  the save area of vector registers are left out.
\<close>

section \<open>Values kept with a thread\<close>

text \<open>\<open>self\<close> is the running thread of the kthread; \<open>None\<close> results are the checks that there is one.\<close>

definition get_self :: "nat option \<Rightarrow> (sthread \<Rightarrow> u64) \<Rightarrow> sthreads \<Rightarrow> u64 option" where
  "get_self self f ths = map_option (\<lambda>t. f (ths t)) self"

definition set_self :: "nat option \<Rightarrow> (sthread \<Rightarrow> sthread) \<Rightarrow> sthreads \<Rightarrow> sthreads option" where
  "set_self self f ths = map_option (\<lambda>t. ths(t := f (ths t))) self"

definition get_uthread_specific :: "nat option \<Rightarrow> sthreads \<Rightarrow> u64 option" where
  "get_uthread_specific self = get_self self th_tlsvar"

definition set_uthread_specific :: "u64 \<Rightarrow> nat option \<Rightarrow> sthreads \<Rightarrow> sthreads option" where
  "set_uthread_specific val self = set_self self (th_tlsvar_update (\<lambda>_. val))"

definition get_acc_qdel :: "nat option \<Rightarrow> sthreads \<Rightarrow> u64 option" where
  "get_acc_qdel self = get_self self th_acc_qdel"

definition get_acc_qdel_us :: "u64 \<Rightarrow> nat option \<Rightarrow> sthreads \<Rightarrow> u64 option" where
  "get_acc_qdel_us cycles_per_us self ths = map_option (\<lambda>d. d div cycles_per_us) (get_acc_qdel self ths)"

definition set_acc_qdel :: "u64 \<Rightarrow> nat option \<Rightarrow> sthreads \<Rightarrow> sthreads option" where
  "set_acc_qdel del self = set_self self (th_acc_qdel_update (\<lambda>_. del))"

definition incr_acc_qdel :: "u64 \<Rightarrow> nat option \<Rightarrow> sthreads \<Rightarrow> sthreads option" where
  "incr_acc_qdel del self = set_self self (\<lambda>t. t\<lparr>th_acc_qdel := th_acc_qdel t + del\<rparr>)"

definition incr_acc_qdel_other :: "nat option \<Rightarrow> u64 \<Rightarrow> sthreads \<Rightarrow> sthreads option" where
  "incr_acc_qdel_other th del = set_self th (\<lambda>t. t\<lparr>th_acc_qdel := th_acc_qdel t + del\<rparr>)"

definition incr_acc_qdel_us :: "u64 \<Rightarrow> u64 \<Rightarrow> nat option \<Rightarrow> sthreads \<Rightarrow> sthreads option" where
  "incr_acc_qdel_us cycles_per_us us = incr_acc_qdel (us * cycles_per_us)"

definition set_rpc_ctx :: "u64 \<Rightarrow> nat option \<Rightarrow> sthreads \<Rightarrow> sthreads option" where
  "set_rpc_ctx c self = set_self self (th_rpc_ctx_update (\<lambda>_. c))"

definition get_rpc_ctx :: "nat option \<Rightarrow> sthreads \<Rightarrow> u64 option" where
  "get_rpc_ctx self = get_self self th_rpc_ctx"

text \<open>Delays of a thread add up, whatever is done with its other values in between.\<close>

lemma acc_qdel_adds:
  assumes "incr_acc_qdel d self ths = Some ths1" and "set_rpc_ctx c self ths1 = Some ths2" and "incr_acc_qdel d' self ths2 = Some ths3"
  shows "get_acc_qdel self ths3 = map_option (\<lambda>q. q + (d + d')) (get_acc_qdel self ths)" and "get_rpc_ctx self ths3 = map_option (\<lambda>_. c) self"
  using assms by (cases self; auto simp: incr_acc_qdel_def set_rpc_ctx_def get_acc_qdel_def get_rpc_ctx_def get_self_def set_self_def)+

section \<open>Making threads ready\<close>

text \<open>\<open>None\<close> is the failed check that the thread is not ready already; \<open>t1\<close> and \<open>t2\<close> are readings of the clock.\<close>

definition thread_ready_prepare :: "u64 \<Rightarrow> u64 \<Rightarrow> nat \<Rightarrow> sthreads \<Rightarrow> sthreads option" where
  "thread_ready_prepare t1 t2 th ths =
     (if th_thread_ready (ths th) then None
      else Some (ths(th := (ths th)\<lparr>th_thread_ready := True, th_ready_tsc := t1, th_enque_ts := t2\<rparr>)))"

definition thread_ready_locked :: "u64 \<Rightarrow> u64 \<Rightarrow> nat \<Rightarrow> kth \<times> sthreads \<Rightarrow> (kth \<times> sthreads) option" where
  "thread_ready_locked t1 t2 th = (\<lambda>(k, ths).
     let k = (if kt_rq_overflow k \<noteq> [] then drain_overflow k else k)
     in do { ths \<leftarrow> thread_ready_prepare t1 t2 th ths;
             Some (rq_add_tail th ths k, ths) })"

definition thread_ready_head_locked :: "u64 \<Rightarrow> u64 \<Rightarrow> nat \<Rightarrow> kth \<times> sthreads \<Rightarrow> (kth \<times> sthreads) option" where
  "thread_ready_head_locked t1 t2 th = (\<lambda>(k, ths).
     do { ths \<leftarrow> thread_ready_prepare t1 t2 th ths;
          Some (rq_add_head th (k, ths)) })"

text \<open>\<open>tail_seen\<close> and \<open>empty_seen\<close> are what the owner of the queue reads of its tail and its overflow list without
  the lock, while another kthread may be stealing.\<close>

definition thread_ready :: "u32 \<Rightarrow> bool \<Rightarrow> u64 \<Rightarrow> u64 \<Rightarrow> nat \<Rightarrow> kth \<times> sthreads \<Rightarrow> (kth \<times> sthreads) option" where
  "thread_ready tail_seen empty_seen t1 t2 th = (\<lambda>(k, ths).
     do { ths \<leftarrow> thread_ready_prepare t1 t2 th ths;
          if kt_rq_head k - tail_seen \<ge> RUNTIME_RQ_SIZE \<or> \<not> empty_seen
          then let k = drain_overflow (k\<lparr>kt_rq_overflow := kt_rq_overflow k @ [th]\<rparr>)
               in Some (count_head 1 k, ths)
          else let k = rq_put th k;
                   k = (if kt_rq_head k - kt_rq_tail k = 1 then set_oldest (th_ready_tsc (ths th)) k else k)
               in Some (count_head 1 k, ths) })"

definition thread_ready_head :: "u64 \<Rightarrow> u64 \<Rightarrow> nat \<Rightarrow> kth \<times> sthreads \<Rightarrow> (kth \<times> sthreads) option" where
  "thread_ready_head t1 t2 th = (\<lambda>(k, ths).
     do { ths \<leftarrow> thread_ready_prepare t1 t2 th ths;
          Some (rq_add_head th (k, ths)) })"

section \<open>Kthreads\<close>

text \<open>What the scheduler still tries: local softirqs, or stealing from a kthread.\<close>

datatype sched_stage = SLocal | SSteal nat

text \<open>Where a kthread stands: it runs a thread; its thread is in \<^verbatim>\<open>enter_schedule\<close>; it is about to enter
  \<^verbatim>\<open>schedule\<close>, on the stack of its last thread unless that has ended; it looks for work; it switches from the
  stack of a thread to the next thread; it has ceded its core and is parked; or it ends the program.\<close>

datatype kpc = KThread nat | KPark nat | KEnter "nat option" | KSched "sched_stage list" | KJump "nat option" nat | KCeded | KShutdown

record sched =
  sc_maxks :: nat
  sc_k :: "nat \<Rightarrow> kth"
  sc_th :: sthreads
  sc_pc :: "nat \<Rightarrow> kpc"
  sc_live :: "nat set"

text \<open>An operation on the queue of kthread \<open>l\<close> and the threads.\<close>

definition on_k :: "nat \<Rightarrow> (kth \<times> sthreads \<Rightarrow> (kth \<times> sthreads) option) \<Rightarrow> sched \<Rightarrow> sched option" where
  "on_k l f s = do { (k, ths) \<leftarrow> f (sc_k s l, sc_th s); Some (s\<lparr>sc_k := (sc_k s)(l := k), sc_th := ths\<rparr>) }"

definition set_pc :: "nat \<Rightarrow> kpc \<Rightarrow> sched \<Rightarrow> sched" where
  "set_pc l p s = s\<lparr>sc_pc := (sc_pc s)(l := p)\<rparr>"

definition upd_th :: "nat \<Rightarrow> (sthread \<Rightarrow> sthread) \<Rightarrow> sched \<Rightarrow> sched" where
  "upd_th t f s = s\<lparr>sc_th := (sc_th s)(t := f (sc_th s t))\<rparr>"

definition upd_k :: "nat \<Rightarrow> (kth \<Rightarrow> kth) \<Rightarrow> sched \<Rightarrow> sched" where
  "upd_k l f s = s\<lparr>sc_k := (sc_k s)(l := f (sc_k s l))\<rparr>"

section \<open>Softirqs\<close>

text \<open>What is pending, the thread the network driver polls with if it is waiting and has packets, and the clock.\<close>

record softirq_env =
  si_iokernel :: bool
  si_timer :: bool
  si_storage :: bool
  si_rx :: "nat option"
  si_now :: u64
  si_tsc :: "nat \<Rightarrow> u64"

definition rx_poll_locked :: "u64 \<Rightarrow> u64 \<Rightarrow> nat option \<Rightarrow> nat \<Rightarrow> sched \<Rightarrow> (bool \<times> sched) option" where
  "rx_poll_locked t1 t2 rx l s =
     (case rx of
        None \<Rightarrow> Some (False, s)
      | Some th \<Rightarrow> do { s \<leftarrow> on_k l (thread_ready_locked t1 t2 th) s; Some (True, s) })"

definition softirq_start :: "bool \<Rightarrow> (kth \<Rightarrow> kth) \<Rightarrow> nat \<Rightarrow> u64 \<Rightarrow> u64 \<Rightarrow> nat \<Rightarrow> nat \<Rightarrow> bool \<times> sched \<Rightarrow> (bool \<times> sched) option"
where
  "softirq_start go mark th t1 t2 l k = (\<lambda>(work_done, s).
     if go then do { s \<leftarrow> on_k l (thread_ready_head_locked t1 t2 th) (upd_k k mark s); Some (True, s) }
     else Some (work_done, s))"

text \<open>Softirqs of kthread \<open>k\<close>, started on the kthread \<open>l\<close> that runs this code.\<close>

definition softirq_run_locked :: "softirq_env \<Rightarrow> nat \<Rightarrow> nat \<Rightarrow> sched \<Rightarrow> (bool \<times> sched) option" where
  "softirq_run_locked e l k s =
     do { (work_done, s) \<leftarrow> softirq_start (\<not> kt_iokernel_busy (sc_k s k) \<and> si_iokernel e) (kt_iokernel_busy_update (\<lambda>_. True))
            (kt_iokernel_softirq (sc_k s k)) (si_tsc e 0) (si_tsc e 1) l k (False, s);
          (rx, s) \<leftarrow> rx_poll_locked (si_tsc e 2) (si_tsc e 3) (si_rx e) l s;
          (work_done, s) \<leftarrow> softirq_start (\<not> kt_timer_busy (sc_k s k) \<and> si_timer e) (kt_timer_busy_update (\<lambda>_. True))
            (kt_timer_softirq (sc_k s k)) (si_tsc e 4) (si_tsc e 5) l k (work_done \<or> rx, s);
          (work_done, s) \<leftarrow> softirq_start (\<not> kt_storage_busy (sc_k s k) \<and> si_storage e) (kt_storage_busy_update (\<lambda>_. True))
            (kt_storage_softirq (sc_k s k)) (si_tsc e 6) (si_tsc e 7) l k (work_done, s);
          Some (work_done, upd_k k (kt_last_softirq_tsc_update (\<lambda>_. si_now e)) s) }"

text \<open>\<open>pending\<close> is what \<^verbatim>\<open>softirq_pending\<close> reads without the lock.\<close>

definition softirq_run :: "bool \<Rightarrow> u32 \<Rightarrow> bool \<Rightarrow> softirq_env \<Rightarrow> nat \<Rightarrow> sched \<Rightarrow> (bool \<times> sched) option" where
  "softirq_run pending tail_seen empty_seen e l s =
     (let s = upd_k l (kt_last_softirq_tsc_update (\<lambda>_. si_now e)) s
      in if \<not> pending
         then (case si_rx e of
                 None \<Rightarrow> Some (False, s)
               | Some th \<Rightarrow> do { s \<leftarrow> on_k l (thread_ready tail_seen empty_seen (si_tsc e 0) (si_tsc e 1) th) s; Some (True, s) })
         else softirq_run_locked e l l s)"

section \<open>Looking for work\<close>

text \<open>What the thief reads of the other kthread without its lock, whether it gets the lock, and what it finds
  pending there.\<close>

record steal_env =
  st_rq_tail :: u32
  st_rq_head :: u32
  st_pending :: bool
  st_lock :: bool
  st_qp_rq_head :: u32
  st_softirq :: softirq_env

definition steal_work :: "steal_env \<Rightarrow> nat \<Rightarrow> nat \<Rightarrow> sched \<Rightarrow> (bool \<times> sched) option" where
  "steal_work e l r s =
     (if \<not> work_available (st_rq_tail e) (st_rq_head e) (st_pending e) \<or> \<not> st_lock e
      then rx_poll_locked (si_tsc (st_softirq e) 0) (si_tsc (st_softirq e) 1) (si_rx (st_softirq e)) l s
      else let lsize = qp_rq_head (kt_q_ptrs (sc_k s l)) - qp_rq_tail (kt_q_ptrs (sc_k s l));
               rsize = st_qp_rq_head e - qp_rq_tail (kt_q_ptrs (sc_k s r));
               n = num_to_steal lsize rsize
           in if n \<noteq> 0
              then let (kl, kr) = merge_runqueues (sc_th s) (sc_k s l) lsize (sc_k s r) n
                   in Some (True, s\<lparr>sc_k := (sc_k s)(l := kl, r := kr)\<rparr>)
              else softirq_run_locked (st_softirq e) l r s)"

text \<open>The order in which \<^verbatim>\<open>schedule\<close> looks for work: local softirqs, the kthread that last ran on the sibling
  hyperthread, every kthread from a random one on, local softirqs again.\<close>

definition sched_stages :: "nat \<Rightarrow> u32 \<Rightarrow> nat option \<Rightarrow> nat \<Rightarrow> sched_stage list" where
  "sched_stages maxks start_idx r l =
     SLocal # (case r of None \<Rightarrow> [] | Some r \<Rightarrow> if r \<noteq> l then [SSteal r] else []) @
     map SSteal (filter (\<lambda>i. i \<noteq> l) (map (\<lambda>i. unat (start_idx + of_nat i) mod maxks) [0..<maxks])) @ [SLocal]"

definition set_rcu_gen :: "u32 \<Rightarrow> kth \<Rightarrow> kth" where
  "set_rcu_gen g k = k\<lparr>kt_rcu_gen := g, kt_q_ptrs := (kt_q_ptrs k)\<lparr>qp_rcu_gen := ucast g\<rparr>\<rparr>"

text \<open>The end of \<^verbatim>\<open>schedule\<close>: the head of the queue is the next thread.  \<open>None\<close> is an empty queue, against
  which the code asserts.\<close>

definition sched_done :: "u64 \<Rightarrow> nat \<Rightarrow> sched \<Rightarrow> sched option" where
  "sched_done now l s =
     (if kt_rq_head (sc_k s l) = kt_rq_tail (sc_k s l) then None
      else let (th, k) = rq_pop (sc_th s) (sc_k s l);
               k = k\<lparr>kt_q_ptrs := (kt_q_ptrs k)\<lparr>qp_run_start_tsc := now\<rparr>\<rparr>;
               k = set_rcu_gen (kt_rcu_gen k + 1) k;
               s = upd_th th (\<lambda>t. t\<lparr>th_run_start_tsc := now, th_thread_ready := False\<rparr>) (s\<lparr>sc_k := (sc_k s)(l := k)\<rparr>)
           in Some (set_pc l (KJump None th) s))"

text \<open>The beginning of \<^verbatim>\<open>schedule\<close>; \<open>wd\<close> says whether the watchdog is due.\<close>

definition schedule :: "u64 \<Rightarrow> bool \<Rightarrow> softirq_env \<Rightarrow> nat option \<Rightarrow> nat \<Rightarrow> sched \<Rightarrow> sched option" where
  "schedule now wd e self l s =
     do { s \<leftarrow> Some (case self of None \<Rightarrow> s | Some t \<Rightarrow> upd_th t (th_thread_running_update (\<lambda>_. False)) s);
          s \<leftarrow> Some (set_pc l (KSched []) (upd_k l (\<lambda>k. set_rcu_gen (kt_rcu_gen k + 1) k) s));
          (work, s) \<leftarrow> (if wd then softirq_run_locked e l l (upd_k l (kt_last_softirq_tsc_update (\<lambda>_. now)) s) else Some (False, s));
          if work then sched_done now l s
          else let s = (if kt_rq_overflow (sc_k s l) \<noteq> [] then upd_k l drain_overflow s else s)
               in if kt_rq_head (sc_k s l) \<noteq> kt_rq_tail (sc_k s l) then sched_done now l s
                  else Some s }"

text \<open>One attempt to find work.\<close>

definition sched_try :: "u64 \<Rightarrow> steal_env \<Rightarrow> sched_stage \<Rightarrow> nat \<Rightarrow> sched \<Rightarrow> sched option" where
  "sched_try now e st l s =
     do { (work, s) \<leftarrow> (case st of SLocal \<Rightarrow> softirq_run_locked (st_softirq e) l l s | SSteal r \<Rightarrow> steal_work e l r s);
          if work then sched_done now l s else Some s }"

text \<open>\<open>slow\<close> says whether the kthread must cede its core or run the watchdog.\<close>

definition enter_schedule :: "u64 \<Rightarrow> bool \<Rightarrow> nat \<Rightarrow> nat \<Rightarrow> sched \<Rightarrow> sched option" where
  "enter_schedule now slow curth l s =
     (let s = upd_th curth (th_last_cpu_update (\<lambda>_. kt_curr_cpu (sc_k s l))) s
      in if kt_rq_head (sc_k s l) = kt_rq_tail (sc_k s l) \<or> slow then Some (set_pc l (KEnter (Some curth)) s)
         else let (th, k) = rq_pop (sc_th s) (sc_k s l);
                  k = k\<lparr>kt_q_ptrs := (kt_q_ptrs k)\<lparr>qp_run_start_tsc := now\<rparr>\<rparr>;
                  k = set_rcu_gen (kt_rcu_gen k + 2) k;
                  s = upd_th th (\<lambda>t. t\<lparr>th_run_start_tsc := now, th_thread_ready := False\<rparr>) (s\<lparr>sc_k := (sc_k s)(l := k)\<rparr>)
              in Some (set_pc l (if th = curth then KThread th else KJump (Some curth) th) s))"

text \<open>The switch, when the stack of the next thread is free.\<close>

definition jmp_thread :: "u64 \<Rightarrow> nat option \<Rightarrow> nat \<Rightarrow> nat \<Rightarrow> sched \<Rightarrow> sched" where
  "jmp_thread now old th l s =
     (let s = upd_th th (\<lambda>t. t\<lparr>th_thread_running := True, th_acc_qdel := th_acc_qdel t + (now - th_enque_ts t)\<rparr>) s;
          s = (case old of None \<Rightarrow> s | Some t \<Rightarrow> upd_th t (th_thread_running_update (\<lambda>_. False)) s)
      in set_pc l (KThread th) s)"

text \<open>\<^verbatim>\<open>thread_yield\<close> up to its call of \<^verbatim>\<open>enter_schedule\<close>: first softirqs, then the thread itself becomes ready.\<close>

definition yield_ready :: "u32 \<Rightarrow> bool \<Rightarrow> u64 \<Rightarrow> u64 \<Rightarrow> nat \<Rightarrow> nat \<Rightarrow> sched \<Rightarrow> sched option" where
  "yield_ready tail_seen empty_seen t1 t2 curth l s =
     (let s = upd_th curth (th_thread_ready_update (\<lambda>_. False)) s
      in do { s \<leftarrow> on_k l (thread_ready tail_seen empty_seen t1 t2 curth) s; Some (set_pc l (KPark curth) s) })"

definition thread_yield :: "bool \<Rightarrow> u32 \<Rightarrow> bool \<Rightarrow> softirq_env \<Rightarrow> u32 \<Rightarrow> bool \<Rightarrow> u64 \<Rightarrow> u64 \<Rightarrow> nat \<Rightarrow> nat \<Rightarrow> sched \<Rightarrow> sched option"
where
  "thread_yield pending ts es e tail_seen empty_seen t1 t2 curth l s =
     do { (_, s) \<leftarrow> softirq_run pending ts es e l s;
          yield_ready tail_seen empty_seen t1 t2 curth l s }"

text \<open>\<^verbatim>\<open>thread_finish_cede\<close> until the kthread parks with the iokernel.\<close>

definition thread_finish_cede :: "u64 \<Rightarrow> u64 \<Rightarrow> nat \<Rightarrow> nat \<Rightarrow> sched \<Rightarrow> sched option" where
  "thread_finish_cede t1 t2 myth l s =
     (let s = upd_th myth (\<lambda>t. t\<lparr>th_thread_running := False, th_last_cpu := kt_curr_cpu (sc_k s l)\<rparr>) s
      in do { s \<leftarrow> on_k l (thread_ready_head t1 t2 myth) s;
              Some (set_pc l KCeded (upd_k l (\<lambda>k. set_rcu_gen (kt_rcu_gen k + 1) k) s)) })"

text \<open>The rest of \<^verbatim>\<open>thread_finish_cede\<close>, when the iokernel has given the kthread the core \<open>cpu\<close>, up to its
  call of \<^verbatim>\<open>schedule\<close>.\<close>

definition cede_resume :: "nat \<Rightarrow> nat \<Rightarrow> sched \<Rightarrow> sched" where
  "cede_resume cpu l s =
     set_pc l (KEnter None) (upd_k l (\<lambda>k. set_rcu_gen (kt_rcu_gen k + 1) (k\<lparr>kt_curr_cpu := cpu\<rparr>)) s)"

text \<open>The program ends with its main thread.\<close>

definition thread_finish_exit :: "nat \<Rightarrow> nat \<Rightarrow> sched \<Rightarrow> sched" where
  "thread_finish_exit th l s =
     set_pc l (if th_main_thread (sc_th s th) then KShutdown else KEnter None) (s\<lparr>sc_live := sc_live s - {th}\<rparr>)"

text \<open>\<^verbatim>\<open>thread_spawn\<close>: the fields \<^verbatim>\<open>__thread_create\<close> sets, and \<^verbatim>\<open>thread_ready\<close>.\<close>

definition thread_create :: "nat \<Rightarrow> nat \<Rightarrow> sched \<Rightarrow> sched" where
  "thread_create th l s =
     upd_th th (\<lambda>t. t\<lparr>th_last_cpu := kt_curr_cpu (sc_k s l), th_main_thread := False, th_thread_ready := False,
       th_thread_running := False, th_tlsvar := 0, th_rpc_ctx := 0, th_acc_qdel := 0, th_enque_ts := 0\<rparr>)
       (s\<lparr>sc_live := insert th (sc_live s)\<rparr>)"

definition thread_spawn :: "u32 \<Rightarrow> bool \<Rightarrow> u64 \<Rightarrow> u64 \<Rightarrow> nat \<Rightarrow> nat \<Rightarrow> sched \<Rightarrow> sched option" where
  "thread_spawn tail_seen empty_seen t1 t2 th l s = on_k l (thread_ready tail_seen empty_seen t1 t2 th) (thread_create th l s)"

text \<open>\<open>called\<close> is the static flag of \<^verbatim>\<open>thread_spawn_main\<close>, which may be called once.\<close>

definition thread_spawn_main :: "bool \<Rightarrow> u32 \<Rightarrow> bool \<Rightarrow> u64 \<Rightarrow> u64 \<Rightarrow> nat \<Rightarrow> nat \<Rightarrow> sched \<Rightarrow> sched option" where
  "thread_spawn_main called tail_seen empty_seen t1 t2 th l s =
     (if called then None
      else on_k l (thread_ready tail_seen empty_seen t1 t2 th) (upd_th th (th_main_thread_update (\<lambda>_. True)) (thread_create th l s)))"

text \<open>How a kthread first enters the scheduler.\<close>

definition schedule_start :: "nat \<Rightarrow> sched \<Rightarrow> sched" where
  "schedule_start l s =
     set_pc l (KEnter None) (upd_k l (\<lambda>k. set_rcu_gen 1 (if qp_oldest_tsc (kt_q_ptrs k) = 0 then set_oldest (- 1) k else k)) s)"

section \<open>Runs\<close>

text \<open>The thread a kthread runs or is about to run, and the thread whose stack it uses.\<close>

fun claim :: "kpc \<Rightarrow> nat set" where
  "claim (KThread t) = {t}" | "claim (KJump old t) = {t}" | "claim _ = {}"

fun stack :: "kpc \<Rightarrow> nat set" where
  "stack (KThread t) = {t}" | "stack (KPark t) = {t}" | "stack (KEnter (Some t)) = {t}" | "stack (KJump (Some old) t) = {old}"
| "stack _ = {}"

fun soft_th :: "kth \<Rightarrow> nat \<Rightarrow> nat" where
  "soft_th k 0 = kt_iokernel_softirq k" | "soft_th k (Suc 0) = kt_timer_softirq k" | "soft_th k _ = kt_storage_softirq k"

fun soft_busy :: "kth \<Rightarrow> nat \<Rightarrow> bool" where
  "soft_busy k 0 = kt_iokernel_busy k" | "soft_busy k (Suc 0) = kt_timer_busy k" | "soft_busy k _ = kt_storage_busy k"

fun soft_mark :: "nat \<Rightarrow> bool \<Rightarrow> kth \<Rightarrow> kth" where
  "soft_mark 0 b k = k\<lparr>kt_iokernel_busy := b\<rparr>" | "soft_mark (Suc 0) b k = k\<lparr>kt_timer_busy := b\<rparr>" | "soft_mark _ b k = k\<lparr>kt_storage_busy := b\<rparr>"

definition idle_soft :: "sched \<Rightarrow> nat set" where
  "idle_soft s = {t. \<exists>k i. k < sc_maxks s \<and> i < 3 \<and> \<not> soft_busy (sc_k s k) i \<and> t = soft_th (sc_k s k) i}"

definition queued :: "(nat \<Rightarrow> nat list) \<Rightarrow> nat set" where
  "queued q = (\<Union>k. set (q k))"

definition claimed :: "(nat \<Rightarrow> kpc) \<Rightarrow> nat set" where
  "claimed pc = (\<Union>k. claim (pc k))"

abbreviation runqs :: "sched \<Rightarrow> nat \<Rightarrow> nat list" where
  "runqs s \<equiv> \<lambda>k. runq (sc_k s k)"

text \<open>A thread that may be made ready: it waits, and it is not a softirq thread that waits for its softirq.\<close>

definition wakeable :: "sched \<Rightarrow> nat \<Rightarrow> bool" where
  "wakeable s t \<longleftrightarrow> t \<in> sc_live s \<and> t \<notin> queued (runqs s) \<and> t \<notin> claimed (sc_pc s) \<and> t \<notin> idle_soft s"

text \<open>Readings without the lock are at worst old: thieves only advance the tail and empty the overflow list.\<close>

definition seen_ok :: "u32 \<Rightarrow> bool \<Rightarrow> kth \<Rightarrow> bool" where
  "seen_ok tail_seen empty_seen k \<longleftrightarrow>
     unat (kt_rq_head k - kt_rq_tail k) \<le> unat (kt_rq_head k - tail_seen) \<and> (empty_seen \<longrightarrow> kt_rq_overflow k = [])"

definition rx_ok :: "sched \<Rightarrow> nat option \<Rightarrow> bool" where
  "rx_ok s rx \<longleftrightarrow> (case rx of None \<Rightarrow> True | Some th \<Rightarrow> wakeable s th)"

definition RUNTIME_MAX_THREADS :: nat where "RUNTIME_MAX_THREADS = 100000"

definition k_at :: "sched \<Rightarrow> nat \<Rightarrow> kpc \<Rightarrow> bool" where
  "k_at s l p \<longleftrightarrow> l < sc_maxks s \<and> sc_pc s l = p"

text \<open>What a kthread may do next, and what comes of it; \<open>None\<close> is a failed check.\<close>

inductive sched_act :: "sched \<Rightarrow> sched option \<Rightarrow> bool" where
  ready: "k_at s l (KThread t) \<Longrightarrow> wakeable s th \<Longrightarrow> seen_ok ts es (sc_k s l) \<Longrightarrow>
    sched_act s (on_k l (thread_ready ts es t1 t2 th) s)"
| ready_head: "k_at s l (KThread t) \<Longrightarrow> wakeable s th \<Longrightarrow> sched_act s (on_k l (thread_ready_head t1 t2 th) s)"
| spawn: "k_at s l (KThread t) \<Longrightarrow> th \<notin> sc_live s \<Longrightarrow> card (sc_live s) < RUNTIME_MAX_THREADS \<Longrightarrow> seen_ok ts es (sc_k s l) \<Longrightarrow>
    sched_act s (thread_spawn ts es t1 t2 th l s)"
| softirq: "k_at s l (KThread t) \<Longrightarrow> rx_ok s (si_rx e) \<Longrightarrow> seen_ok ts es (sc_k s l) \<Longrightarrow>
    sched_act s (map_option snd (softirq_run pending ts es e l s))"
| park: "k_at s l (KThread t) \<Longrightarrow> sched_act s (Some (set_pc l (KPark t) s))"
| softirq_park: "k_at s l (KThread (soft_th (sc_k s k) i)) \<Longrightarrow> k < sc_maxks s \<Longrightarrow> i < 3 \<Longrightarrow>
    sched_act s (Some (set_pc l (KPark (soft_th (sc_k s k) i)) (upd_k k (soft_mark i False) s)))"
| yield: "k_at s l (KThread t) \<Longrightarrow> rx_ok s (si_rx e) \<Longrightarrow> seen_ok ts es (sc_k s l) \<Longrightarrow>
    (\<forall>w s1. softirq_run pending ts es e l s = Some (w, s1) \<longrightarrow> seen_ok ts' es' (sc_k s1 l)) \<Longrightarrow>
    sched_act s (thread_yield pending ts es e ts' es' t1 t2 t l s)"
| cede: "k_at s l (KThread t) \<Longrightarrow> sched_act s (thread_finish_cede t1 t2 t l s)"
| resume: "k_at s l KCeded \<Longrightarrow> sched_act s (Some (cede_resume cpu l s))"
| exit: "k_at s l (KThread t) \<Longrightarrow> (\<forall>k i. k < sc_maxks s \<longrightarrow> i < 3 \<longrightarrow> t \<noteq> soft_th (sc_k s k) i) \<Longrightarrow> sched_act s (Some (thread_finish_exit t l s))"
| enter: "k_at s l (KPark t) \<Longrightarrow> sched_act s (enter_schedule now slow t l s)"
| sched: "k_at s l (KEnter self) \<Longrightarrow> rx_ok s (si_rx e) \<Longrightarrow> sched_act s (schedule now wd e self l s)"
| again: "k_at s l (KSched []) \<Longrightarrow> pred_option (\<lambda>r. r < sc_maxks s) r \<Longrightarrow> sched_act s (Some (set_pc l (KSched (sched_stages (sc_maxks s) start_idx r l)) s))"
| local: "k_at s l (KSched (SLocal # sts)) \<Longrightarrow> rx_ok s (si_rx (st_softirq e)) \<Longrightarrow>
    sched_act s (sched_try now e SLocal l (set_pc l (KSched sts) s))"
| steal: "k_at s l (KSched (SSteal r # sts)) \<Longrightarrow> r \<noteq> l \<Longrightarrow> r < sc_maxks s \<Longrightarrow> rx_ok s (si_rx (st_softirq e)) \<Longrightarrow>
    unat (st_qp_rq_head e - qp_rq_tail (kt_q_ptrs (sc_k s r))) \<le> length (runq (sc_k s r)) \<Longrightarrow>
    sched_act s (sched_try now e (SSteal r) l (set_pc l (KSched sts) s))"
| jump: "k_at s l (KJump old t) \<Longrightarrow> \<not> th_thread_running (sc_th s t) \<Longrightarrow> sched_act s (Some (jmp_thread now old t l s))"

text \<open>At the start every kthread is about to enter the scheduler, only the main thread \<open>m\<close> is ready, and the
  softirq threads wait.\<close>

definition boot_ok :: "nat \<Rightarrow> sched \<Rightarrow> bool" where
  "boot_ok m s \<longleftrightarrow> (\<forall>k. sc_pc s k = KEnter None \<and> kt_rcu_gen (sc_k s k) = 1 \<and> rq_ok (sc_k s k) \<and>
       published (sc_k s k) = of_nat (length (runq (sc_k s k))) \<and> runq (sc_k s k) = (if k = 0 then [m] else [])) \<and>
     m \<in> sc_live s \<and> (\<forall>t\<in>sc_live s. th_thread_ready (sc_th s t) = (t = m) \<and> \<not> th_thread_running (sc_th s t)) \<and>
     finite (sc_live s) \<and> card (sc_live s) \<le> RUNTIME_MAX_THREADS \<and>
     inj_on (\<lambda>(k, i). soft_th (sc_k s k) i) ({..<sc_maxks s} \<times> {..<3}) \<and>
     (\<forall>k i. k < sc_maxks s \<longrightarrow> i < 3 \<longrightarrow> \<not> soft_busy (sc_k s k) i \<and> soft_th (sc_k s k) i \<in> sc_live s - {m})"

inductive sched_run :: "sched \<Rightarrow> bool" where
  init: "boot_ok m s \<Longrightarrow> sched_run s"
| step: "sched_run s \<Longrightarrow> sched_act s (Some s') \<Longrightarrow> sched_run s'"

end
