(* ===== verification/Sched_Inv.thy ===== *)
theory Sched_Inv
  imports Sched
begin

text \<open>
  The invariant of the runs of the scheduler: where threads are, what the published counters say, which softirq
  threads wait, and the parity of the RCU generation; every step succeeds and keeps it.
\<close>

section \<open>Where threads are\<close>

definition alone :: "(nat \<Rightarrow> nat set) \<Rightarrow> bool" where
  "alone f \<longleftrightarrow> (\<forall>t k k'. t \<in> f k \<longrightarrow> t \<in> f k' \<longrightarrow> k = k')"

lemma aloneD: "alone f \<Longrightarrow> t \<in> f k \<Longrightarrow> t \<in> f k' \<Longrightarrow> k = k'"
  by (auto simp: alone_def)

definition everywhere :: "(nat \<Rightarrow> nat set) \<Rightarrow> nat set" where
  "everywhere f = (\<Union>k. f k)"

lemma alone_upd: "alone f \<Longrightarrow> a \<inter> (everywhere f - f l) = {} \<Longrightarrow> alone (f(l := a))"
  unfolding alone_def everywhere_def by (auto split: if_splits) (blast+)

lemma everywhere_upd: "alone f \<Longrightarrow> everywhere (f(l := a)) = everywhere f - f l \<union> a"
  by (auto simp: alone_def everywhere_def)

lemma everywhere_mem: "t \<in> f k \<Longrightarrow> t \<in> everywhere f"
  by (auto simp: everywhere_def)

lemma everywhere_insert: "alone q \<Longrightarrow> everywhere (q(l := insert t (q l))) = insert t (everywhere q)"
  using everywhere_upd [of q l "insert t (q l)"] everywhere_mem [of _ q l] by auto

text \<open>Threads in queues, threads claimed by kthreads and stacks in use; each at most once; and the flags say so.\<close>

definition places_ok :: "(nat \<Rightarrow> nat set) \<Rightarrow> (nat \<Rightarrow> nat set) \<Rightarrow> (nat \<Rightarrow> nat set) \<Rightarrow> (nat \<Rightarrow> bool) \<Rightarrow> (nat \<Rightarrow> bool) \<Rightarrow> nat set \<Rightarrow> bool"
where
  "places_ok q c st rdy run live \<longleftrightarrow> alone q \<and> alone c \<and> alone st \<and>
     everywhere q \<subseteq> live \<and> everywhere c \<subseteq> live - everywhere q \<and> everywhere st \<subseteq> live \<and>
     (\<forall>t\<in>live. rdy t = (t \<in> everywhere q)) \<and> (\<forall>t\<in>live. run t = (t \<in> everywhere st))"

lemma places_add:
  assumes "places_ok q c st rdy run live" and "t \<in> live" and "t \<notin> everywhere q" and "t \<notin> everywhere c"
  shows "places_ok (q(l := insert t (q l))) c st (rdy(t := True)) run live"
proof -
  have q: "alone q" using assms(1) by (simp add: places_ok_def)
  have "alone (q(l := insert t (q l)))" using q assms(3) by (intro alone_upd) (auto simp: alone_def everywhere_def)
  moreover note everywhere_insert [OF q, of l t]
  ultimately show ?thesis using assms by (auto simp: places_ok_def)
qed

lemma places_move:
  assumes "places_ok q c st rdy run live" and "l \<noteq> r" and "a \<union> b = q l \<union> q r" and "a \<inter> b = {}"
  shows "places_ok (q(l := a, r := b)) c st rdy run live"
proof -
  have q: "alone q" using assms(1) by (simp add: places_ok_def)
  have "alone (q(l := a, r := b))"
    unfolding alone_def
  proof (intro allI impI)
    fix t k k' assume t: "t \<in> (q(l := a, r := b)) k" "t \<in> (q(l := a, r := b)) k'"
    have ab: "t \<in> q l \<or> t \<in> q r" if "t \<in> a \<or> t \<in> b" using that assms(3) by blast
    have out: "j = l \<or> j = r" if "t \<in> q l \<or> t \<in> q r" "t \<in> q j" for j using that aloneD [OF q] by metis
    show "k = k'"
    proof (cases "t \<in> a \<or> t \<in> b")
      case True
      then have "k = l \<or> k = r" "k' = l \<or> k' = r" using t ab out by (auto split: if_splits)
      then show ?thesis using t assms(2,4) by (auto split: if_splits)
    next
      case False
      then show ?thesis using t aloneD [OF q] by (auto split: if_splits)
    qed
  qed
  moreover have "everywhere (q(l := a, r := b)) = everywhere q"
  proof -
    have "everywhere f = f l \<union> f r \<union> (\<Union>k\<in>- {l, r}. f k)" for f :: "nat \<Rightarrow> nat set" by (auto simp: everywhere_def)
    from this [of q] this [of "q(l := a, r := b)"] show ?thesis using assms(2,3) by auto
  qed
  ultimately show ?thesis using assms(1) by (simp add: places_ok_def)
qed

lemma places_pop:
  assumes ok: "places_ok q c st rdy run live" and "t \<in> q l" and "c l = {}"
  shows "places_ok (q(l := q l - {t})) (c(l := {t})) st (rdy(t := False)) run live"
proof -
  have q: "alone q" and c: "alone c" using ok by (simp_all add: places_ok_def)
  have t: "t \<in> everywhere q" "t \<in> live" "t \<notin> everywhere c" using assms everywhere_mem [of t q l] by (auto simp: places_ok_def)
  have "alone (q(l := q l - {t}))" using q by (intro alone_upd) (auto simp: alone_def everywhere_def)
  moreover have "everywhere (q(l := q l - {t})) = everywhere q - {t}"
    using everywhere_upd [OF q] everywhere_mem [of _ q l] assms(2) by auto
  moreover have "alone (c(l := {t}))" using c t by (intro alone_upd) (auto simp: everywhere_def)
  moreover have "everywhere (c(l := {t})) = insert t (everywhere c)" using everywhere_upd [OF c] assms(3) by auto
  ultimately show ?thesis using ok t by (auto simp: places_ok_def)
qed

lemma places_unclaim:
  assumes "places_ok q c st rdy run live"
  shows "places_ok q (c(l := {})) st rdy run live"
proof -
  have c: "alone c" using assms by (simp add: places_ok_def)
  have "alone (c(l := {}))" using c by (intro alone_upd) simp_all
  moreover have "everywhere (c(l := {})) \<subseteq> everywhere c" using everywhere_upd [OF c] by auto
  ultimately show ?thesis using assms by (auto simp: places_ok_def)
qed

lemma places_leave:
  assumes "places_ok q c st rdy run live" and "\<forall>t\<in>live. run' t = (if t \<in> st l then False else run t)"
  shows "places_ok q c (st(l := {})) rdy run' live"
proof -
  have st: "alone st" using assms by (simp add: places_ok_def)
  have "alone (st(l := {}))" using st by (intro alone_upd) simp_all
  moreover have "everywhere (st(l := {})) = everywhere st - st l" using everywhere_upd [OF st] by auto
  ultimately show ?thesis using assms by (auto simp: places_ok_def)
qed

lemma places_use:
  assumes "places_ok q c st rdy run live" and "t \<in> live" and "\<not> run t" and "st l = {}"
  shows "places_ok q c (st(l := {t})) rdy (run(t := True)) live"
proof -
  have st: "alone st" and t: "t \<notin> everywhere st" using assms by (simp_all add: places_ok_def)
  have "alone (st(l := {t}))" using st t by (intro alone_upd) auto
  moreover have "everywhere (st(l := {t})) = insert t (everywhere st)" using everywhere_upd [OF st] assms(4) by auto
  ultimately show ?thesis using assms by (auto simp: places_ok_def)
qed

lemma places_born:
  assumes "places_ok q c st rdy run live" and "t \<notin> live"
  shows "places_ok q c st (rdy(t := False)) (run(t := False)) (insert t live)"
  using assms by (auto simp: places_ok_def)

lemma places_die:
  assumes "places_ok q c st rdy run live" and "c l = {t}" and "st l = {t}"
  shows "places_ok q (c(l := {})) (st(l := {})) rdy run (live - {t})"
proof -
  have a: "alone c" "alone st" using assms by (simp_all add: places_ok_def)
  have "alone (c(l := {}))" "alone (st(l := {}))" using a by (auto intro!: alone_upd)
  moreover have "everywhere (c(l := {})) = everywhere c - {t}" "everywhere (st(l := {})) = everywhere st - {t}"
    using everywhere_upd [OF a(1)] everywhere_upd [OF a(2)] assms(2,3) by auto
  moreover have "t \<in> everywhere c" using assms(2) everywhere_mem [of t c l] by simp
  ultimately show ?thesis using assms(1) by (auto simp: places_ok_def)
qed

section \<open>What the operations on a queue leave alone\<close>

definition rest :: "kth \<Rightarrow> u32 \<times> nat \<times> nat \<times> nat \<times> nat \<times> bool \<times> bool \<times> bool" where
  "rest k = (kt_rcu_gen k, kt_curr_cpu k, kt_iokernel_softirq k, kt_timer_softirq k, kt_storage_softirq k,
     kt_iokernel_busy k, kt_timer_busy k, kt_storage_busy k)"

lemma rest_basic [simp]:
  "rest (rq_put th k) = rest k" "rest (count_head n k) = rest k" "rest (count_tail n k) = rest k" "rest (set_oldest tsc k) = rest k"
  "rest (k\<lparr>kt_rq_overflow := v\<rparr>) = rest k" "rest (k\<lparr>kt_rq_tail := t\<rparr>) = rest k" "rest (k\<lparr>kt_rq_head := t\<rparr>) = rest k" "rest (k\<lparr>kt_rq := q\<rparr>) = rest k"
  by (simp_all add: rest_def rq_put_def count_head_def count_tail_def set_oldest_def)

lemma rest_drain_loop [simp]: "rest (drain_loop ovs k) = rest k"
  by (induction ovs arbitrary: k) simp_all

lemma rest_update_oldest [simp]: "rest (update_oldest_tsc ths k) = rest k"
  by (simp add: update_oldest_tsc_def)

lemma rest_drain_overflow [simp]: "rest (drain_overflow k) = rest k"
  by (simp add: drain_overflow_def)

lemma rest_merge_loop [simp]: "rest (merge_loop ths rs ls k) = rest k"
  by (induction ths rs ls k rule: merge_loop.induct) (simp_all add: merge_put_def)

lemma rest_drain_threads: "drain_threads k nr b = (ts, k') \<Longrightarrow> rest k' = rest k"
  by (auto simp: drain_threads_def split: prod.splits if_splits)

lemma rest_add: "rest (rq_add_tail th ths k) = rest k" "rq_add_head th (k, ths) = (k', ths') \<Longrightarrow> rest k' = rest k"
    "rq_pop ths k = (t, k') \<Longrightarrow> rest k' = rest k"
  by (auto simp: rq_add_tail_def rq_add_head_def rq_pop_def Let_def split: if_splits)

lemma rest_merge:
  assumes "merge_runqueues ths l ls r n = (l', r')"
  shows "rest l' = rest l" and "rest r' = rest r"
proof -
  obtain tr r1 where r1: "drain_threads r n True = (tr, r1)" by fastforce
  obtain tl l1 where l1: "drain_threads l ls False = (tl, l1)" by fastforce
  show "rest l' = rest l" "rest r' = rest r"
    using assms rest_drain_threads [OF r1] rest_drain_threads [OF l1] by (auto simp: merge_runqueues_def r1 l1 Let_def)
qed

lemma rest_soft:
  assumes "rest k' = rest k"
  shows "soft_th k' i = soft_th k i" and "soft_busy k' i = soft_busy k i" and "kt_rcu_gen k' = kt_rcu_gen k"
  using assms by (cases "(k, i)" rule: soft_th.cases; simp add: rest_def)+

section \<open>One more thread in a queue\<close>

definition adds :: "nat \<Rightarrow> kth \<Rightarrow> sthreads \<Rightarrow> kth \<Rightarrow> sthreads \<Rightarrow> bool" where
  "adds th k ths k' ths' \<longleftrightarrow> mset (runq k') = add_mset th (mset (runq k)) \<and> rq_ok k' \<and> published k' = published k + 1 \<and>
     rq_len k' \<noteq> 0 \<and> rest k' = rest k \<and> (\<forall>t. th_thread_ready (ths' t) = (t = th \<or> th_thread_ready (ths t))) \<and>
     (\<forall>t. th_thread_running (ths' t) = th_thread_running (ths t))"

lemma ring_nonempty: "rq_ok k \<Longrightarrow> drained k \<Longrightarrow> runq k \<noteq> [] \<Longrightarrow> rq_len k \<noteq> 0"
  by (auto simp: drained_def runq_def rq_list_def ring_list_def)

lemma prepare_ready:
  assumes "\<not> th_thread_ready (ths th)"
  obtains ths' where "thread_ready_prepare t1 t2 th ths = Some ths'" and "\<And>t. th_thread_ready (ths' t) = (t = th \<or> th_thread_ready (ths t))"
    and "\<And>t. th_thread_running (ths' t) = th_thread_running (ths t)"
  using assms by (simp add: thread_ready_prepare_def)

lemma add_tail_adds:
  assumes "rq_ok k" and "drained k"
    and "\<And>t. th_thread_ready (ths' t) = (t = th \<or> th_thread_ready (ths t))" "\<And>t. th_thread_running (ths' t) = th_thread_running (ths t)"
  shows "adds th k ths (rq_add_tail th ths' k) ths'"
  using rq_add_tail_spec [OF assms(1,2), of th ths'] ring_nonempty [of "rq_add_tail th ths' k"] assms(3,4)
  by (simp add: adds_def rest_add)

lemma thread_ready_locked_adds:
  assumes ok: "rq_ok k" and nr: "\<not> th_thread_ready (ths th)"
  shows "\<exists>k' ths'. thread_ready_locked t1 t2 th (k, ths) = Some (k', ths') \<and> adds th k ths k' ths'"
proof -
  obtain ths' where p: "thread_ready_prepare t1 t2 th ths = Some ths'"
    and r: "\<And>t. th_thread_ready (ths' t) = (t = th \<or> th_thread_ready (ths t))" "\<And>t. th_thread_running (ths' t) = th_thread_running (ths t)"
    using prepare_ready [of ths th, OF nr] by blast
  define k1 where "k1 = (if kt_rq_overflow k \<noteq> [] then drain_overflow k else k)"
  have k1: "rq_ok k1" "drained k1" "runq k1 = runq k" "published k1 = published k" "rest k1 = rest k"
    using drain_overflow_spec [OF ok] ok by (auto simp: k1_def drained_def)
  have "adds th k1 ths (rq_add_tail th ths' k1) ths'" by (rule add_tail_adds [OF k1(1,2) r])
  then have "adds th k ths (rq_add_tail th ths' k1) ths'" using k1 by (simp add: adds_def)
  then show ?thesis using p by (auto simp: thread_ready_locked_def k1_def [symmetric] Let_def)
qed

lemma add_head_adds:
  assumes ok: "rq_ok k" and nr: "\<not> th_thread_ready (ths th)" and p: "thread_ready_prepare t1 t2 th ths = Some ths1"
    and a: "rq_add_head th (k, ths1) = (k', ths')"
  shows "adds th k ths k' ths'"
proof -
  note spec = rq_add_head_spec [OF ok a]
  show ?thesis using spec rest_add(2) [OF a] p by (auto simp: adds_def thread_ready_prepare_def split: if_splits)
qed

lemma thread_ready_head_adds:
  assumes ok: "rq_ok k" and nr: "\<not> th_thread_ready (ths th)"
  shows "\<exists>k' ths'. thread_ready_head_locked t1 t2 th (k, ths) = Some (k', ths') \<and> adds th k ths k' ths'"
    and "\<exists>k' ths'. thread_ready_head t1 t2 th (k, ths) = Some (k', ths') \<and> adds th k ths k' ths'"
proof -
  obtain ths1 where p: "thread_ready_prepare t1 t2 th ths = Some ths1" using nr by (simp add: thread_ready_prepare_def)
  obtain k' ths' where a: "rq_add_head th (k, ths1) = (k', ths')" by fastforce
  note add_head_adds [OF ok nr p a]
  then show "\<exists>k' ths'. thread_ready_head_locked t1 t2 th (k, ths) = Some (k', ths') \<and> adds th k ths k' ths'"
    "\<exists>k' ths'. thread_ready_head t1 t2 th (k, ths) = Some (k', ths') \<and> adds th k ths k' ths'"
    using p a by (simp_all add: thread_ready_head_locked_def thread_ready_head_def)
qed

lemma thread_ready_adds:
  assumes ok: "rq_ok k" and nr: "\<not> th_thread_ready (ths th)" and seen: "seen_ok ts es k"
  shows "\<exists>k' ths'. thread_ready ts es t1 t2 th (k, ths) = Some (k', ths') \<and> adds th k ths k' ths'"
proof -
  obtain ths' where p: "thread_ready_prepare t1 t2 th ths = Some ths'"
    and r: "\<And>t. th_thread_ready (ths' t) = (t = th \<or> th_thread_ready (ths t))" "\<And>t. th_thread_running (ths' t) = th_thread_running (ths t)"
    using prepare_ready [of ths th, OF nr] by blast
  show ?thesis
  proof (cases "kt_rq_head k - ts \<ge> RUNTIME_RQ_SIZE \<or> \<not> es")
    case True
    define k1 where "k1 = drain_overflow (k\<lparr>kt_rq_overflow := kt_rq_overflow k @ [th]\<rparr>)"
    have k1: "runq k1 = runq k @ [th]" "rq_ok k1" "drained k1" "published k1 = published k" "rest k1 = rest k"
      using drain_overflow_spec [of "k\<lparr>kt_rq_overflow := kt_rq_overflow k @ [th]\<rparr>"] ok
      by (simp_all add: k1_def drained_def) (simp add: runq_def)
    then have "adds th k ths (count_head 1 k1) ths'" using r ring_nonempty [OF k1(2,3)] by (simp add: adds_def)
    then show ?thesis using p True by (auto simp: thread_ready_def k1_def [symmetric] Let_def)
  next
    case False
    then have lt: "unat (kt_rq_head k - ts) < 32" by (simp add: word_le_nat_alt RUNTIME_RQ_SIZE_def not_le)
    have "rq_len k < 32" using seen lt by (simp add: seen_ok_def rq_len_def)
    moreover have "kt_rq_overflow k = []" using False seen by (simp add: seen_ok_def)
    ultimately have "thread_ready ts es t1 t2 th (k, ths) = Some (rq_add_tail th ths' k, ths')" "drained k"
      using p False rq_full_iff(2) [OF ok] by (simp_all add: thread_ready_def rq_add_tail_def Let_def drained_def)
    then show ?thesis using add_tail_adds [OF ok _ r] by blast
  qed
qed

section \<open>The invariant\<close>

definition queues_ok :: "sched \<Rightarrow> bool" where
  "queues_ok s \<longleftrightarrow> (\<forall>k. rq_ok (sc_k s k) \<and> published (sc_k s k) = of_nat (length (runq (sc_k s k))) \<and> distinct (runq (sc_k s k)))"

definition sched_places :: "sched \<Rightarrow> bool" where
  "sched_places s \<longleftrightarrow> places_ok (\<lambda>k. set (runq (sc_k s k))) (\<lambda>k. claim (sc_pc s k)) (\<lambda>k. stack (sc_pc s k))
     (\<lambda>t. th_thread_ready (sc_th s t)) (\<lambda>t. th_thread_running (sc_th s t)) (sc_live s)"

definition soft_ok :: "sched \<Rightarrow> bool" where
  "soft_ok s \<longleftrightarrow> inj_on (\<lambda>(k, i). soft_th (sc_k s k) i) ({..<sc_maxks s} \<times> {..<3}) \<and>
     (\<forall>k i. k < sc_maxks s \<longrightarrow> i < 3 \<longrightarrow> soft_th (sc_k s k) i \<in> sc_live s) \<and>
     idle_soft s \<inter> queued (runqs s) = {} \<and> idle_soft s \<inter> claimed (sc_pc s) = {}"

fun in_sched :: "kpc \<Rightarrow> bool" where
  "in_sched (KSched sts) = True" | "in_sched KCeded = True" | "in_sched _ = False"

definition rcu_ok :: "sched \<Rightarrow> bool" where
  "rcu_ok s \<longleftrightarrow> (\<forall>k. even (kt_rcu_gen (sc_k s k)) = in_sched (sc_pc s k))"

definition live_ok :: "sched \<Rightarrow> bool" where
  "live_ok s \<longleftrightarrow> finite (sc_live s) \<and> card (sc_live s) \<le> RUNTIME_MAX_THREADS"

definition sched_inv :: "sched \<Rightarrow> bool" where
  "sched_inv s \<longleftrightarrow> queues_ok s \<and> sched_places s \<and> soft_ok s \<and> rcu_ok s \<and> live_ok s"

lemma queued_everywhere: "queued q = everywhere (\<lambda>k. set (q k))"
  by (simp add: queued_def everywhere_def)

lemma claimed_everywhere: "claimed pc = everywhere (\<lambda>k. claim (pc k))"
  by (simp add: claimed_def everywhere_def)

lemma inv_queue: "sched_inv s \<Longrightarrow> rq_ok (sc_k s k)"
  by (simp add: sched_inv_def queues_ok_def)

lemma wakeable_not_ready: "sched_inv s \<Longrightarrow> wakeable s t \<Longrightarrow> \<not> th_thread_ready (sc_th s t)"
  by (simp add: sched_inv_def sched_places_def places_ok_def wakeable_def queued_everywhere)

lemma queue_length:
  assumes "sched_inv s"
  shows "unat (published (sc_k s k)) = length (runq (sc_k s k))" and "length (runq (sc_k s k)) \<le> RUNTIME_MAX_THREADS"
proof -
  have "set (runq (sc_k s k)) \<subseteq> sc_live s" "distinct (runq (sc_k s k))" "finite (sc_live s)" "card (sc_live s) \<le> RUNTIME_MAX_THREADS"
    using assms by (auto simp: sched_inv_def queues_ok_def sched_places_def places_ok_def everywhere_def live_ok_def)
  then show l: "length (runq (sc_k s k)) \<le> RUNTIME_MAX_THREADS" by (metis card_mono distinct_card le_trans)
  have "published (sc_k s k) = of_nat (length (runq (sc_k s k)))" using assms by (simp add: sched_inv_def queues_ok_def)
  then show "unat (published (sc_k s k)) = length (runq (sc_k s k))"
    using l by (simp add: unsigned_of_nat take_bit_nat_eq_self RUNTIME_MAX_THREADS_def)
qed

text \<open>Whether softirq threads are idle depends only on what queue operations leave alone.\<close>

lemma idle_soft_eq:
  assumes "sc_maxks s' = sc_maxks s" and "\<And>k i. soft_th (sc_k s' k) i = soft_th (sc_k s k) i" and "\<And>k i. soft_busy (sc_k s' k) i = soft_busy (sc_k s k) i"
  shows "idle_soft s' = idle_soft s"
  using assms by (simp add: idle_soft_def)

lemma soft_ok_eq:
  assumes s: "soft_ok s" and m: "sc_maxks s' = sc_maxks s" and th: "\<And>k i. soft_th (sc_k s' k) i = soft_th (sc_k s k) i"
    and b: "\<And>k i. soft_busy (sc_k s' k) i = soft_busy (sc_k s k) i" and l: "sc_live s' = sc_live s"
    and q: "idle_soft s \<inter> queued (runqs s') = {}" and c: "idle_soft s \<inter> claimed (sc_pc s') = {}"
  shows "soft_ok s'"
  using s idle_soft_eq [of s' s, OF m th b] l q c by (simp add: soft_ok_def th m)

lemma idle_soft_cong:
  assumes "sc_maxks s' = sc_maxks s" and "\<And>k. rest (sc_k s' k) = rest (sc_k s k)"
  shows "idle_soft s' = idle_soft s"
  by (rule idle_soft_eq [OF assms(1) rest_soft(1,2) [OF assms(2)]])

lemma soft_ok_cong:
  assumes "soft_ok s" and "sc_maxks s' = sc_maxks s" and r: "\<And>k. rest (sc_k s' k) = rest (sc_k s k)" and "sc_live s' = sc_live s"
    and "idle_soft s \<inter> queued (runqs s') = {}" and "idle_soft s \<inter> claimed (sc_pc s') = {}"
  shows "soft_ok s'"
  by (rule soft_ok_eq [OF assms(1,2) rest_soft(1,2) [OF r] assms(4-6)])

lemma rcu_ok_cong:
  assumes "rcu_ok s" and "\<And>k. rest (sc_k s' k) = rest (sc_k s k)" and "sc_pc s' = sc_pc s"
  shows "rcu_ok s'"
  using assms(1,3) rest_soft(3) [OF assms(2)] by (simp add: rcu_ok_def)

text \<open>The same kthreads, positions and threads.\<close>

definition same_sys :: "sched \<Rightarrow> sched \<Rightarrow> bool" where
  "same_sys s s' \<longleftrightarrow> sc_pc s' = sc_pc s \<and> sc_live s' = sc_live s \<and> sc_maxks s' = sc_maxks s"

lemma on_k_adds:
  assumes inv: "sched_inv s" and w: "wakeable s th" and f: "f (sc_k s l, sc_th s) = Some (k', ths')"
    and a: "adds th (sc_k s l) (sc_th s) k' ths'"
  shows "\<exists>s'. on_k l f s = Some s' \<and> sched_inv s' \<and> same_sys s s' \<and> rq_len (sc_k s' l) \<noteq> 0 \<and>
    (\<forall>t. wakeable s t \<and> t \<noteq> th \<longrightarrow> wakeable s' t)"
proof -
  define s' where "s' = s\<lparr>sc_k := (sc_k s)(l := k'), sc_th := ths'\<rparr>"
  have q: "\<forall>k. runq (sc_k s' k) = (if k = l then runq k' else runq (sc_k s k))" by (simp add: s'_def)
  have m: "mset (runq k') = add_mset th (mset (runq (sc_k s l)))" using a by (simp add: adds_def)
  then have set: "set (runq k') = insert th (set (runq (sc_k s l)))" by (metis set_mset_add_mset_insert set_mset_mset)
  have sets: "(\<lambda>k. set (runq (sc_k s' k))) = (\<lambda>k. set (runq (sc_k s k)))(l := insert th (set (runq (sc_k s l))))"
    using q set by (simp add: fun_eq_iff)
  have th: "th \<in> sc_live s" "th \<notin> queued (runqs s)" "th \<notin> claimed (sc_pc s)" "th \<notin> idle_soft s"
    using w by (simp_all add: wakeable_def)
  have rdy: "(\<lambda>t. th_thread_ready (ths' t)) = (\<lambda>t. th_thread_ready (sc_th s t))(th := True)"
    "(\<lambda>t. th_thread_running (ths' t)) = (\<lambda>t. th_thread_running (sc_th s t))" using a by (auto simp: adds_def fun_eq_iff)
  have pl: "places_ok (\<lambda>k. set (runq (sc_k s k))) (\<lambda>k. claim (sc_pc s k)) (\<lambda>k. stack (sc_pc s k))
      (\<lambda>t. th_thread_ready (sc_th s t)) (\<lambda>t. th_thread_running (sc_th s t)) (sc_live s)"
    using inv by (simp add: sched_inv_def sched_places_def)
  have places: "sched_places s'"
    using places_add [OF pl th(1), of l] th(2,3)
    by (simp add: sched_places_def sets queued_everywhere claimed_everywhere) (simp add: s'_def rdy)
  have rest: "rest (sc_k s' k) = rest (sc_k s k)" for k using a by (simp add: s'_def adds_def)
  have qok: "queues_ok s" using inv by (simp add: sched_inv_def)
  have m1: "mset (runq k') = mset (th # runq (sc_k s l))" using m by simp
  have "th \<notin> set (runq (sc_k s l))" using th(2) by (simp add: queued_def)
  then have "distinct (th # runq (sc_k s l))" using qok by (simp add: queues_ok_def)
  then have "distinct (runq k')" "length (runq k') = Suc (length (runq (sc_k s l)))"
    using mset_eq_imp_distinct_iff [OF m1] mset_eq_length [OF m1] by simp_all
  then have queues: "queues_ok s'" using qok a by (simp add: queues_ok_def s'_def adds_def)
  have al: "alone (\<lambda>k. set (runq (sc_k s k)))" using pl by (simp add: places_ok_def)
  have qd: "queued (runqs s') = insert th (queued (runqs s))"
    unfolding queued_everywhere sets by (rule everywhere_insert [OF al])
  have so: "soft_ok s" "rcu_ok s" using inv by (simp_all add: sched_inv_def)
  have s': "sc_maxks s' = sc_maxks s" "sc_live s' = sc_live s" "sc_pc s' = sc_pc s" by (simp_all add: s'_def)
  have "idle_soft s \<inter> queued (runqs s') = {}" "idle_soft s \<inter> claimed (sc_pc s') = {}"
    using so(1) th(4) by (simp_all add: qd soft_ok_def s')
  then have "soft_ok s'" by (rule soft_ok_cong [OF so(1) s'(1) rest s'(2)])
  moreover have "rcu_ok s'" by (rule rcu_ok_cong [OF so(2) rest s'(3)])
  moreover have "live_ok s'" using inv by (simp add: sched_inv_def live_ok_def s'_def)
  ultimately have "sched_inv s'" using places queues by (simp add: sched_inv_def)
  moreover have "wakeable s' t" if "wakeable s t" "t \<noteq> th" for t
  proof -
    have "idle_soft s' = idle_soft s" by (rule idle_soft_cong [OF s'(1) rest])
    then show ?thesis using that by (simp add: wakeable_def qd s')
  qed
  moreover have "rq_len (sc_k s' l) \<noteq> 0" using a by (simp add: s'_def adds_def)
  moreover have "on_k l f s = Some s'" "same_sys s s'" using f by (simp_all add: on_k_def s'_def same_sys_def)
  ultimately show ?thesis by blast
qed

section \<open>Softirqs and stealing keep the invariant\<close>

lemma soft_mark_simps [simp]:
  "runq (soft_mark i b k) = runq k" "rq_ok (soft_mark i b k) = rq_ok k" "published (soft_mark i b k) = published k"
  "rq_len (soft_mark i b k) = rq_len k" "kt_rcu_gen (soft_mark i b k) = kt_rcu_gen k" "soft_th (soft_mark i b k) j = soft_th k j"
  by (cases "(k, i)" rule: soft_th.cases; cases "(k, j)" rule: soft_th.cases;
      simp add: runq_def rq_ok_def published_def rq_len_def rq_list_def ring_list_def rq_at_def)+

lemma soft_mark_busy [simp]: "i < 3 \<Longrightarrow> j < 3 \<Longrightarrow> soft_busy (soft_mark i b k) j = (if j = i then b else soft_busy k j)"
  by (cases "(k, i)" rule: soft_th.cases; cases "(k, j)" rule: soft_th.cases; auto)

text \<open>Changing the flag of one softirq: the queues and the threads stay.\<close>

lemma mark_inv:
  assumes inv: "sched_inv s" and s1: "s1 = upd_k k (soft_mark i b) s" and idle: "idle_soft s1 \<inter> queued (runqs s) = {}"
    "idle_soft s1 \<inter> claimed (sc_pc s) = {}"
  shows "sched_inv s1" and "same_sys s s1" and "runqs s1 = runqs s" and "rq_len (sc_k s1 l) = rq_len (sc_k s l)"
proof -
  show q: "runqs s1 = runqs s" and len: "rq_len (sc_k s1 l) = rq_len (sc_k s l)" and same: "same_sys s s1"
    by (auto simp: s1 upd_k_def fun_eq_iff same_sys_def)
  have th: "soft_th (sc_k s1 k) j = soft_th (sc_k s k) j" for k j by (simp add: s1 upd_k_def)
  have "queues_ok s1" using inv by (auto simp: s1 upd_k_def queues_ok_def sched_inv_def)
  moreover have "sched_places s1" using inv q same by (simp add: sched_inv_def sched_places_def same_sys_def fun_eq_iff) (simp add: s1 upd_k_def)
  moreover have "soft_ok s1" using inv idle q same by (simp add: soft_ok_def th same_sys_def sched_inv_def)
  moreover have "rcu_ok s1" "live_ok s1" using inv by (auto simp: s1 upd_k_def rcu_ok_def live_ok_def sched_inv_def)
  ultimately show "sched_inv s1" by (simp add: sched_inv_def)
qed

lemma idle_busy:
  assumes ok: "soft_ok s" and k: "k < sc_maxks s" "i < 3" and s1: "s1 = upd_k k (soft_mark i True) s"
  shows "idle_soft s1 \<subseteq> idle_soft s" and "soft_th (sc_k s k) i \<notin> idle_soft s1"
proof -
  have th: "soft_th (sc_k s1 k') j = soft_th (sc_k s k') j" for k' j by (simp add: s1 upd_k_def)
  have busy: "soft_busy (sc_k s1 k') j = (soft_busy (sc_k s k') j \<or> k' = k \<and> j = i)" if "j < 3" for k' j
    using that k(2) by (simp add: s1 upd_k_def)
  have m: "sc_maxks s1 = sc_maxks s" by (simp add: s1 upd_k_def)
  show "idle_soft s1 \<subseteq> idle_soft s"
  proof
    fix t assume "t \<in> idle_soft s1"
    then obtain k' j where "k' < sc_maxks s" "j < 3" "\<not> soft_busy (sc_k s k') j" "t = soft_th (sc_k s k') j"
      using busy by (auto simp: idle_soft_def m th)
    then show "t \<in> idle_soft s" unfolding idle_soft_def by blast
  qed
  show "soft_th (sc_k s k) i \<notin> idle_soft s1"
  proof
    assume "soft_th (sc_k s k) i \<in> idle_soft s1"
    then obtain k' j where j: "k' < sc_maxks s" "j < 3" "\<not> soft_busy (sc_k s1 k') j" "soft_th (sc_k s k) i = soft_th (sc_k s k') j"
      by (auto simp: idle_soft_def m th)
    have "(k, i) = (k', j)"
      using ok k j by (intro inj_onD [of "\<lambda>(k, i). soft_th (sc_k s k) i" "{..<sc_maxks s} \<times> {..<3}"]) (auto simp: soft_ok_def)
    then show False using busy [OF j(2), of k'] j(3) by simp
  qed
qed

definition soft_prog :: "nat \<Rightarrow> sched \<Rightarrow> bool \<Rightarrow> sched \<Rightarrow> bool" where
  "soft_prog l s w s' \<longleftrightarrow> sched_inv s' \<and> same_sys s s' \<and> (w \<longrightarrow> rq_len (sc_k s' l) \<noteq> 0) \<and> (\<forall>t. wakeable s t \<longrightarrow> wakeable s' t)"

lemma softirq_start_spec:
  assumes inv: "sched_inv s" and w: "w \<longrightarrow> rq_len (sc_k s l) \<noteq> 0" and k: "k < sc_maxks s" "i < 3"
    and go: "go \<longrightarrow> \<not> soft_busy (sc_k s k) i"
  shows "\<exists>w' s'. softirq_start go (soft_mark i True) (soft_th (sc_k s k) i) t1 t2 l k (w, s) = Some (w', s') \<and> soft_prog l s w' s'"
proof (cases go)
  case False
  then show ?thesis using inv w by (simp add: softirq_start_def soft_prog_def same_sys_def)
next
  case True
  define s1 where "s1 = upd_k k (soft_mark i True) s"
  let ?th = "soft_th (sc_k s k) i"
  have ok: "soft_ok s" using inv by (simp add: sched_inv_def)
  note idle = idle_busy [OF ok k s1_def]
  have sub: "idle_soft s1 \<inter> queued (runqs s) = {}" "idle_soft s1 \<inter> claimed (sc_pc s) = {}" using idle(1) ok by (auto simp: soft_ok_def)
  note s1 = mark_inv [OF inv s1_def sub]
  have "?th \<in> idle_soft s" using True go k by (auto simp: idle_soft_def)
  then have "wakeable s1 ?th" using ok k idle(2) s1(2,3) by (auto simp: wakeable_def soft_ok_def same_sys_def)
  moreover obtain k' ths' where "thread_ready_head_locked t1 t2 ?th (sc_k s1 l, sc_th s1) = Some (k', ths')"
    "adds ?th (sc_k s1 l) (sc_th s1) k' ths'"
    using thread_ready_head_adds(1) [where ths = "sc_th s1" and th = ?th, OF inv_queue [OF s1(1), of l] wakeable_not_ready [OF s1(1) \<open>wakeable s1 ?th\<close>], of t1 t2] by blast
  ultimately obtain s' where s': "on_k l (thread_ready_head_locked t1 t2 ?th) s1 = Some s'" "sched_inv s'" "same_sys s1 s'"
      "rq_len (sc_k s' l) \<noteq> 0" "\<forall>t. wakeable s1 t \<and> t \<noteq> ?th \<longrightarrow> wakeable s' t"
    using on_k_adds [OF s1(1)] by blast
  have "wakeable s' t" if "wakeable s t" for t
    using that s'(5) idle(1) \<open>?th \<in> idle_soft s\<close> s1(2,3) by (auto simp: wakeable_def same_sys_def)
  then show ?thesis using True s' s1(2) by (auto simp: softirq_start_def s1_def [symmetric] soft_prog_def same_sys_def)
qed

lemma rx_poll_spec:
  assumes inv: "sched_inv s" and rx: "rx_ok s rx"
  shows "\<exists>w s'. rx_poll_locked t1 t2 rx l s = Some (w, s') \<and> sched_inv s' \<and> same_sys s s' \<and>
    (w \<or> rq_len (sc_k s l) \<noteq> 0 \<longrightarrow> rq_len (sc_k s' l) \<noteq> 0) "
proof (cases rx)
  case None
  then show ?thesis using inv by (auto simp: rx_poll_locked_def same_sys_def)
next
  case (Some th)
  then have w: "wakeable s th" using rx by (simp add: rx_ok_def)
  obtain k' ths' where "thread_ready_locked t1 t2 th (sc_k s l, sc_th s) = Some (k', ths')" "adds th (sc_k s l) (sc_th s) k' ths'"
    using thread_ready_locked_adds [where ths = "sc_th s" and th = th, OF inv_queue [OF inv, of l] wakeable_not_ready [OF inv w], of t1 t2] by blast
  then obtain s' where "on_k l (thread_ready_locked t1 t2 th) s = Some s'" "sched_inv s'" "same_sys s s'" "rq_len (sc_k s' l) \<noteq> 0"
    using on_k_adds [OF inv w] by blast
  then show ?thesis using Some by (auto simp: rx_poll_locked_def)
qed

lemma same_sys_trans: "same_sys s s1 \<Longrightarrow> same_sys s1 s2 \<Longrightarrow> same_sys s s2"
  by (simp add: same_sys_def)

lemma soft_marks: "kt_iokernel_busy_update (\<lambda>_. True) = soft_mark 0 True" "kt_timer_busy_update (\<lambda>_. True) = soft_mark 1 True"
    "kt_storage_busy_update (\<lambda>_. True) = soft_mark 2 True"
  by (simp_all add: fun_eq_iff numeral_2_eq_2)

lemma last_softirq_inv:
  assumes "sched_inv s"
  shows "sched_inv (upd_k k (kt_last_softirq_tsc_update f) s)" and "same_sys s (upd_k k (kt_last_softirq_tsc_update f) s)"
    and "rq_len (sc_k (upd_k k (kt_last_softirq_tsc_update f) s) l) = rq_len (sc_k s l)"
    and "wakeable (upd_k k (kt_last_softirq_tsc_update f) s) t = wakeable s t"
    and "kt_rq_overflow (sc_k (upd_k k (kt_last_softirq_tsc_update f) s) l) = kt_rq_overflow (sc_k s l)"
    and "seen_ok ts es (sc_k (upd_k k (kt_last_softirq_tsc_update f) s) l) = seen_ok ts es (sc_k s l)"
proof -
  let ?s = "upd_k k (kt_last_softirq_tsc_update f) s"
  have k: "sc_k ?s j = (if j = k then kt_last_softirq_tsc_update f (sc_k s j) else sc_k s j)" for j by (simp add: upd_k_def)
  have q: "runq (sc_k ?s j) = runq (sc_k s j)" "rq_ok (sc_k ?s j) = rq_ok (sc_k s j)" "published (sc_k ?s j) = published (sc_k s j)"
    "rq_len (sc_k ?s j) = rq_len (sc_k s j)" "rest (sc_k ?s j) = rest (sc_k s j)" for j
    by (simp_all add: k runq_def rq_ok_def published_def rq_len_def rq_list_def ring_list_def rq_at_def rest_def)
  have o: "sc_pc ?s = sc_pc s" "sc_live ?s = sc_live s" "sc_maxks ?s = sc_maxks s" "sc_th ?s = sc_th s" by (simp_all add: upd_k_def)
  then show "same_sys s ?s" "rq_len (sc_k ?s l) = rq_len (sc_k s l)" using q by (simp_all add: same_sys_def)
  have inv: "queues_ok s" "sched_places s" "soft_ok s" "rcu_ok s" "live_ok s" using assms by (simp_all add: sched_inv_def)
  have "soft_ok ?s" using inv(3) by (intro soft_ok_cong [OF inv(3) o(3) q(5) o(2)]) (simp_all add: soft_ok_def q(1) o(1))
  moreover have "rcu_ok ?s" by (rule rcu_ok_cong [OF inv(4) q(5) o(1)])
  moreover have "queues_ok ?s" "sched_places ?s" "live_ok ?s" using inv by (simp_all add: queues_ok_def sched_places_def live_ok_def q o)
  ultimately show "sched_inv ?s" by (simp add: sched_inv_def)
  show "wakeable ?s t = wakeable s t" using idle_soft_cong [OF o(3) q(5)] by (simp add: wakeable_def q o)
  show "kt_rq_overflow (sc_k ?s l) = kt_rq_overflow (sc_k s l)" "seen_ok ts es (sc_k ?s l) = seen_ok ts es (sc_k s l)"
    by (simp_all add: k seen_ok_def)
qed

lemma softirq_run_locked_spec:
  assumes inv: "sched_inv s" and k: "k < sc_maxks s" and rx: "rx_ok s (si_rx e)"
  shows "\<exists>w s'. softirq_run_locked e l k s = Some (w, s') \<and> sched_inv s' \<and> same_sys s s' \<and> (w \<longrightarrow> rq_len (sc_k s' l) \<noteq> 0)"
proof -
  obtain w1 s1 where s1: "softirq_start (\<not> kt_iokernel_busy (sc_k s k) \<and> si_iokernel e) (soft_mark 0 True)
      (kt_iokernel_softirq (sc_k s k)) (si_tsc e 0) (si_tsc e 1) l k (False, s) = Some (w1, s1)" "soft_prog l s w1 s1"
    using softirq_start_spec [OF inv _ k, of False l 0 "\<not> kt_iokernel_busy (sc_k s k) \<and> si_iokernel e" "si_tsc e 0" "si_tsc e 1"] by auto
  have rx1: "rx_ok s1 (si_rx e)" using rx s1(2) by (auto simp: rx_ok_def soft_prog_def split: option.splits)
  have i1: "sched_inv s1" using s1(2) by (simp add: soft_prog_def)
  obtain w2 s2 where s2: "rx_poll_locked (si_tsc e 2) (si_tsc e 3) (si_rx e) l s1 = Some (w2, s2)" "sched_inv s2" "same_sys s1 s2"
      "w2 \<or> rq_len (sc_k s1 l) \<noteq> 0 \<longrightarrow> rq_len (sc_k s2 l) \<noteq> 0"
    using rx_poll_spec [OF i1 rx1] by blast
  have k2: "k < sc_maxks s2" using k s1(2) s2(3) by (simp add: soft_prog_def same_sys_def)
  have w2: "w1 \<or> w2 \<longrightarrow> rq_len (sc_k s2 l) \<noteq> 0" using s1(2) s2(4) by (auto simp: soft_prog_def)
  obtain w3 s3 where s3: "softirq_start (\<not> kt_timer_busy (sc_k s2 k) \<and> si_timer e) (soft_mark 1 True)
      (kt_timer_softirq (sc_k s2 k)) (si_tsc e 4) (si_tsc e 5) l k (w1 \<or> w2, s2) = Some (w3, s3)" "soft_prog l s2 w3 s3"
    using softirq_start_spec [OF s2(2) w2 k2, of 1 "\<not> kt_timer_busy (sc_k s2 k) \<and> si_timer e" "si_tsc e 4" "si_tsc e 5"] by auto
  have k3: "k < sc_maxks s3" and i3: "sched_inv s3" and w3: "w3 \<longrightarrow> rq_len (sc_k s3 l) \<noteq> 0"
    using k2 s3(2) by (auto simp: soft_prog_def same_sys_def)
  obtain w4 s4 where s4: "softirq_start (\<not> kt_storage_busy (sc_k s3 k) \<and> si_storage e) (soft_mark 2 True)
      (kt_storage_softirq (sc_k s3 k)) (si_tsc e 6) (si_tsc e 7) l k (w3, s3) = Some (w4, s4)" "soft_prog l s3 w4 s4"
    using softirq_start_spec [OF i3 w3 k3, of 2 "\<not> kt_storage_busy (sc_k s3 k) \<and> si_storage e" "si_tsc e 6" "si_tsc e 7"]
    by (auto simp: numeral_2_eq_2)
  have i4: "sched_inv s4" using s4(2) by (simp add: soft_prog_def)
  note u = last_softirq_inv(1-3) [OF i4, where k = k and f = "\<lambda>_. si_now e"]
  have "softirq_run_locked e l k s = Some (w4, upd_k k (kt_last_softirq_tsc_update (\<lambda>_. si_now e)) s4)"
    by (simp add: softirq_run_locked_def soft_marks s1(1) s2(1) s3(1) s4(1) del: soft_mark.simps One_nat_def)
  moreover have "same_sys s s4"
    using s1(2) s2(3) s3(2) s4(2) by (auto simp: soft_prog_def intro: same_sys_trans)
  ultimately show ?thesis using u s4(2) same_sys_trans by (auto simp: soft_prog_def)
qed

lemma num_to_steal_spec:
  assumes "num_to_steal ls rs \<noteq> 0"
  shows "unat (num_to_steal ls rs) \<le> unat rs" and "0 < unat (num_to_steal ls rs)"
proof -
  have lt: "ls < rs" using assms by (auto simp: num_to_steal_def split: if_splits)
  define d where "d = unat (rs - ls)"
  have d: "d \<le> unat rs" "0 < d" using lt by (auto simp: d_def unat_sub word_less_nat_alt less_imp_le)
  have "div_up d 2 \<le> d" using d by (simp add: div_up_def)
  then have "div_up d 2 < 2 ^ 32" using d unat_u32_less [of rs] by simp
  then have "unat (of_nat (div_up d 2) :: u32) = div_up d 2" by (simp add: unsigned_of_nat take_bit_nat_eq_self)
  then have "unat (num_to_steal ls rs) \<le> div_up d 2" using lt by (auto simp: num_to_steal_def d_def min_def word_le_nat_alt)
  then show "unat (num_to_steal ls rs) \<le> unat rs" using \<open>div_up d 2 \<le> d\<close> d by linarith
  show "0 < unat (num_to_steal ls rs)" using assms by (simp add: unat_gt_0)
qed

lemma steal_inv:
  assumes inv: "sched_inv s" and lr: "l \<noteq> r" and n: "n \<noteq> 0" "unat n \<le> length (runq (sc_k s r))"
    and m: "merge_runqueues (sc_th s) (sc_k s l) (published (sc_k s l)) (sc_k s r) n = (kl, kr)"
    and s': "s' = s\<lparr>sc_k := (sc_k s)(l := kl, r := kr)\<rparr>"
  shows "sched_inv s'" and "same_sys s s'" and "rq_len (sc_k s' l) \<noteq> 0"
proof -
  let ?l = "sc_k s l" and ?r = "sc_k s r" and ?n = "unat n"
  note spec = merge_runqueues_spec [OF inv_queue [OF inv] inv_queue [OF inv] queue_length(1) [OF inv] m]
  have r: "mset (runq ?r) = mset (take ?n (runq ?r)) + mset (drop ?n (runq ?r))"
    by (metis append_take_drop_id mset_append)
  have ms: "mset (runq kl) = mset (take ?n (runq ?r)) + mset (runq ?l)" by (simp add: spec(2) merge_by_mset)
  have q: "queues_ok s" and pl: "sched_places s" and so: "soft_ok s" and rc: "rcu_ok s" and lv: "live_ok s"
    using inv by (simp_all add: sched_inv_def)
  have al: "alone (\<lambda>k. set (runq (sc_k s k)))" using pl by (simp add: sched_places_def places_ok_def)
  have dl: "distinct (runq ?l)" and dr: "distinct (runq ?r)" using q by (simp_all add: queues_ok_def)
  have disj: "set (runq ?l) \<inter> set (runq ?r) = {}" using aloneD [OF al] lr by auto
  have tr: "set (take ?n (runq ?r)) \<inter> set (drop ?n (runq ?r)) = {}" using dr by (metis append_take_drop_id distinct_append)
  have sets: "set (runq kl) = set (take ?n (runq ?r)) \<union> set (runq ?l)" "set (runq kr) = set (drop ?n (runq ?r))"
    by (simp_all add: spec merge_by_set)
  have u: "set (runq kl) \<union> set (runq kr) = set (runq ?l) \<union> set (runq ?r)"
    using sets set_append [of "take ?n (runq ?r)" "drop ?n (runq ?r)"] by auto
  have i: "set (runq kl) \<inter> set (runq kr) = {}" using sets tr disj set_drop_subset [of ?n "runq ?r"] by auto
  have "distinct (take ?n (runq ?r) @ runq ?l)" using dl dr disj set_take_subset [of ?n "runq ?r"] by auto
  moreover have "mset (runq kl) = mset (take ?n (runq ?r) @ runq ?l)" using ms by simp
  ultimately have dkl: "distinct (runq kl)" using mset_eq_imp_distinct_iff by blast
  have len: "length (runq kl) = length (take ?n (runq ?r)) + length (runq ?l)" by (simp add: spec(2) merge_by_length)
  have "length (drop ?n (runq ?r)) + length (take ?n (runq ?r)) = length (runq ?r)" by simp
  then have lr': "(of_nat (length (runq ?r)) - of_nat (length (take ?n (runq ?r))) :: u32) = of_nat (length (drop ?n (runq ?r)))"
    by (metis add_diff_cancel_right' of_nat_add)
  have "queues_ok s'"
    using q dkl dr spec(3,4) lr len lr' by (auto simp: queues_ok_def s' spec(1,6,7) add.commute)
  moreover have "(\<lambda>k. set (runq (sc_k s' k))) = (\<lambda>k. set (runq (sc_k s k)))(l := set (runq kl), r := set (runq kr))"
    using lr by (simp add: s' fun_eq_iff)
  then have "sched_places s'" using places_move [OF pl [unfolded sched_places_def] lr u i] by (simp add: sched_places_def) (simp add: s')
  moreover have rest: "rest (sc_k s' k) = rest (sc_k s k)" for k using rest_merge [OF m] by (simp add: s')
  have o: "sc_pc s' = sc_pc s" "sc_live s' = sc_live s" "sc_maxks s' = sc_maxks s" by (simp_all add: s')
  have "queued (runqs s') = queued (runqs s)"
  proof -
    have "queued f = set (f l) \<union> set (f r) \<union> (\<Union>k\<in>- {l, r}. set (f k))" for f by (auto simp: queued_def)
    from this [of "runqs s"] this [of "runqs s'"] show ?thesis using u lr by (simp add: s')
  qed
  then have "soft_ok s'" using so by (intro soft_ok_cong [OF so o(3) rest o(2)]) (simp_all add: soft_ok_def o)
  moreover have "rcu_ok s'" by (rule rcu_ok_cong [OF rc rest o(1)])
  ultimately show "sched_inv s'" using lv by (simp add: sched_inv_def live_ok_def o)
  show "same_sys s s'" by (simp add: same_sys_def o)
  have "0 < ?n" using n(1) by (simp add: unat_gt_0)
  then have "runq kl \<noteq> []" using len n(2) by (metis add_is_0 gr_implies_not0 length_0_conv length_take min.absorb2)
  then show "rq_len (sc_k s' l) \<noteq> 0" using ring_nonempty [OF spec(3,5)] lr by (simp add: s')
qed

lemma steal_work_spec:
  assumes inv: "sched_inv s" and lr: "l \<noteq> r" "r < sc_maxks s" and rx: "rx_ok s (si_rx (st_softirq e))"
    and seen: "unat (st_qp_rq_head e - qp_rq_tail (kt_q_ptrs (sc_k s r))) \<le> length (runq (sc_k s r))"
  shows "\<exists>w s'. steal_work e l r s = Some (w, s') \<and> sched_inv s' \<and> same_sys s s' \<and> (w \<longrightarrow> rq_len (sc_k s' l) \<noteq> 0)"
proof -
  let ?n = "num_to_steal (published (sc_k s l)) (st_qp_rq_head e - qp_rq_tail (kt_q_ptrs (sc_k s r)))"
  consider "\<not> work_available (st_rq_tail e) (st_rq_head e) (st_pending e) \<or> \<not> st_lock e"
    | "work_available (st_rq_tail e) (st_rq_head e) (st_pending e)" "st_lock e" "?n \<noteq> 0"
    | "work_available (st_rq_tail e) (st_rq_head e) (st_pending e)" "st_lock e" "?n = 0" by blast
  then show ?thesis
  proof cases
    case 1
    then show ?thesis using rx_poll_spec [OF inv rx] by (fastforce simp: steal_work_def)
  next
    case 2
    obtain kl kr where m: "merge_runqueues (sc_th s) (sc_k s l) (published (sc_k s l)) (sc_k s r) ?n = (kl, kr)" by fastforce
    have "unat ?n \<le> length (runq (sc_k s r))" using num_to_steal_spec(1) [OF 2(3)] seen by linarith
    note st = steal_inv [OF inv lr(1) 2(3) this m refl]
    have "steal_work e l r s = Some (True, s\<lparr>sc_k := (sc_k s)(l := kl, r := kr)\<rparr>)"
      using 2 m by (simp add: steal_work_def published_def [symmetric] Let_def)
    then show ?thesis using st by blast
  next
    case 3
    then show ?thesis using softirq_run_locked_spec [OF inv lr(2) rx, of l] by (simp add: steal_work_def published_def [symmetric] Let_def)
  qed
qed

section \<open>Switching threads keeps the invariant\<close>

lemma sched_pop_inv:
  assumes inv: "sched_inv s" and len: "rq_len (sc_k s l) \<noteq> 0" and cl: "claim (sc_pc s l) = {}"
    and pop: "rq_pop (sc_th s) (sc_k s l) = (th, k1)"
    and k2: "runq k2 = runq k1" "rq_ok k2 = rq_ok k1" "published k2 = published k1"
      "\<And>i. soft_th k2 i = soft_th k1 i" "\<And>i. soft_busy k2 i = soft_busy k1 i" "even (kt_rcu_gen k2) = in_sched p"
    and p: "claim p = {th}" "stack p = stack (sc_pc s l)"
    and s': "sc_k s' = (sc_k s)(l := k2)" "sc_pc s' = (sc_pc s)(l := p)" "sc_live s' = sc_live s" "sc_maxks s' = sc_maxks s"
      "\<And>t. th_thread_ready (sc_th s' t) = (t \<noteq> th \<and> th_thread_ready (sc_th s t))"
      "\<And>t. th_thread_running (sc_th s' t) = th_thread_running (sc_th s t)"
  shows "sched_inv s'"
proof -
  have q: "queues_ok s" and pl: "sched_places s" and so: "soft_ok s" and rc: "rcu_ok s" and lv: "live_ok s"
    using inv by (simp_all add: sched_inv_def)
  note spec = rq_pop_spec [OF inv_queue [OF inv] len pop]
  have soft: "soft_th (sc_k s' k) i = soft_th (sc_k s k) i" "soft_busy (sc_k s' k) i = soft_busy (sc_k s k) i" for k i
    using rest_soft(1,2) [OF rest_add(3) [OF pop]] by (simp_all add: s'(1) k2(4,5))
  have d: "distinct (th # runq k2)" using q spec(1) k2(1) by (metis queues_ok_def)
  have m: "set (runq (sc_k s l)) - {th} = set (runq k2)" "th \<in> set (runq (sc_k s l))" using d spec(1) k2(1) by auto
  have "published k2 = of_nat (length (runq k2))"
  proof -
    have "published (sc_k s l) = of_nat (length (runq (sc_k s l)))" using q by (simp add: queues_ok_def)
    then show ?thesis using spec(1,3) k2(1,3) by simp
  qed
  then have "queues_ok s'" using q d spec(2) k2(2) by (simp add: queues_ok_def s'(1))
  moreover have rdy: "(\<lambda>t. th_thread_ready (sc_th s' t)) = (\<lambda>t. th_thread_ready (sc_th s t))(th := False)" "(\<lambda>t. th_thread_running (sc_th s' t)) = (\<lambda>t. th_thread_running (sc_th s t))"
    using s'(5,6) by (auto simp: fun_eq_iff)
  have fs: "(\<lambda>k. set (runq (sc_k s' k))) = (\<lambda>k. set (runq (sc_k s k)))(l := set (runq (sc_k s l)) - {th})"
    "(\<lambda>k. claim (sc_pc s' k)) = (\<lambda>k. claim (sc_pc s k))(l := {th})" "(\<lambda>k. stack (sc_pc s' k)) = (\<lambda>k. stack (sc_pc s k))"
    using m(1) p by (auto simp: s'(1,2) fun_eq_iff)
  have pl': "sched_places s'"
    using places_pop [OF pl [unfolded sched_places_def] m(2)] cl by (simp add: sched_places_def fs rdy s'(3))
  moreover have "soft_ok s'"
  proof (rule soft_ok_eq [OF so s'(4) soft s'(3)])
    have "th \<in> queued (runqs s)" using m(2) by (auto simp: queued_def)
    then have "th \<notin> idle_soft s" using so by (auto simp: soft_ok_def)
    moreover have sub: "set (runq (sc_k s' k)) \<subseteq> set (runq (sc_k s k))" "claim (sc_pc s' k) \<subseteq> insert th (claim (sc_pc s k))" for k
      using fun_cong [OF fs(1), of k] fun_cong [OF fs(2), of k] by (auto split: if_splits)
    have "queued (runqs s') \<subseteq> queued (runqs s)" "claimed (sc_pc s') \<subseteq> insert th (claimed (sc_pc s))"
      unfolding queued_def claimed_def using sub by blast+
    moreover note this
    ultimately show "idle_soft s \<inter> queued (runqs s') = {}" "idle_soft s \<inter> claimed (sc_pc s') = {}"
      using so unfolding soft_ok_def by blast+
  qed
  moreover have "rcu_ok s'" using rc k2(6) by (simp add: rcu_ok_def s'(1,2))
  ultimately show ?thesis using lv by (simp add: sched_inv_def live_ok_def s'(3))
qed

lemma rcu_simps [simp]:
  "runq (set_rcu_gen g k) = runq k" "rq_ok (set_rcu_gen g k) = rq_ok k" "published (set_rcu_gen g k) = published k" "rq_len (set_rcu_gen g k) = rq_len k"
  "soft_th (set_rcu_gen g k) i = soft_th k i" "soft_busy (set_rcu_gen g k) i = soft_busy k i" "kt_rcu_gen (set_rcu_gen g k) = g"
  "kt_rq_overflow (set_rcu_gen g k) = kt_rq_overflow k"
  by (cases "(k, i)" rule: soft_th.cases;
      simp add: set_rcu_gen_def runq_def rq_ok_def published_def rq_len_def rq_list_def ring_list_def rq_at_def)+

lemma start_tsc_simps [simp]:
  "runq (k\<lparr>kt_q_ptrs := (kt_q_ptrs k)\<lparr>qp_run_start_tsc := now\<rparr>\<rparr>) = runq k" "rq_ok (k\<lparr>kt_q_ptrs := (kt_q_ptrs k)\<lparr>qp_run_start_tsc := now\<rparr>\<rparr>) = rq_ok k"
  "published (k\<lparr>kt_q_ptrs := (kt_q_ptrs k)\<lparr>qp_run_start_tsc := now\<rparr>\<rparr>) = published k"
  "soft_th (k\<lparr>kt_q_ptrs := v\<rparr>) i = soft_th k i" "soft_busy (k\<lparr>kt_q_ptrs := v\<rparr>) i = soft_busy k i"
  by (cases "(k, i)" rule: soft_th.cases;
      simp add: runq_def rq_ok_def published_def rq_len_def rq_list_def ring_list_def rq_at_def)+

lemma empty_iff: "sched_inv s \<Longrightarrow> kt_rq_head (sc_k s l) = kt_rq_tail (sc_k s l) \<longleftrightarrow> rq_len (sc_k s l) = 0"
  using rq_full_iff(3) [OF inv_queue, of s l] by blast

lemma sched_done_spec:
  assumes inv: "sched_inv s" and len: "rq_len (sc_k s l) \<noteq> 0" and pc: "in_sched (sc_pc s l)"
  shows "\<exists>s'. sched_done now l s = Some s' \<and> sched_inv s'"
proof -
  obtain th k1 where pop: "rq_pop (sc_th s) (sc_k s l) = (th, k1)" by fastforce
  define k2 where "k2 = set_rcu_gen (kt_rcu_gen k1 + 1) (k1\<lparr>kt_q_ptrs := (kt_q_ptrs k1)\<lparr>qp_run_start_tsc := now\<rparr>\<rparr>)"
  define s' where "s' = set_pc l (KJump None th) (upd_th th (\<lambda>t. t\<lparr>th_run_start_tsc := now, th_thread_ready := False\<rparr>) (s\<lparr>sc_k := (sc_k s)(l := k2)\<rparr>))"
  have "even (kt_rcu_gen (sc_k s l))" using inv pc by (simp add: sched_inv_def rcu_ok_def)
  then have "odd (kt_rcu_gen k2)" using rest_soft(3) [OF rest_add(3) [OF pop]] by (simp add: k2_def)
  moreover have "claim (sc_pc s l) = {}" "stack (sc_pc s l) = {}" using pc by (cases "sc_pc s l"; simp)+
  ultimately have "sched_inv s'"
    by (intro sched_pop_inv [OF inv len _ pop, of k2 "KJump None th" s'])
       (auto simp: k2_def s'_def set_pc_def upd_th_def)
  moreover have "sched_done now l s = Some s'"
    using len empty_iff [OF inv] pop by (simp add: sched_done_def k2_def s'_def Let_def)
  ultimately show ?thesis by blast
qed

lemma enter_spec:
  assumes inv: "sched_inv s" and pc: "sc_pc s l = KPark cur"
  shows "\<exists>s'. enter_schedule now slow cur l s = Some s' \<and> sched_inv s'"
proof -
  define s1 where "s1 = upd_th cur (th_last_cpu_update (\<lambda>_. kt_curr_cpu (sc_k s l))) s"
  have th1: "th_thread_ready (sc_th s1 t) = th_thread_ready (sc_th s t)" "th_thread_running (sc_th s1 t) = th_thread_running (sc_th s t)" for t
    by (simp_all add: s1_def upd_th_def)
  have o1: "sc_k s1 = sc_k s" "sc_pc s1 = sc_pc s" "sc_live s1 = sc_live s" "sc_maxks s1 = sc_maxks s" by (simp_all add: s1_def upd_th_def)
  have id1: "idle_soft s1 = idle_soft s" by (simp add: idle_soft_def o1)
  have inv1: "sched_inv s1"
    using inv by (simp add: sched_inv_def queues_ok_def sched_places_def soft_ok_def rcu_ok_def live_ok_def th1 o1 id1)
  show ?thesis
  proof (cases "rq_len (sc_k s l) = 0 \<or> slow")
    case True
    define s' where "s' = set_pc l (KEnter (Some cur)) s1"
    have "(\<lambda>k. claim (sc_pc s' k)) = (\<lambda>k. claim (sc_pc s1 k))" "(\<lambda>k. stack (sc_pc s' k)) = (\<lambda>k. stack (sc_pc s1 k))"
      using pc o1 by (auto simp: s'_def set_pc_def fun_eq_iff)
    moreover from this(1) have "claimed (sc_pc s') = claimed (sc_pc s1)" by (simp only: claimed_everywhere)
    moreover have "idle_soft s' = idle_soft s1" by (simp add: idle_soft_def s'_def set_pc_def)
    moreover have "sc_k s' = sc_k s1" "sc_th s' = sc_th s1" "sc_live s' = sc_live s1" "sc_maxks s' = sc_maxks s1" "in_sched (sc_pc s' k) = in_sched (sc_pc s1 k)" for k
      using pc o1 by (auto simp: s'_def set_pc_def)
    ultimately have "sched_inv s'"
      using inv1 by (simp add: sched_inv_def queues_ok_def sched_places_def soft_ok_def rcu_ok_def live_ok_def)
    moreover have "enter_schedule now slow cur l s = Some s'"
      using True empty_iff [OF inv, of l] by (simp add: enter_schedule_def Let_def s1_def [symmetric] s'_def o1)
    ultimately show ?thesis by blast
  next
    case False
    obtain th k1 where pop: "rq_pop (sc_th s1) (sc_k s1 l) = (th, k1)" by fastforce
    define k2 where "k2 = set_rcu_gen (kt_rcu_gen k1 + 2) (k1\<lparr>kt_q_ptrs := (kt_q_ptrs k1)\<lparr>qp_run_start_tsc := now\<rparr>\<rparr>)"
    define p where "p = (if th = cur then KThread th else KJump (Some cur) th)"
    define s' where "s' = set_pc l p (upd_th th (\<lambda>t. t\<lparr>th_run_start_tsc := now, th_thread_ready := False\<rparr>) (s1\<lparr>sc_k := (sc_k s1)(l := k2)\<rparr>))"
    have "odd (kt_rcu_gen (sc_k s l))" using inv pc by (simp add: sched_inv_def rcu_ok_def)
    then have "odd (kt_rcu_gen k2)" using rest_soft(3) [OF rest_add(3) [OF pop]] by (simp add: k2_def o1)
    moreover have "claim p = {th}" "stack p = {cur}" "\<not> in_sched p" by (simp_all add: p_def)
    ultimately have "sched_inv s'"
      using False pc by (intro sched_pop_inv [OF inv1 _ _ pop, of k2 p s']) (auto simp: k2_def s'_def set_pc_def upd_th_def o1)
    moreover have "enter_schedule now slow cur l s = Some s'"
      using False empty_iff [OF inv, of l] pop by (simp add: enter_schedule_def Let_def s1_def [symmetric] s'_def k2_def p_def o1)
    ultimately show ?thesis by blast
  qed
qed

text \<open>A step that leaves the queues and the softirqs alone.\<close>

lemma frame_inv:
  assumes inv: "sched_inv s"
    and k: "\<And>k. runq (sc_k s' k) = runq (sc_k s k)" "\<And>k. rq_ok (sc_k s' k) = rq_ok (sc_k s k)" "\<And>k. published (sc_k s' k) = published (sc_k s k)"
      "\<And>k i. soft_th (sc_k s' k) i = soft_th (sc_k s k) i" "\<And>k i. soft_busy (sc_k s' k) i = soft_busy (sc_k s k) i"
    and m: "sc_maxks s' = sc_maxks s" and c: "claimed (sc_pc s') \<subseteq> claimed (sc_pc s)"
    and l: "\<And>k i. k < sc_maxks s \<Longrightarrow> i < 3 \<Longrightarrow> soft_th (sc_k s k) i \<in> sc_live s'"
    and ok: "sched_places s'" "rcu_ok s'" "live_ok s'"
  shows "sched_inv s'"
proof -
  have "idle_soft s' = idle_soft s" by (rule idle_soft_eq [OF m k(4,5)])
  then have "soft_ok s'" using inv c l by (auto simp: sched_inv_def soft_ok_def k m)
  moreover have "queues_ok s'" using inv by (simp add: sched_inv_def queues_ok_def k)
  ultimately show ?thesis using ok by (simp add: sched_inv_def)
qed

lemma inv_parts:
  assumes "sched_inv s"
  shows "places_ok (\<lambda>k. set (runq (sc_k s k))) (\<lambda>k. claim (sc_pc s k)) (\<lambda>k. stack (sc_pc s k))
      (\<lambda>t. th_thread_ready (sc_th s t)) (\<lambda>t. th_thread_running (sc_th s t)) (sc_live s)"
    and "\<And>k i. k < sc_maxks s \<Longrightarrow> i < 3 \<Longrightarrow> soft_th (sc_k s k) i \<in> sc_live s" and "rcu_ok s" and "live_ok s"
  using assms by (simp_all add: sched_inv_def sched_places_def soft_ok_def)

lemma pc_funs:
  "(\<lambda>k. claim ((pc(l := p)) k)) = (\<lambda>k. claim (pc k))(l := claim p)" "(\<lambda>k. stack ((pc(l := p)) k)) = (\<lambda>k. stack (pc k))(l := stack p)"
  by (auto simp: fun_eq_iff)

lemma claimed_upd: "claim p \<subseteq> claim (pc l) \<Longrightarrow> claimed (pc(l := p)) \<subseteq> claimed pc"
  unfolding claimed_def by (auto split: if_splits) blast+

lemma same_pc_inv:
  assumes inv: "sched_inv s" and p: "claim p = claim (sc_pc s l)" "stack p = stack (sc_pc s l)" "in_sched p = in_sched (sc_pc s l)"
  shows "sched_inv (set_pc l p s)"
proof (rule frame_inv [OF inv])
  have "(\<lambda>k. claim (sc_pc s k))(l := claim p) = (\<lambda>k. claim (sc_pc s k))" "(\<lambda>k. stack (sc_pc s k))(l := stack p) = (\<lambda>k. stack (sc_pc s k))"
    using p by (auto simp: fun_eq_iff)
  then show "sched_places (set_pc l p s)" using inv_parts(1) [OF inv] by (simp add: sched_places_def set_pc_def pc_funs del: fun_upd_apply)
  show "claimed (sc_pc (set_pc l p s)) \<subseteq> claimed (sc_pc s)" using p(1) by (simp add: set_pc_def claimed_upd del: fun_upd_apply)
qed (use inv_parts(2-4) [OF inv] p(3) in \<open>auto simp: set_pc_def rcu_ok_def live_ok_def\<close>)

lemma sched_park_inv:
  assumes inv: "sched_inv s" and pc: "sc_pc s l = KThread t"
  shows "sched_inv (set_pc l (KPark t) s)" and "t \<notin> claimed (sc_pc (set_pc l (KPark t) s))" and "t \<notin> queued (runqs s)"
    and "t \<notin> idle_soft s" and "t \<in> sc_live s" and "\<not> th_thread_ready (sc_th s t)"
proof -
  let ?s = "set_pc l (KPark t) s"
  note pl = inv_parts(1) [OF inv]
  have st: "(\<lambda>k. stack (sc_pc s k))(l := {t}) = (\<lambda>k. stack (sc_pc s k))" using pc by (auto simp: fun_eq_iff)
  have "claimed (sc_pc ?s) \<subseteq> claimed (sc_pc s)" using claimed_upd [of "KPark t" "sc_pc s" l] by (simp add: set_pc_def)
  moreover have "sched_places ?s"
    using places_unclaim [OF pl, of l] by (simp add: sched_places_def set_pc_def pc_funs st del: fun_upd_apply)
  ultimately show "sched_inv ?s"
    using inv_parts(2-4) [OF inv] pc by (intro frame_inv [OF inv]) (auto simp: set_pc_def rcu_ok_def live_ok_def)
  have t: "t \<in> claim (sc_pc s l)" using pc by simp
  have al: "alone (\<lambda>k. claim (sc_pc s k))" using pl by (simp add: places_ok_def)
  show "t \<notin> claimed (sc_pc ?s)" using aloneD [OF al t] by (auto simp: claimed_def set_pc_def split: if_splits)
  have tc: "t \<in> everywhere (\<lambda>k. claim (sc_pc s k))" using t by (rule everywhere_mem)
  then show q: "t \<notin> queued (runqs s)" and lv: "t \<in> sc_live s" using pl by (auto simp: places_ok_def queued_everywhere)
  then show "\<not> th_thread_ready (sc_th s t)" using pl by (auto simp: places_ok_def queued_everywhere)
  show "t \<notin> idle_soft s" using tc inv by (auto simp: sched_inv_def soft_ok_def claimed_everywhere)
qed

lemma idle_set_pc [simp]: "idle_soft (set_pc l p s) = idle_soft s"
  by (simp add: idle_soft_def set_pc_def)

lemma set_pc_simps [simp]: "sc_k (set_pc l p s) = sc_k s" "sc_th (set_pc l p s) = sc_th s" "sc_live (set_pc l p s) = sc_live s"
    "sc_maxks (set_pc l p s) = sc_maxks s" "sc_pc (set_pc l p s) l = p"
  by (simp_all add: set_pc_def)

lemma on_k_set_pc: "on_k l f (set_pc l p s) = map_option (set_pc l p) (on_k l f s)"
  by (cases "f (sc_k s l, sc_th s)") (auto simp: on_k_def set_pc_def)

lemma softirq_park_inv:
  assumes inv: "sched_inv s" and pc: "sc_pc s l = KThread (soft_th (sc_k s k) i)" and k: "k < sc_maxks s" "i < 3"
  shows "sched_inv (set_pc l (KPark (soft_th (sc_k s k) i)) (upd_k k (soft_mark i False) s))"
proof -
  let ?t = "soft_th (sc_k s k) i"
  define s1 where "s1 = set_pc l (KPark ?t) s"
  define s2 where "s2 = upd_k k (soft_mark i False) s1"
  note p = sched_park_inv [OF inv pc]
  have busy: "soft_busy (sc_k s2 k') j = (soft_busy (sc_k s k') j \<and> (k' \<noteq> k \<or> j \<noteq> i))" if "j < 3" for k' j
    using that k(2) by (simp add: s2_def s1_def upd_k_def)
  have "idle_soft s2 \<subseteq> insert ?t (idle_soft s)"
  proof
    fix u assume "u \<in> idle_soft s2"
    then obtain k' j where j: "k' < sc_maxks s" "j < 3" "\<not> soft_busy (sc_k s2 k') j" "u = soft_th (sc_k s k') j"
      by (auto simp: idle_soft_def s2_def s1_def upd_k_def split: if_splits)
    show "u \<in> insert ?t (idle_soft s)"
    proof (cases "k' = k \<and> j = i")
      case False
      then show ?thesis using j busy [OF j(2), of k'] unfolding idle_soft_def by blast
    qed (use j in simp)
  qed
  moreover have so: "soft_ok s1" using p(1) by (simp add: s1_def sched_inv_def)
  ultimately have "idle_soft s2 \<inter> queued (runqs s1) = {}" "idle_soft s2 \<inter> claimed (sc_pc s1) = {}"
    using p(2,3) by (auto simp: s1_def soft_ok_def)
  then have "sched_inv s2" using mark_inv(1) [OF p(1) [folded s1_def] s2_def] by blast
  moreover have "s2 = set_pc l (KPark ?t) (upd_k k (soft_mark i False) s)" by (simp add: s2_def s1_def set_pc_def upd_k_def)
  ultimately show ?thesis by simp
qed

lemma same_flags_inv:
  assumes inv: "sched_inv s" and th: "\<And>t. t \<in> sc_live s \<Longrightarrow> th_thread_ready (ths t) = th_thread_ready (sc_th s t)"
    "\<And>t. t \<in> sc_live s \<Longrightarrow> th_thread_running (ths t) = th_thread_running (sc_th s t)"
  shows "sched_inv (s\<lparr>sc_th := ths\<rparr>)"
proof (rule frame_inv [OF inv])
  show "sched_places (s\<lparr>sc_th := ths\<rparr>)" using inv_parts(1) [OF inv] th by (simp add: sched_places_def places_ok_def)
qed (use inv_parts(2-4) [OF inv] in \<open>auto simp: rcu_ok_def live_ok_def\<close>)

lemma yield_ready_spec:
  assumes inv: "sched_inv s" and pc: "sc_pc s l = KThread t" and seen: "seen_ok ts es (sc_k s l)"
  shows "\<exists>s'. yield_ready ts es t1 t2 t l s = Some s' \<and> sched_inv s'"
proof -
  define s1 where "s1 = upd_th t (th_thread_ready_update (\<lambda>_. False)) s"
  note p = sched_park_inv [OF inv pc]
  have inv1: "sched_inv s1"
    unfolding s1_def upd_th_def using p(6) by (intro same_flags_inv [OF inv]) auto
  have pc1: "sc_pc s1 l = KThread t" using pc by (simp add: s1_def upd_th_def)
  note p1 = sched_park_inv [OF inv1 pc1]
  let ?s = "set_pc l (KPark t) s1"
  have w: "wakeable ?s t" using p1 by (simp add: wakeable_def)
  have "seen_ok ts es (sc_k ?s l)" using seen by (simp add: s1_def upd_th_def)
  then obtain k' ths' where f: "thread_ready ts es t1 t2 t (sc_k ?s l, sc_th ?s) = Some (k', ths')" "adds t (sc_k ?s l) (sc_th ?s) k' ths'"
    using thread_ready_adds [where ths = "sc_th ?s" and th = t, OF inv_queue [OF p1(1), of l] wakeable_not_ready [OF p1(1) w]] by blast
  obtain s' where s': "on_k l (thread_ready ts es t1 t2 t) ?s = Some s'" "sched_inv s'" using on_k_adds [where l = l and f = "thread_ready ts es t1 t2 t", OF p1(1) w f] by blast
  then have "yield_ready ts es t1 t2 t l s = Some s'"
    by (auto simp: yield_ready_def s1_def [symmetric] on_k_set_pc Let_def)
  then show ?thesis using s'(2) by blast
qed

lemma ready_spec:
  assumes inv: "sched_inv s" and w: "wakeable s th" and seen: "seen_ok ts es (sc_k s l)"
  shows "\<exists>s'. on_k l (thread_ready ts es t1 t2 th) s = Some s' \<and> sched_inv s' \<and> same_sys s s'"
proof -
  obtain k' ths' where f: "thread_ready ts es t1 t2 th (sc_k s l, sc_th s) = Some (k', ths')" "adds th (sc_k s l) (sc_th s) k' ths'"
    using thread_ready_adds [where ths = "sc_th s" and th = th, OF inv_queue [OF inv, of l] wakeable_not_ready [OF inv w] seen] by blast
  show ?thesis using on_k_adds [where l = l and f = "thread_ready ts es t1 t2 th", OF inv w f] by blast
qed

lemma ready_head_spec:
  assumes inv: "sched_inv s" and w: "wakeable s th"
  shows "\<exists>s'. on_k l (thread_ready_head t1 t2 th) s = Some s' \<and> sched_inv s' \<and> same_sys s s'"
proof -
  obtain k' ths' where f: "thread_ready_head t1 t2 th (sc_k s l, sc_th s) = Some (k', ths')" "adds th (sc_k s l) (sc_th s) k' ths'"
    using thread_ready_head_adds(2) [where ths = "sc_th s" and th = th, OF inv_queue [OF inv, of l] wakeable_not_ready [OF inv w]] by blast
  show ?thesis using on_k_adds [where l = l and f = "thread_ready_head t1 t2 th", OF inv w f] by blast
qed

text \<open>A thread leaves its kthread for the scheduler.\<close>

lemma leave_inv:
  assumes inv: "sched_inv s" and p: "claim p = {}" "stack p = {}" and rcu: "rcu_ok s'"
    and s': "s' = (set_pc l p s)\<lparr>sc_k := ks, sc_th := ths\<rparr>"
    and k: "\<And>k. runq (ks k) = runq (sc_k s k)" "\<And>k. rq_ok (ks k) = rq_ok (sc_k s k)" "\<And>k. published (ks k) = published (sc_k s k)"
      "\<And>k i. soft_th (ks k) i = soft_th (sc_k s k) i" "\<And>k i. soft_busy (ks k) i = soft_busy (sc_k s k) i"
    and th: "\<And>t. th_thread_ready (ths t) = th_thread_ready (sc_th s t)"
      "\<And>t. th_thread_running (ths t) = (if t \<in> stack (sc_pc s l) then False else th_thread_running (sc_th s t))"
  shows "sched_inv s'"
proof (rule frame_inv [OF inv])
  note pl = inv_parts(1) [OF inv]
  have "places_ok (\<lambda>k. set (runq (sc_k s k))) ((\<lambda>k. claim (sc_pc s k))(l := {})) ((\<lambda>k. stack (sc_pc s k))(l := {}))
      (\<lambda>t. th_thread_ready (sc_th s t)) (\<lambda>t. th_thread_running (ths t)) (sc_live s)"
    by (rule places_leave [OF places_unclaim [OF pl]]) (simp add: th)
  then show "sched_places s'" using p by (simp add: sched_places_def s' k th(1) set_pc_def pc_funs del: fun_upd_apply)
  show "claimed (sc_pc s') \<subseteq> claimed (sc_pc s)" using claimed_upd [of p "sc_pc s" l] p by (simp add: s' set_pc_def)
qed (use inv_parts(2,4) [OF inv] rcu k in \<open>simp_all add: s' set_pc_def live_ok_def\<close>)

text \<open>A kthread that uses no stack moves on, with a new RCU generation.\<close>

lemma pc_rcu_inv:
  assumes inv: "sched_inv s" and p: "claim p = claim (sc_pc s l)" "stack p = stack (sc_pc s l)"
    and g: "even (g (sc_k s l)) = in_sched p"
    and f: "\<And>k. runq (f k) = runq k" "\<And>k. rq_ok (f k) = rq_ok k" "\<And>k. published (f k) = published k"
      "\<And>k i. soft_th (f k) i = soft_th k i" "\<And>k i. soft_busy (f k) i = soft_busy k i"
  shows "sched_inv (set_pc l p (upd_k l (\<lambda>k. set_rcu_gen (g k) (f k)) s))"
proof (rule frame_inv [OF inv])
  let ?s = "set_pc l p (upd_k l (\<lambda>k. set_rcu_gen (g k) (f k)) s)"
  have q: "(\<lambda>k. set (runq (sc_k ?s k))) = (\<lambda>k. set (runq (sc_k s k)))" by (auto simp: fun_eq_iff upd_k_def set_pc_def f)
  have c: "(\<lambda>k. claim (sc_pc s k))(l := claim p) = (\<lambda>k. claim (sc_pc s k))" "(\<lambda>k. stack (sc_pc s k))(l := stack p) = (\<lambda>k. stack (sc_pc s k))"
    using p by (auto simp: fun_eq_iff)
  show "sched_places ?s" unfolding sched_places_def q
    using inv_parts(1) [OF inv] by (simp add: upd_k_def set_pc_def pc_funs c del: fun_upd_apply)
  show "claimed (sc_pc ?s) \<subseteq> claimed (sc_pc s)" using p(1) by (simp add: set_pc_def upd_k_def claimed_upd del: fun_upd_apply)
qed (use inv_parts(2-4) [OF inv] g in \<open>auto simp: upd_k_def set_pc_def rcu_ok_def live_ok_def f\<close>)

lemma on_other_core:
  "runq (k\<lparr>kt_curr_cpu := c\<rparr>) = runq k" "rq_ok (k\<lparr>kt_curr_cpu := c\<rparr>) = rq_ok k" "published (k\<lparr>kt_curr_cpu := c\<rparr>) = published k"
  "soft_th (k\<lparr>kt_curr_cpu := c\<rparr>) i = soft_th k i" "soft_busy (k\<lparr>kt_curr_cpu := c\<rparr>) i = soft_busy k i"
  by (cases "(k, i)" rule: soft_th.cases;
      simp add: runq_def rq_ok_def published_def rq_len_def rq_list_def ring_list_def rq_at_def)+

lemma resume_inv:
  assumes inv: "sched_inv s" and pc: "sc_pc s l = KCeded"
  shows "sched_inv (cede_resume cpu l s)"
proof -
  have "even (kt_rcu_gen (sc_k s l))" using inv_parts(3) [OF inv] pc by (simp add: rcu_ok_def)
  then show ?thesis unfolding cede_resume_def using pc by (intro pc_rcu_inv [OF inv]) (simp_all add: on_other_core)
qed

lemma cede_spec:
  assumes inv: "sched_inv s" and pc: "sc_pc s l = KThread t"
  shows "\<exists>s'. thread_finish_cede t1 t2 t l s = Some s' \<and> sched_inv s'"
proof -
  define s1 where "s1 = upd_th t (\<lambda>x. x\<lparr>th_thread_running := False, th_last_cpu := kt_curr_cpu (sc_k s l)\<rparr>) s"
  let ?s = "set_pc l (KEnter None) s1"
  note p = sched_park_inv [OF inv pc]
  have "sched_inv ?s"
  proof (rule leave_inv [OF inv, of "KEnter None"])
    show "?s = (set_pc l (KEnter None) s)\<lparr>sc_k := sc_k s, sc_th := sc_th s1\<rparr>" by (simp add: s1_def upd_th_def set_pc_def)
    show "rcu_ok ?s" using inv_parts(3) [OF inv] pc by (auto simp: rcu_ok_def s1_def upd_th_def set_pc_def)
  qed (use pc in \<open>auto simp: s1_def upd_th_def\<close>)
  note inv1 = this
  have "wakeable ?s t"
    using p by (simp add: wakeable_def) (auto simp: s1_def upd_th_def set_pc_def idle_soft_def claimed_def split: if_splits)
  from ready_head_spec [OF inv1 this] obtain s2 where s2: "on_k l (thread_ready_head t1 t2 t) ?s = Some s2" "sched_inv s2" by blast
  then obtain s3 where s3: "on_k l (thread_ready_head t1 t2 t) s1 = Some s3" "s2 = set_pc l (KEnter None) s3" by (auto simp: on_k_set_pc)
  have pc2: "sc_pc s2 l = KEnter None" by (simp add: s3(2) set_pc_def)
  have "odd (kt_rcu_gen (sc_k s2 l))" using inv_parts(3) [OF s2(2)] pc2 by (simp add: rcu_ok_def)
  then have "sched_inv (set_pc l KCeded (upd_k l (\<lambda>k. set_rcu_gen (kt_rcu_gen k + 1) k) s2))"
    using pc2 by (intro pc_rcu_inv [OF s2(2)]) simp_all
  moreover have "thread_finish_cede t1 t2 t l s = Some (set_pc l KCeded (upd_k l (\<lambda>k. set_rcu_gen (kt_rcu_gen k + 1) k) s2))"
    using s3 by (simp add: thread_finish_cede_def s1_def [symmetric] Let_def upd_k_def set_pc_def)
  ultimately show ?thesis by blast
qed

lemma exit_inv:
  assumes inv: "sched_inv s" and pc: "sc_pc s l = KThread t" and t: "\<forall>k i. k < sc_maxks s \<longrightarrow> i < 3 \<longrightarrow> t \<noteq> soft_th (sc_k s k) i"
  shows "sched_inv (thread_finish_exit t l s)"
proof (rule frame_inv [OF inv])
  let ?s = "thread_finish_exit t l s"
  define p where "p = (if th_main_thread (sc_th s t) then KShutdown else KEnter None)"
  have p: "claim p = {}" "stack p = {}" "\<not> in_sched p" by (simp_all add: p_def)
  have s': "?s = (set_pc l p s)\<lparr>sc_live := sc_live s - {t}\<rparr>" by (simp add: thread_finish_exit_def p_def set_pc_def)
  have "places_ok (\<lambda>k. set (runq (sc_k s k))) ((\<lambda>k. claim (sc_pc s k))(l := {})) ((\<lambda>k. stack (sc_pc s k))(l := {}))
      (\<lambda>t. th_thread_ready (sc_th s t)) (\<lambda>t. th_thread_running (sc_th s t)) (sc_live s - {t})"
    using pc by (intro places_die [OF inv_parts(1) [OF inv]]) simp_all
  then show "sched_places ?s" by (simp add: sched_places_def s' set_pc_def pc_funs p del: fun_upd_apply)
  show "claimed (sc_pc ?s) \<subseteq> claimed (sc_pc s)"
    using claimed_upd [of p "sc_pc s" l] p by (simp add: s' set_pc_def)
  show "live_ok ?s" using inv_parts(4) [OF inv] card_Diff1_le [of "sc_live s" t] by (simp add: live_ok_def s' set_pc_def)
  show "rcu_ok ?s" using inv_parts(3) [OF inv] pc p by (auto simp: rcu_ok_def s' set_pc_def)
qed (use inv_parts(2) [OF inv] t in \<open>auto simp: thread_finish_exit_def set_pc_def\<close>)

lemma spawn_spec:
  assumes inv: "sched_inv s" and th: "th \<notin> sc_live s" "card (sc_live s) < RUNTIME_MAX_THREADS" and seen: "seen_ok ts es (sc_k s l)"
  shows "\<exists>s'. thread_spawn ts es t1 t2 th l s = Some s' \<and> sched_inv s'"
proof -
  let ?s = "thread_create th l s"
  note pl = inv_parts(1) [OF inv]
  have flags: "(\<lambda>t. th_thread_ready (sc_th ?s t)) = (\<lambda>t. th_thread_ready (sc_th s t))(th := False)"
    "(\<lambda>t. th_thread_running (sc_th ?s t)) = (\<lambda>t. th_thread_running (sc_th s t))(th := False)"
    by (auto simp: thread_create_def upd_th_def fun_eq_iff)
  have o: "sc_k ?s = sc_k s" "sc_pc ?s = sc_pc s" "sc_live ?s = insert th (sc_live s)" "sc_maxks ?s = sc_maxks s"
    by (simp_all add: thread_create_def upd_th_def)
  have "sched_inv ?s"
  proof (rule frame_inv [OF inv])
    show "sched_places ?s" using places_born [OF pl th(1)] by (simp add: sched_places_def flags o)
    show "live_ok ?s" using inv_parts(4) [OF inv] th by (simp add: live_ok_def o)
    show "rcu_ok ?s" using inv_parts(3) [OF inv] by (simp add: rcu_ok_def o)
  qed (use inv_parts(2) [OF inv] in \<open>simp_all add: o\<close>)
  moreover have "th \<notin> queued (runqs s)" "th \<notin> claimed (sc_pc s)" using pl th(1) by (auto simp: places_ok_def queued_everywhere claimed_everywhere)
  moreover have "th \<notin> idle_soft s" using inv_parts(2) [OF inv] th(1) by (auto simp: idle_soft_def)
  ultimately have "wakeable ?s th" by (simp add: wakeable_def o idle_soft_def)
  then show ?thesis using ready_spec [OF \<open>sched_inv ?s\<close>, of th ts es l t1 t2] seen by (auto simp: thread_spawn_def o)
qed

lemma jump_inv:
  assumes inv: "sched_inv s" and pc: "sc_pc s l = KJump old t" and run: "\<not> th_thread_running (sc_th s t)"
  shows "sched_inv (jmp_thread now old t l s)"
proof (rule frame_inv [OF inv])
  let ?s = "jmp_thread now old t l s"
  note pl = inv_parts(1) [OF inv]
  have t: "t \<in> sc_live s" using pl pc everywhere_mem [of t "\<lambda>k. claim (sc_pc s k)" l] by (auto simp: places_ok_def)
  have old: "o' \<noteq> t" if "old = Some o'" for o'
    using pl pc run that everywhere_mem [of o' "\<lambda>k. stack (sc_pc s k)" l] t by (auto simp: places_ok_def)
  define run1 where "run1 = (\<lambda>x. if x \<in> stack (sc_pc s l) then False else th_thread_running (sc_th s x))"
  have st: "stack (sc_pc s l) = set_option old" using pc by (cases old) simp_all
  have "places_ok (\<lambda>k. set (runq (sc_k s k))) (\<lambda>k. claim (sc_pc s k)) ((\<lambda>k. stack (sc_pc s k))(l := {}))
      (\<lambda>t. th_thread_ready (sc_th s t)) run1 (sc_live s)"
    by (rule places_leave [OF pl]) (simp add: run1_def)
  from places_use [OF this t, of l] have "places_ok (\<lambda>k. set (runq (sc_k s k))) (\<lambda>k. claim (sc_pc s k)) ((\<lambda>k. stack (sc_pc s k))(l := {t}))
      (\<lambda>t. th_thread_ready (sc_th s t)) (run1(t := True)) (sc_live s)"
    using run by (simp add: run1_def)
  moreover have "(\<lambda>x. th_thread_running (sc_th ?s x)) = run1(t := True)" "(\<lambda>x. th_thread_ready (sc_th ?s x)) = (\<lambda>x. th_thread_ready (sc_th s x))"
    using old by (auto simp: fun_eq_iff jmp_thread_def upd_th_def set_pc_def run1_def st Let_def split: option.split)
  moreover have "(\<lambda>k. claim (sc_pc s k))(l := {t}) = (\<lambda>k. claim (sc_pc s k))" using pc by (auto simp: fun_eq_iff)
  moreover have o: "sc_k ?s = sc_k s" "sc_pc ?s = (sc_pc s)(l := KThread t)" "sc_live ?s = sc_live s" "sc_maxks ?s = sc_maxks s"
    by (auto simp: jmp_thread_def upd_th_def set_pc_def Let_def split: option.split)
  ultimately show "sched_places ?s" by (simp add: sched_places_def pc_funs del: fun_upd_apply)
  show "claimed (sc_pc ?s) \<subseteq> claimed (sc_pc s)" using claimed_upd [of "KThread t" "sc_pc s" l] pc by (simp add: o)
  show "rcu_ok ?s" using inv_parts(3) [OF inv] pc by (auto simp: rcu_ok_def o)
  show "live_ok ?s" using inv_parts(4) [OF inv] by (simp add: live_ok_def o)
qed (use inv_parts(2) [OF inv] in \<open>auto simp: jmp_thread_def upd_th_def Let_def split: option.split\<close>)

lemma try_spec:
  assumes w: "\<exists>w s1. work = Some (w, s1) \<and> sched_inv s1 \<and> same_sys s s1 \<and> (w \<longrightarrow> rq_len (sc_k s1 l) \<noteq> 0)"
    and pc: "in_sched (sc_pc s l)"
  shows "\<exists>s'. do { (w, s) \<leftarrow> work; if w then sched_done now l s else Some s } = Some s' \<and> sched_inv s'"
proof -
  obtain w s1 where s1: "work = Some (w, s1)" "sched_inv s1" "same_sys s s1" "w \<longrightarrow> rq_len (sc_k s1 l) \<noteq> 0" using w by blast
  show ?thesis
  proof (cases w)
    case True
    then show ?thesis using s1 pc sched_done_spec [OF s1(2), of l now] by (simp add: same_sys_def)
  qed (use s1 in simp)
qed

lemma overflow_inv:
  assumes inv: "sched_inv s"
  shows "sched_inv (upd_k l drain_overflow s)"
proof (rule frame_inv [OF inv])
  let ?s = "upd_k l drain_overflow s"
  note spec = drain_overflow_spec [OF inv_queue [OF inv, of l]]
  have "runq (sc_k ?s k) = runq (sc_k s k)" for k using spec(1) by (simp add: upd_k_def)
  then show "sched_places ?s" "runq (sc_k ?s k) = runq (sc_k s k)" for k
    using inv_parts(1) [OF inv] by (simp_all add: sched_places_def) (simp add: upd_k_def)
  show "rq_ok (sc_k ?s k) = rq_ok (sc_k s k)" "published (sc_k ?s k) = published (sc_k s k)" for k
    using spec(2,4) inv_queue [OF inv, of l] by (auto simp: upd_k_def)
  show "soft_th (sc_k ?s k) i = soft_th (sc_k s k) i" "soft_busy (sc_k ?s k) i = soft_busy (sc_k s k) i" for k i
    using rest_soft(1,2) [OF rest_drain_overflow] by (simp_all add: upd_k_def)
  show "rcu_ok ?s" using inv_parts(3) [OF inv] rest_soft(3) [OF rest_drain_overflow] by (auto simp: rcu_ok_def upd_k_def)
qed (use inv_parts(2,4) [OF inv] in \<open>auto simp: upd_k_def live_ok_def\<close>)

lemma schedule_spec:
  assumes inv: "sched_inv s" and l: "l < sc_maxks s" and pc: "sc_pc s l = KEnter self" and rx: "rx_ok s (si_rx e)"
  shows "\<exists>s'. schedule now wd e self l s = Some s' \<and> sched_inv s'"
proof -
  define s1 where "s1 = (case self of None \<Rightarrow> s | Some t \<Rightarrow> upd_th t (th_thread_running_update (\<lambda>_. False)) s)"
  define s2 where "s2 = set_pc l (KSched []) (upd_k l (\<lambda>k. set_rcu_gen (kt_rcu_gen k + 1) k) s1)"
  have s1: "sc_k s1 = sc_k s" "sc_pc s1 = sc_pc s" "sc_live s1 = sc_live s" "sc_maxks s1 = sc_maxks s"
    by (auto simp: s1_def upd_th_def split: option.split)
  have st: "stack (sc_pc s l) = set_option self" using pc by (cases self) simp_all
  have "sched_inv s2"
  proof (rule leave_inv [OF inv, of "KSched []"])
    show "s2 = (set_pc l (KSched []) s)\<lparr>sc_k := sc_k s2, sc_th := sc_th s1\<rparr>"
      by (auto simp: s2_def s1_def upd_k_def set_pc_def upd_th_def split: option.split)
    show "rcu_ok s2" using inv_parts(3) [OF inv] pc by (auto simp: rcu_ok_def s2_def s1 upd_k_def set_pc_def)
  qed (auto simp: s2_def s1 upd_k_def st, auto simp: s1_def upd_th_def split: option.splits if_splits)
  note inv2 = this
  have s2: "sc_pc s2 l = KSched []" "sc_maxks s2 = sc_maxks s" by (simp_all add: s2_def s1 upd_k_def)
  have "claimed (sc_pc s2) \<subseteq> claimed (sc_pc s)" using claimed_upd [of "KSched []" "sc_pc s" l] by (simp add: s2_def set_pc_def upd_k_def s1)
  moreover have "idle_soft s2 = idle_soft s" by (rule idle_soft_eq) (auto simp: s2_def s1 upd_k_def)
  moreover have "runqs s2 = runqs s" by (auto simp: s2_def s1 upd_k_def fun_eq_iff)
  ultimately have wk: "wakeable s2 t" if "wakeable s t" for t using that by (auto simp: wakeable_def s2_def s1 upd_k_def)
  define s3 where "s3 = upd_k l (kt_last_softirq_tsc_update (\<lambda>_. now)) s2"
  note u = last_softirq_inv [OF inv2, where k = l and f = "\<lambda>_. now", folded s3_def]
  have "rx_ok s3 (si_rx e)" using rx wk u(4) by (auto simp: rx_ok_def split: option.splits)
  then obtain w s4 where s4: "(if wd then softirq_run_locked e l l s3 else Some (False, s2)) = Some (w, s4)" "sched_inv s4"
      "sc_pc s4 l = KSched []" "w \<longrightarrow> rq_len (sc_k s4 l) \<noteq> 0"
    using softirq_run_locked_spec [OF u(1), of l e l] l s2 inv2 u(2) by (cases wd) (auto simp: same_sys_def)
  have run: "schedule now wd e self l s = (if w then sched_done now l s4
      else let s = (if kt_rq_overflow (sc_k s4 l) \<noteq> [] then upd_k l drain_overflow s4 else s4)
           in if kt_rq_head (sc_k s l) \<noteq> kt_rq_tail (sc_k s l) then sched_done now l s else Some s)"
    unfolding schedule_def s1_def [symmetric] Option.bind.bind_lunit s2_def [symmetric] s3_def [symmetric] s4(1) prod.case ..
  show ?thesis
  proof (cases w)
    case True
    then show ?thesis using run sched_done_spec [OF s4(2), of l now] s4(3,4) by simp
  next
    case False
    define s5 where "s5 = (if kt_rq_overflow (sc_k s4 l) \<noteq> [] then upd_k l drain_overflow s4 else s4)"
    have inv5: "sched_inv s5" "in_sched (sc_pc s5 l)" using overflow_inv [OF s4(2)] s4(2,3) by (simp_all add: s5_def upd_k_def)
    show ?thesis
      using run False inv5(1) sched_done_spec [OF inv5(1) _ inv5(2), of now] empty_iff [OF inv5(1), of l]
      by (simp add: s5_def [symmetric] Let_def)
  qed
qed

lemma softirq_run_spec:
  assumes inv: "sched_inv s" and l: "l < sc_maxks s" and rx: "rx_ok s (si_rx e)" and seen: "seen_ok ts es (sc_k s l)"
  shows "\<exists>w s'. softirq_run pending ts es e l s = Some (w, s') \<and> sched_inv s' \<and> same_sys s s'"
proof -
  define s1 where "s1 = upd_k l (kt_last_softirq_tsc_update (\<lambda>_. si_now e)) s"
  note u = last_softirq_inv [OF inv, where k = l and f = "\<lambda>_. si_now e", folded s1_def]
  have rx1: "rx_ok s1 (si_rx e)" using rx u(4) by (cases "si_rx e") (simp_all add: rx_ok_def)
  have same: "same_sys s s'" if "same_sys s1 s'" for s' using that u(2) by (simp add: same_sys_def)
  show ?thesis
  proof (cases pending)
    case True
    then show ?thesis using softirq_run_locked_spec [OF u(1) _ rx1, of l l] l u(2) same
      by (fastforce simp: softirq_run_def s1_def [symmetric] Let_def same_sys_def)
  next
    case False
    show ?thesis
    proof (cases "si_rx e")
      case None
      then show ?thesis using False u(1,2) by (auto simp: softirq_run_def s1_def [symmetric] Let_def)
    next
      case (Some th)
      then have w: "wakeable s1 th" and sn: "seen_ok ts es (sc_k s1 l)" using rx1 seen u(6) by (simp_all add: rx_ok_def)
      obtain s' where "on_k l (thread_ready ts es (si_tsc e 0) (si_tsc e 1) th) s1 = Some s'" "sched_inv s'" "same_sys s1 s'"
        using ready_spec [OF u(1) w sn, of "si_tsc e 0" "si_tsc e 1"] by blast
      then show ?thesis using False Some same by (auto simp: softirq_run_def s1_def [symmetric] Let_def)
    qed
  qed
qed

lemma yield_spec:
  assumes inv: "sched_inv s" and l: "k_at s l (KThread t)" and rx: "rx_ok s (si_rx e)" and seen: "seen_ok ts es (sc_k s l)"
    and seen': "\<forall>w s1. softirq_run pending ts es e l s = Some (w, s1) \<longrightarrow> seen_ok ts' es' (sc_k s1 l)"
  shows "\<exists>s'. thread_yield pending ts es e ts' es' t1 t2 t l s = Some s' \<and> sched_inv s'"
proof -
  obtain w s1 where s1: "softirq_run pending ts es e l s = Some (w, s1)" "sched_inv s1" "same_sys s s1"
    using softirq_run_spec [OF inv _ rx seen] l unfolding k_at_def by blast
  then have "sc_pc s1 l = KThread t" "seen_ok ts' es' (sc_k s1 l)" using l seen' by (simp_all add: k_at_def same_sys_def)
  then show ?thesis using s1 yield_ready_spec [OF s1(2)] by (simp add: thread_yield_def)
qed

lemma start_inv:
  assumes st: "boot_ok m s"
  shows "sched_inv s"
proof -
  define Q where "Q = (\<lambda>k. if k = (0::nat) then {m} else {})"
  have q: "(\<lambda>k. set (runq (sc_k s k))) = Q" and pc: "sc_pc s = (\<lambda>_. KEnter None)"
    using st by (simp_all add: boot_ok_def fun_eq_iff Q_def)
  have Q: "alone Q" "alone (\<lambda>k::nat. {}::nat set)" "everywhere Q = {m}" "everywhere (\<lambda>k::nat. {}::nat set) = {}"
    by (auto simp: alone_def everywhere_def Q_def split: if_splits)
  have "places_ok Q (\<lambda>k. {}) (\<lambda>k. {}) (\<lambda>t. th_thread_ready (sc_th s t)) (\<lambda>t. th_thread_running (sc_th s t)) (sc_live s)"
    using st Q by (simp add: places_ok_def boot_ok_def)
  then have "sched_places s" unfolding sched_places_def q pc by simp
  moreover have "queues_ok s" using st by (simp add: queues_ok_def boot_ok_def)
  moreover have "idle_soft s \<inter> {m} = {}" using st by (auto simp: idle_soft_def boot_ok_def)
  then have "idle_soft s \<inter> queued (runqs s) = {}" "idle_soft s \<inter> claimed (sc_pc s) = {}"
    unfolding queued_everywhere claimed_everywhere q pc claim.simps Q by simp_all
  then have "soft_ok s" using st by (simp add: soft_ok_def boot_ok_def)
  moreover have "rcu_ok s" "live_ok s" using st by (simp_all add: rcu_ok_def live_ok_def pc boot_ok_def)
  ultimately show ?thesis by (simp add: sched_inv_def)
qed

lemma sched_act_spec: "sched_act s r \<Longrightarrow> sched_inv s \<Longrightarrow> \<exists>s'. r = Some s' \<and> sched_inv s'"
proof (induction rule: sched_act.induct)
  case (ready s l t th ts es t1 t2)
  then show ?case using ready_spec by blast
next
  case (ready_head s l t th t1 t2)
  then show ?case using ready_head_spec by blast
next
  case (spawn s l t th ts es t1 t2)
  then show ?case using spawn_spec by blast
next
  case (softirq s l t e ts es pending)
  then obtain w s' where "softirq_run pending ts es e l s = Some (w, s')" "sched_inv s'"
    using softirq_run_spec [of s l e ts es pending] by (auto simp: k_at_def)
  then show ?case by simp
next
  case (park s l t)
  then show ?case using sched_park_inv(1) by (simp add: k_at_def)
next
  case (softirq_park s l k i)
  then show ?case using softirq_park_inv by (simp add: k_at_def)
next
  case (yield s l t e ts es pending ts' es' t1 t2)
  then show ?case using yield_spec by blast
next
  case (cede s l t t1 t2)
  then show ?case using cede_spec by (simp add: k_at_def)
next
  case (resume s l cpu)
  then show ?case using resume_inv by (simp add: k_at_def)
next
  case (exit s l t)
  then show ?case using exit_inv by (simp add: k_at_def)
next
  case (enter s l t now slow)
  then show ?case using enter_spec by (simp add: k_at_def)
next
  case (sched s l self e now wd)
  then show ?case using schedule_spec by (simp add: k_at_def)
next
  case (again s l r start_idx)
  then show ?case using same_pc_inv by (simp add: k_at_def)
next
  case (local s l sts e now)
  let ?s = "set_pc l (KSched sts) s"
  have inv: "sched_inv ?s" and l: "l < sc_maxks ?s" using local same_pc_inv [of s "KSched sts" l] by (simp_all add: k_at_def)
  have "claimed (sc_pc ?s) \<subseteq> claimed (sc_pc s)" using claimed_upd [of "KSched sts" "sc_pc s" l] by (simp add: set_pc_def)
  then have "rx_ok ?s (si_rx (st_softirq e))" using local(2) by (auto simp: rx_ok_def wakeable_def split: option.splits)
  then show ?case using try_spec [OF softirq_run_locked_spec [OF inv l], of _ l now] by (simp add: sched_try_def)
next
  case (steal s l r sts e now)
  let ?s = "set_pc l (KSched sts) s"
  have inv: "sched_inv ?s" using steal same_pc_inv [of s "KSched sts" l] by (simp add: k_at_def)
  have "claimed (sc_pc ?s) \<subseteq> claimed (sc_pc s)" using claimed_upd [of "KSched sts" "sc_pc s" l] by (simp add: set_pc_def)
  then have "rx_ok ?s (si_rx (st_softirq e))" using steal(4) by (auto simp: rx_ok_def wakeable_def split: option.splits)
  then show ?case using try_spec [OF steal_work_spec [OF inv], of l r e now] steal by (simp add: sched_try_def)
next
  case (jump s l old t now)
  then show ?case using jump_inv by (simp add: k_at_def)
qed

lemma sched_run_inv: "sched_run s \<Longrightarrow> sched_inv s"
proof (induction rule: sched_run.induct)
  case (init m s)
  then show ?case by (rule start_inv)
next
  case (step s s')
  then show ?case using sched_act_spec by blast
qed

end
