(* ===== verification/Sched_Stacks.thy ===== *)
theory Sched_Stacks
  imports Sched_Inv
begin

text \<open>
  A kthread that switches to a thread may have to wait until another kthread has left the stack of that thread.  The
  kthreads that wait for one another never form a circle, and a chain of waiting ends in a kthread that can go on.
\<close>

section \<open>Waiting for stacks\<close>

text \<open>A thread that is ready may still have its stack in use by the kthread it has just left.  \<open>owes\<close> relates a
  kthread that has such a thread, in its queue or as the next one, to the kthread that still uses the stack.\<close>

definition owes :: "sched \<Rightarrow> (nat \<times> nat) set" where
  "owes s = {(k, k'). k \<noteq> k' \<and> (set (runq (sc_k s k)) \<union> claim (sc_pc s k)) \<inter> stack (sc_pc s k') \<noteq> {}}"

lemma acyclic_source:
  assumes ac: "acyclic E" and E': "E' \<subseteq> E \<union> {l} \<times> UNIV" and l: "\<And>y. (y, l) \<notin> E'"
  shows "acyclic E'"
proof -
  have "(x, y) \<in> E\<^sup>+ \<and> y \<noteq> l" if "(x, y) \<in> E'\<^sup>+" "x \<noteq> l" for x y
    using that(1)
  proof (induction rule: trancl_induct)
    case (base y)
    then show ?case using E' l that(2) by blast
  next
    case (step y z)
    then have "(y, z) \<in> E" using E' by blast
    then show ?case using step l by (metis trancl.trancl_into_trancl)
  qed
  moreover have "(l, l) \<notin> E'\<^sup>+" using l by (meson tranclD2)
  ultimately show ?thesis using ac unfolding acyclic_def by blast
qed

text \<open>A step of kthread \<open>l\<close> adds nothing to the queues of the others.\<close>

definition others :: "nat \<Rightarrow> sched \<Rightarrow> sched \<Rightarrow> bool" where
  "others l s s' \<longleftrightarrow> sc_maxks s' = sc_maxks s \<and> (\<forall>k. k \<noteq> l \<longrightarrow> set (runq (sc_k s' k)) \<subseteq> set (runq (sc_k s k)) \<and> sc_pc s' k = sc_pc s k)"

lemma others_refl [simp]: "others l s s"
  by (simp add: others_def)

lemma others_trans: "others l s s1 \<Longrightarrow> others l s1 s2 \<Longrightarrow> others l s s2"
  by (fastforce simp: others_def)

lemma others_upd [simp]:
  "others l s (set_pc l p s') = others l s s'" "others l s (upd_th t f s') = others l s s'" "others l s (upd_k l g s') = others l s s'"
  "others l s (s'\<lparr>sc_k := (sc_k s')(l := k)\<rparr>) = others l s s'" "others l s (s'\<lparr>sc_live := v\<rparr>) = others l s s'"
  by (auto simp: others_def set_pc_def upd_th_def upd_k_def)

lemma others_flag:
  assumes "\<And>k. runq (f k) = runq k"
  shows "others l s (upd_k k f s') = others l s s'"
  using assms by (auto simp: others_def upd_k_def)

lemma runq_flags:
  "runq (k\<lparr>kt_iokernel_busy := b\<rparr>) = runq k" "runq (k\<lparr>kt_timer_busy := b\<rparr>) = runq k" "runq (k\<lparr>kt_storage_busy := b\<rparr>) = runq k"
  "runq (k\<lparr>kt_last_softirq_tsc := v\<rparr>) = runq k"
  by (simp_all add: runq_def rq_list_def rq_len_def ring_list_def rq_at_def)

lemma runq_soft_mark: "runq (soft_mark i b k) = runq k"
  by (cases "(i, b, k)" rule: soft_mark.cases) (simp_all add: runq_flags)

lemma others_on_k: "on_k l f s = Some s' \<Longrightarrow> others l s s' \<and> sc_pc s' = sc_pc s"
  by (auto simp: on_k_def others_def split: Option.bind_splits prod.splits)

lemma others_rx: "rx_poll_locked t1 t2 rx l s = Some (w, s') \<Longrightarrow> others l s s' \<and> sc_pc s' = sc_pc s"
  by (auto simp: rx_poll_locked_def split: option.splits Option.bind_splits dest: others_on_k)

lemma others_start:
  assumes "softirq_start go mark th t1 t2 l k (w, s) = Some (w', s')" and m: "\<And>k. runq (mark k) = runq k"
  shows "others l s s' \<and> sc_pc s' = sc_pc s"
proof (cases go)
  case True
  then have "on_k l (thread_ready_head_locked t1 t2 th) (upd_k k mark s) = Some s'"
    using assms(1) by (auto simp: softirq_start_def split: Option.bind_splits)
  note on = others_on_k [OF this]
  have "others l s (upd_k k mark s)" by (simp add: others_flag [OF m])
  then show ?thesis using on others_trans by (auto simp: upd_k_def)
qed (use assms in \<open>simp add: softirq_start_def\<close>)

lemma others_softirq:
  assumes "softirq_run_locked e l k s = Some (w, s')"
  shows "others l s s' \<and> sc_pc s' = sc_pc s"
proof -
  obtain w1 s1 w2 s2 w3 s3 s4 where
      a: "softirq_start (\<not> kt_iokernel_busy (sc_k s k) \<and> si_iokernel e) (kt_iokernel_busy_update (\<lambda>_. True))
          (kt_iokernel_softirq (sc_k s k)) (si_tsc e 0) (si_tsc e 1) l k (False, s) = Some (w1, s1)"
    and b: "rx_poll_locked (si_tsc e 2) (si_tsc e 3) (si_rx e) l s1 = Some (w2, s2)"
    and c: "softirq_start (\<not> kt_timer_busy (sc_k s2 k) \<and> si_timer e) (kt_timer_busy_update (\<lambda>_. True))
          (kt_timer_softirq (sc_k s2 k)) (si_tsc e 4) (si_tsc e 5) l k (w1 \<or> w2, s2) = Some (w3, s3)"
    and d: "softirq_start (\<not> kt_storage_busy (sc_k s3 k) \<and> si_storage e) (kt_storage_busy_update (\<lambda>_. True))
          (kt_storage_softirq (sc_k s3 k)) (si_tsc e 6) (si_tsc e 7) l k (w3, s3) = Some (w, s4)"
    and s': "s' = upd_k k (kt_last_softirq_tsc_update (\<lambda>_. si_now e)) s4"
    using assms unfolding softirq_run_locked_def by (auto split: Option.bind_splits)
  have "others l s4 s'" by (simp add: s' others_flag runq_flags)
  then show ?thesis
    using others_start [OF a] others_rx [OF b] others_start [OF c] others_start [OF d] others_trans
    by (simp add: runq_flags s' upd_k_def) blast
qed

lemma others_run: "softirq_run pending ts es e l s = Some (w, s') \<Longrightarrow> others l s s' \<and> sc_pc s' = sc_pc s"
  using others_softirq [of e l l "upd_k l (kt_last_softirq_tsc_update (\<lambda>_. si_now e)) s"]
    others_trans [of l s "upd_k l (kt_last_softirq_tsc_update (\<lambda>_. si_now e)) s"]
  by (auto simp: softirq_run_def Let_def upd_k_def split: if_splits option.splits Option.bind_splits dest!: others_on_k)

lemma others_steal:
  assumes inv: "sched_inv s" and lr: "l \<noteq> r" and "steal_work e l r s = Some (w, s')"
  shows "others l s s' \<and> sc_pc s' = sc_pc s"
proof -
  let ?n = "num_to_steal (published (sc_k s l)) (st_qp_rq_head e - qp_rq_tail (kt_q_ptrs (sc_k s r)))"
  consider "rx_poll_locked (si_tsc (st_softirq e) 0) (si_tsc (st_softirq e) 1) (si_rx (st_softirq e)) l s = Some (w, s')"
    | kl kr where "merge_runqueues (sc_th s) (sc_k s l) (published (sc_k s l)) (sc_k s r) ?n = (kl, kr)" "s' = s\<lparr>sc_k := (sc_k s)(l := kl, r := kr)\<rparr>"
    | "softirq_run_locked (st_softirq e) l r s = Some (w, s')"
    using assms(3) by (auto simp: steal_work_def published_def Let_def split: if_splits prod.splits)
  then show ?thesis
  proof cases
    case 1
    then show ?thesis by (rule others_rx)
  next
    case 2
    have "runq kr = drop (unat ?n) (runq (sc_k s r))"
      by (rule merge_runqueues_spec(1) [OF inv_queue [OF inv] inv_queue [OF inv] queue_length(1) [OF inv] 2(1)])
    then show ?thesis using 2(2) lr by (auto simp: others_def dest: in_set_dropD)
  next
    case 3
    then show ?thesis by (rule others_softirq)
  qed
qed

lemma others_done: "sched_done now l s = Some s' \<Longrightarrow> others l s s' \<and> stack (sc_pc s' l) = {}"
  by (auto simp: sched_done_def Let_def split: if_splits prod.splits)

lemma others_work:
  assumes r: "do { (w, s) \<leftarrow> work; if w then sched_done now l s else Some s } = Some s'"
    and w: "\<And>w s1. work = Some (w, s1) \<Longrightarrow> others l s s1 \<and> sc_pc s1 = sc_pc s" and st: "stack (sc_pc s l) = {}"
  shows "others l s s' \<and> stack (sc_pc s' l) = {}"
proof -
  obtain w s1 where s1: "work = Some (w, s1)" "(if w then sched_done now l s1 else Some s1) = Some s'" using r by (auto split: Option.bind_splits)
  show ?thesis
  proof (cases w)
    case True
    then show ?thesis using others_done [of now l s1 s'] w [OF s1(1)] s1(2) others_trans by auto
  qed (use s1 w st in auto)
qed

lemma others_schedule:
  assumes r: "schedule now wd e self l s = Some s'"
  shows "others l s s' \<and> stack (sc_pc s' l) = {}"
proof -
  define s1 where "s1 = (case self of None \<Rightarrow> s | Some t \<Rightarrow> upd_th t (th_thread_running_update (\<lambda>_. False)) s)"
  define s2 where "s2 = set_pc l (KSched []) (upd_k l (\<lambda>k. set_rcu_gen (kt_rcu_gen k + 1) k) s1)"
  define s3 where "s3 = upd_k l (kt_last_softirq_tsc_update (\<lambda>_. now)) s2"
  have "others l s s2" by (cases self) (simp_all add: s2_def s1_def)
  have "stack (sc_pc s2 l) = {}" by (simp add: s2_def)
  obtain w s4 where s4: "(if wd then softirq_run_locked e l l s3 else Some (False, s2)) = Some (w, s4)"
    and r4: "(if w then sched_done now l s4
      else let s = (if kt_rq_overflow (sc_k s4 l) \<noteq> [] then upd_k l drain_overflow s4 else s4)
           in if kt_rq_head (sc_k s l) \<noteq> kt_rq_tail (sc_k s l) then sched_done now l s else Some s) = Some s'"
    using r unfolding schedule_def s1_def [symmetric] Option.bind.bind_lunit s2_def [symmetric] s3_def [symmetric]
    by (cases "if wd then softirq_run_locked e l l s3 else Some (False, s2)") (auto simp del: if_split_eq1)
  have "others l s2 s3" "sc_pc s3 = sc_pc s2" by (simp_all add: s3_def upd_k_def)
  then have o4: "others l s s4" "stack (sc_pc s4 l) = {}"
    using \<open>others l s s2\<close> \<open>stack (sc_pc s2 l) = {}\<close> others_softirq [of e l l s3 w s4] s4 others_trans by (auto split: if_splits)
  define s5 where "s5 = (if w then s4 else if kt_rq_overflow (sc_k s4 l) \<noteq> [] then upd_k l drain_overflow s4 else s4)"
  have o5: "others l s s5" "stack (sc_pc s5 l) = {}" using o4 by (simp_all add: s5_def) (simp add: upd_k_def)
  have "sched_done now l s5 = Some s' \<or> s' = s5" using r4 by (auto simp: s5_def Let_def split: if_splits)
  then show ?thesis using o5 others_done [of now l s5 s'] others_trans by blast
qed

text \<open>Steps after which a kthread owes nothing on the stack it uses.\<close>

lemma unclaimed:
  assumes inv: "sched_inv s" and pc: "sc_pc s l = KThread t" and k: "k \<noteq> l"
  shows "t \<notin> set (runq (sc_k s k)) \<union> claim (sc_pc s k)"
proof -
  have c: "t \<in> claim (sc_pc s l)" using pc by simp
  have "alone (\<lambda>k. claim (sc_pc s k))" "everywhere (\<lambda>k. claim (sc_pc s k)) \<subseteq> sc_live s - everywhere (\<lambda>k. set (runq (sc_k s k)))"
    using inv_parts(1) [OF inv] by (simp_all add: places_ok_def)
  then show ?thesis using c k aloneD [of "\<lambda>k. claim (sc_pc s k)" t l k] unfolding everywhere_def by blast
qed

text \<open>Where a step may leave a kthread.\<close>

definition frees :: "nat \<Rightarrow> sched \<Rightarrow> sched \<Rightarrow> bool" where
  "frees l s s' \<longleftrightarrow> stack (sc_pc s' l) = {} \<or> (\<exists>t. sc_pc s' l = KThread t) \<or> (\<exists>t. sc_pc s l = KThread t \<and> sc_pc s' l = KPark t) \<or>
     stack (sc_pc s' l) \<subseteq> stack (sc_pc s l) \<and> set (runq (sc_k s' l)) \<union> claim (sc_pc s' l) \<subseteq> set (runq (sc_k s l)) \<union> claim (sc_pc s l) \<and>
     (\<forall>old t. sc_pc s' l = KJump (Some old) t \<longrightarrow> old \<noteq> t)"

lemma frees_none: "stack (sc_pc s' l) = {} \<Longrightarrow> frees l s s'" and frees_thread: "sc_pc s' l = KThread t \<Longrightarrow> frees l s s'"
  and frees_park: "sc_pc s l = KThread t \<Longrightarrow> sc_pc s' l = KPark t \<Longrightarrow> frees l s s'"
  by (simp_all add: frees_def)

lemma owes_step:
  assumes inv: "sched_inv s" and inv': "sched_inv s'" and ac: "acyclic (owes s)" and o: "others l s s'"
    and l: "frees l s s'"
  shows "acyclic (owes s')"
proof -
  have o1: "set (runq (sc_k s' k)) \<union> claim (sc_pc s' k) \<subseteq> set (runq (sc_k s k)) \<union> claim (sc_pc s k)" "sc_pc s' k = sc_pc s k" if "k \<noteq> l" for k
    using o that by (auto simp: others_def)
  have src: ?thesis if no: "\<And>k. k \<noteq> l \<Longrightarrow> (set (runq (sc_k s' k)) \<union> claim (sc_pc s' k)) \<inter> stack (sc_pc s' l) = {}"
  proof (rule acyclic_source [OF ac])
    show "owes s' \<subseteq> owes s \<union> {l} \<times> UNIV"
    proof
      fix e assume "e \<in> owes s'"
      then obtain k k' where e: "e = (k, k')" "k \<noteq> k'" "(set (runq (sc_k s' k)) \<union> claim (sc_pc s' k)) \<inter> stack (sc_pc s' k') \<noteq> {}"
        by (auto simp: owes_def)
      then show "e \<in> owes s \<union> {l} \<times> UNIV" using no [of k] o1 [of k] o1(2) [of k'] by (cases "k = l"; cases "k' = l") (auto simp: owes_def)
    qed
  qed (use no in \<open>auto simp: owes_def\<close>)
  from l show ?thesis unfolding frees_def
  proof (elim disjE exE conjE)
    assume sub: "stack (sc_pc s' l) \<subseteq> stack (sc_pc s l)" "set (runq (sc_k s' l)) \<union> claim (sc_pc s' l) \<subseteq> set (runq (sc_k s l)) \<union> claim (sc_pc s l)"
    have "set (runq (sc_k s' k)) \<union> claim (sc_pc s' k) \<subseteq> set (runq (sc_k s k)) \<union> claim (sc_pc s k)" "stack (sc_pc s' k) \<subseteq> stack (sc_pc s k)" for k
      using o1 [of k] sub by (cases "k = l", auto)+
    then have "owes s' \<subseteq> owes s" unfolding owes_def by blast
    then show ?thesis using ac by (rule acyclic_subset [rotated])
  next
    fix t assume t: "sc_pc s l = KThread t" "sc_pc s' l = KPark t"
    have "t \<notin> set (runq (sc_k s' k)) \<union> claim (sc_pc s' k)" if "k \<noteq> l" for k
      using unclaimed [OF inv t(1) that] o1(1) [OF that] by blast
    then show ?thesis using t(2) by (intro src) simp
  next
    fix t assume "sc_pc s' l = KThread t"
    then show ?thesis using unclaimed [OF inv'] by (intro src) auto
  qed (intro src, simp)
qed

lemma others_yield:
  assumes "thread_yield pending ts es e ts' es' t1 t2 t l s = Some s'"
  shows "others l s s' \<and> sc_pc s' l = KPark t"
proof -
  obtain w s1 where s1: "softirq_run pending ts es e l s = Some (w, s1)" "yield_ready ts' es' t1 t2 t l s1 = Some s'"
    using assms by (auto simp: thread_yield_def split: Option.bind_splits)
  obtain s2 where s2: "on_k l (thread_ready ts' es' t1 t2 t) (upd_th t (th_thread_ready_update (\<lambda>_. False)) s1) = Some s2" "s' = set_pc l (KPark t) s2"
    using s1(2) by (auto simp: yield_ready_def Let_def split: Option.bind_splits)
  have "others l s (upd_th t (th_thread_ready_update (\<lambda>_. False)) s1)" using others_run [OF s1(1)] by simp
  then show ?thesis using others_on_k [OF s2(1)] s2(2) others_trans [of l s "upd_th t (th_thread_ready_update (\<lambda>_. False)) s1" s2] by simp
qed

lemma others_cede:
  assumes "thread_finish_cede t1 t2 t l s = Some s'"
  shows "others l s s' \<and> stack (sc_pc s' l) = {}"
proof -
  define s0 where "s0 = upd_th t (\<lambda>th. th\<lparr>th_thread_running := False, th_last_cpu := kt_curr_cpu (sc_k s l)\<rparr>) s"
  obtain s1 where s1: "on_k l (thread_ready_head t1 t2 t) s0 = Some s1"
    "s' = set_pc l KCeded (upd_k l (\<lambda>k. set_rcu_gen (kt_rcu_gen k + 1) k) s1)"
    using assms by (auto simp: thread_finish_cede_def Let_def s0_def split: Option.bind_splits)
  have "others l s s0" by (simp add: s0_def)
  then show ?thesis using others_on_k [OF s1(1)] s1(2) others_trans [of l s s0 s1] by auto
qed

lemma others_enter:
  assumes inv: "sched_inv s" and pc: "sc_pc s l = KPark t" and r: "enter_schedule now slow t l s = Some s'"
  shows "others l s s' \<and> frees l s s'"
proof -
  define s1 where "s1 = upd_th t (th_last_cpu_update (\<lambda>_. kt_curr_cpu (sc_k s l))) s"
  have o: "others l s s1" "sc_k s1 = sc_k s" "sc_pc s1 = sc_pc s" by (simp_all add: s1_def) (simp_all add: upd_th_def)
  show ?thesis
  proof (cases "kt_rq_head (sc_k s l) = kt_rq_tail (sc_k s l) \<or> slow")
    case True
    then have "s' = set_pc l (KEnter (Some t)) s1" using r by (auto simp: enter_schedule_def Let_def s1_def upd_th_def)
    then show ?thesis using o pc by (simp add: set_pc_def others_def frees_def)
  next
    case False
    obtain th k where pop: "rq_pop (sc_th s1) (sc_k s l) = (th, k)" by fastforce
    define k2 where "k2 = set_rcu_gen (kt_rcu_gen k + 2) (k\<lparr>kt_q_ptrs := (kt_q_ptrs k)\<lparr>qp_run_start_tsc := now\<rparr>\<rparr>)"
    have s': "s' = set_pc l (if th = t then KThread th else KJump (Some t) th)
        (upd_th th (\<lambda>t. t\<lparr>th_run_start_tsc := now, th_thread_ready := False\<rparr>) (s1\<lparr>sc_k := (sc_k s1)(l := k2)\<rparr>))"
      using r False pop by (auto simp: enter_schedule_def Let_def s1_def [symmetric] o k2_def set_rcu_gen_def)
    have "rq_len (sc_k s l) \<noteq> 0" using False by (auto simp: rq_len_def unat_eq_0)
    then have "runq (sc_k s l) = th # runq k" using rq_pop_spec [OF inv_queue [OF inv] _ pop] by simp
    moreover have "runq k2 = runq k" by (simp add: k2_def set_rcu_gen_def runq_def rq_list_def rq_len_def ring_list_def rq_at_def)
    ultimately show ?thesis using o pc by (auto simp: s' set_pc_def upd_th_def others_def frees_def)
  qed
qed

lemma jump_others: "others l s (jmp_thread now old t l s) \<and> sc_pc (jmp_thread now old t l s) l = KThread t"
  by (cases old) (simp_all add: jmp_thread_def Let_def)

lemma sched_act_frame:
  "sched_act s r \<Longrightarrow> sched_inv s \<Longrightarrow> r = Some s' \<Longrightarrow> \<exists>l. l < sc_maxks s \<and> others l s s' \<and> frees l s s'"
proof (induction rule: sched_act.induct)
  case (ready s l t th ts es t1 t2)
  then have "others l s s' \<and> frees l s s'" using others_on_k [of l _ s s'] frees_thread [of s' l t s] by (simp add: k_at_def)
  then show ?case using ready by (auto simp: k_at_def)
next
  case (ready_head s l t th t1 t2)
  then have "others l s s' \<and> frees l s s'" using others_on_k [of l _ s s'] frees_thread [of s' l t s] by (simp add: k_at_def)
  then show ?case using ready_head by (auto simp: k_at_def)
next
  case (spawn s l t th ts es t1 t2)
  have c: "others l s (thread_create th l s)" "sc_pc (thread_create th l s) = sc_pc s" by (simp_all add: thread_create_def) (simp add: upd_th_def)
  have "others l (thread_create th l s) s' \<and> sc_pc s' = sc_pc (thread_create th l s)" using spawn others_on_k unfolding thread_spawn_def by blast
  then have "others l s s' \<and> frees l s s'" using c spawn others_trans frees_thread [of s' l t s] unfolding k_at_def by metis
  then show ?case using spawn by (auto simp: k_at_def)
next
  case (softirq s l t e ts es pending)
  then have "others l s s' \<and> frees l s s'" using others_run frees_thread [of s' l t s] by (fastforce simp: k_at_def)
  then show ?case using softirq by (auto simp: k_at_def)
next
  case (park s l t)
  then have "others l s s' \<and> frees l s s'" using frees_park [of s l t s'] by (auto simp: k_at_def)
  then show ?case using park by (auto simp: k_at_def)
next
  case (softirq_park s l k i)
  have "others l s (upd_k k (soft_mark i False) s)" by (simp add: others_flag runq_soft_mark)
  then have "others l s s' \<and> frees l s s'" using softirq_park frees_park [of s l _ s'] by (auto simp: k_at_def)
  then show ?case using softirq_park by (auto simp: k_at_def)
next
  case (yield s l t e ts es pending ts' es' t1 t2)
  then have "others l s s' \<and> frees l s s'" using others_yield frees_park [of s l t s'] by (simp add: k_at_def)
  then show ?case using yield by (auto simp: k_at_def)
next
  case (cede s l t t1 t2)
  then have "others l s s' \<and> frees l s s'" using others_cede frees_none [of s' l s] by simp
  then show ?case using cede by (auto simp: k_at_def)
next
  case (resume s l cpu)
  then have "others l s s' \<and> frees l s s'" using frees_none [of s' l s] by (auto simp: cede_resume_def)
  then show ?case using resume by (auto simp: k_at_def)
next
  case (exit s l t)
  then have "others l s s' \<and> frees l s s'" using frees_none [of s' l s] by (auto simp: thread_finish_exit_def)
  then show ?case using exit by (auto simp: k_at_def)
next
  case (enter s l t now slow)
  then have "others l s s' \<and> frees l s s'" using others_enter by (simp add: k_at_def)
  then show ?case using enter by (auto simp: k_at_def)
next
  case (sched s l self e now wd)
  then have "others l s s' \<and> frees l s s'" using others_schedule frees_none [of s' l s] by simp
  then show ?case using sched by (auto simp: k_at_def)
next
  case (again s l r start_idx)
  then have "others l s s' \<and> frees l s s'" using frees_none [of s' l s] by auto
  then show ?case using again by (auto simp: k_at_def)
next
  case (local s l sts e now)
  let ?s = "set_pc l (KSched sts) s"
  have "others l ?s s' \<and> stack (sc_pc s' l) = {}"
    using local others_softirq by (intro others_work [of "softirq_run_locked (st_softirq e) l l ?s" now]) (auto simp: sched_try_def)
  then have "others l s s' \<and> frees l s s'" using others_trans [of l s ?s s'] frees_none by simp
  then show ?case using local by (auto simp: k_at_def)
next
  case (steal s l r sts e now)
  let ?s = "set_pc l (KSched sts) s"
  have "sched_inv ?s" using steal same_pc_inv [of s "KSched sts" l] by (simp add: k_at_def)
  then have "others l ?s s' \<and> stack (sc_pc s' l) = {}"
    using steal others_steal [of ?s l r e] by (intro others_work [of "steal_work e l r ?s" now]) (auto simp: sched_try_def)
  then have "others l s s' \<and> frees l s s'" using others_trans [of l s ?s s'] frees_none by simp
  then show ?case using steal by (auto simp: k_at_def)
next
  case (jump s l old t now)
  then have "others l s s' \<and> frees l s s'" using jump_others [of l s now old t] frees_thread by auto
  then show ?case using jump by (auto simp: k_at_def)
qed

text \<open>No kthread waits for the stack it uses itself, and the waiting kthreads form no circle.\<close>

definition stacks_ok :: "sched \<Rightarrow> bool" where
  "stacks_ok s \<longleftrightarrow> acyclic (owes s) \<and> (\<forall>k old t. sc_pc s k = KJump (Some old) t \<longrightarrow> old \<noteq> t) \<and> (\<forall>k. sc_maxks s \<le> k \<longrightarrow> sc_pc s k = KEnter None)"

lemma sched_act_stacks:
  assumes act: "sched_act s (Some s')" and inv: "sched_inv s" and st: "stacks_ok s"
  shows "stacks_ok s'"
proof -
  obtain l where l: "l < sc_maxks s" "others l s s'" "frees l s s'" using sched_act_frame [OF act inv] by blast
  have "sched_inv s'" using sched_act_spec [OF act inv] by simp
  then have "acyclic (owes s')" using owes_step [OF inv _ _ l(2,3)] st by (simp add: stacks_ok_def)
  moreover have "old \<noteq> t" if "sc_pc s' k = KJump (Some old) t" for k old t
  proof (cases "k = l")
    case True
    then show ?thesis using that l(3) by (auto simp: frees_def)
  next
    case False
    then show ?thesis using that l(2) st by (auto simp: others_def stacks_ok_def)
  qed
  moreover have "sc_pc s' k = KEnter None" if "sc_maxks s' \<le> k" for k using that l st by (auto simp: others_def stacks_ok_def)
  ultimately show ?thesis by (auto simp: stacks_ok_def)
qed

lemma sched_run_stacks: "sched_run s \<Longrightarrow> stacks_ok s"
proof (induction rule: sched_run.induct)
  case (init m s)
  then have "sc_pc s = (\<lambda>_. KEnter None)" by (auto simp: boot_ok_def)
  then show ?case by (simp add: stacks_ok_def owes_def acyclic_def)
next
  case (step s s')
  then show ?case using sched_act_stacks sched_run_inv by blast
qed

definition waits_for :: "sched \<Rightarrow> (nat \<times> nat) set" where
  "waits_for s = {(l, k). \<exists>old t. sc_pc s l = KJump old t \<and> t \<in> stack (sc_pc s k)}"

lemma alone_finite:
  assumes "alone f" and "everywhere f \<subseteq> A" and "finite A"
  shows "finite {k. f k \<noteq> {}}"
proof -
  define g where "g = (\<lambda>t. THE k. t \<in> f k)"
  have g: "g t = k" if "t \<in> f k" for t k unfolding g_def using that aloneD [OF assms(1)] by (intro the_equality) blast+
  have "{k. f k \<noteq> {}} \<subseteq> g ` A"
  proof
    fix k assume "k \<in> {k. f k \<noteq> {}}"
    then obtain t where "t \<in> f k" by blast
    then show "k \<in> g ` A" using g [of t k] assms(2) by (force simp: everywhere_def)
  qed
  then show ?thesis using assms(3) finite_surj by blast
qed

lemma waits_for_wf:
  assumes inv: "sched_inv s" and st: "stacks_ok s"
  shows "acyclic (waits_for s)" and "wf ((waits_for s)\<inverse>)"
proof -
  have "waits_for s \<subseteq> owes s"
  proof
    fix e assume "e \<in> waits_for s"
    then obtain l k old t where e: "e = (l, k)" "sc_pc s l = KJump old t" "t \<in> stack (sc_pc s k)" by (auto simp: waits_for_def)
    have "old \<noteq> Some t" using e(2) st unfolding stacks_ok_def by blast
    then have "l \<noteq> k" using e by (cases old) auto
    then show "e \<in> owes s" using e by (auto simp: owes_def)
  qed
  then show ac: "acyclic (waits_for s)" using st unfolding stacks_ok_def by (meson acyclic_subset)
  have pl: "alone (\<lambda>k. claim (sc_pc s k))" "everywhere (\<lambda>k. claim (sc_pc s k)) \<subseteq> sc_live s"
    "alone (\<lambda>k. stack (sc_pc s k))" "everywhere (\<lambda>k. stack (sc_pc s k)) \<subseteq> sc_live s" "finite (sc_live s)"
    using inv_parts(1) [OF inv] inv_parts(4) [OF inv] by (auto simp: places_ok_def live_ok_def)
  have "waits_for s \<subseteq> {k. claim (sc_pc s k) \<noteq> {}} \<times> {k. stack (sc_pc s k) \<noteq> {}}"
    by (auto simp: waits_for_def)
  then have "finite (waits_for s)" using alone_finite [OF pl(1,2,5)] alone_finite [OF pl(3,4,5)] finite_subset by blast
  then show "wf ((waits_for s)\<inverse>)" using ac by (simp add: finite_acyclic_wf_converse)
qed

text \<open>A kthread that can do something else than wait.\<close>

definition no_softirq :: softirq_env where
  "no_softirq = \<lparr>si_iokernel = False, si_timer = False, si_storage = False, si_rx = None, si_now = 0, si_tsc = \<lambda>_. 0\<rparr>"

definition can_move :: "sched \<Rightarrow> nat \<Rightarrow> bool" where
  "can_move s k \<longleftrightarrow> (\<exists>s'. sched_act s (Some s') \<and> sc_pc s' k \<noteq> sc_pc s k)"

lemma can_move_park:
  assumes l: "k < sc_maxks s" and pc: "sc_pc s k = KPark t"
  shows "can_move s k"
proof -
  have "sched_act s (enter_schedule 0 True t k s)" using l pc by (intro sched_act.enter) (simp add: k_at_def)
  then show ?thesis using pc by (auto simp: can_move_def enter_schedule_def Let_def intro!: exI)
qed

lemma can_move_enter:
  assumes inv: "sched_inv s" and l: "k < sc_maxks s" and pc: "sc_pc s k = KEnter self"
  shows "can_move s k"
proof -
  have rx: "rx_ok s (si_rx no_softirq)" by (simp add: rx_ok_def no_softirq_def)
  obtain s' where s': "schedule 0 False no_softirq self k s = Some s'" using schedule_spec [OF inv l pc rx] by blast
  have "sched_act s (schedule 0 False no_softirq self k s)" using l pc rx by (intro sched_act.sched) (simp_all add: k_at_def)
  moreover have "sc_pc s' k \<noteq> KEnter self"
    using s' by (auto simp: schedule_def sched_done_def Let_def split: if_splits prod.splits) (simp_all add: upd_k_def)
  ultimately show ?thesis using s' pc by (auto simp: can_move_def)
qed

lemma can_move_jump:
  assumes l: "k < sc_maxks s" and pc: "sc_pc s k = KJump old t" and "\<not> th_thread_running (sc_th s t)"
  shows "can_move s k"
proof -
  have "sched_act s (Some (jmp_thread 0 old t k s))" using assms by (intro sched_act.jump) (simp_all add: k_at_def)
  then show ?thesis using pc jump_others [of k s 0 old t] by (auto simp: can_move_def)
qed

lemma wait_chain:
  assumes inv: "sched_inv s" and st: "stacks_ok s"
  shows "sc_pc s l = KJump old t \<Longrightarrow> \<exists>k. (l, k) \<in> (waits_for s)\<^sup>* \<and> can_move s k"
proof (induction l arbitrary: old t rule: wf_induct_rule [OF waits_for_wf(2) [OF inv st]])
  case (1 l)
  have max: "k < sc_maxks s" if "sc_pc s k \<noteq> KEnter None" for k using that st by (meson linorder_not_le stacks_ok_def)
  show ?case
  proof (cases "th_thread_running (sc_th s t)")
    case False
    then show ?thesis using can_move_jump [of l s old t] 1(2) max [of l] by auto
  next
    case True
    have c: "t \<in> claim (sc_pc s l)" using 1(2) by simp
    have pl: "everywhere (\<lambda>k. claim (sc_pc s k)) \<subseteq> sc_live s - everywhere (\<lambda>k. set (runq (sc_k s k)))"
      "\<forall>t\<in>sc_live s. th_thread_running (sc_th s t) = (t \<in> everywhere (\<lambda>k. stack (sc_pc s k)))"
      using inv_parts(1) [OF inv] by (simp_all add: places_ok_def)
    have "t \<in> everywhere (\<lambda>k. claim (sc_pc s k))" using c unfolding everywhere_def by blast
    then have "t \<in> everywhere (\<lambda>k. stack (sc_pc s k))" using pl True by blast
    then obtain k where k: "t \<in> stack (sc_pc s k)" by (auto simp: everywhere_def)
    then have lk: "(l, k) \<in> waits_for s" using 1(2) by (auto simp: waits_for_def)
    have "sc_pc s k \<noteq> KThread t" using c unclaimed [OF inv, of k t l] 1(2) by (cases "l = k") auto
    then consider "sc_pc s k = KPark t" | "sc_pc s k = KEnter (Some t)" | u where "sc_pc s k = KJump (Some t) u"
      using k by (cases "sc_pc s k" rule: stack.cases) auto
    then show ?thesis
    proof cases
      case 1
      then show ?thesis using can_move_park [OF max 1] lk by auto
    next
      case 2
      then show ?thesis using can_move_enter [OF inv max 2] lk by auto
    next
      case (3 u)
      then obtain k' where "(k, k') \<in> (waits_for s)\<^sup>*" "can_move s k'" using "1.IH" [of k] lk by blast
      then show ?thesis using lk converse_rtrancl_into_rtrancl by metis
    qed
  qed
qed

end
