(* ===== verification/Sched_Safety.thy ===== *)
theory Sched_Safety
  imports Sched_Stacks
begin

text \<open>
  Properties of the scheduler: the run queue as a double-ended queue behind the interface \<^verbatim>\<open>thread_deque\<close>, where threads
  are in reachable states, what stealing does, and what a kthread publishes to the iokernel.
\<close>

section \<open>The run queue as a double-ended queue\<close>

text \<open>What the scheduler relies on: a thread that is not ready becomes ready at one end of the queue, a thread that is
  ready is refused, and threads leave at the front.  \<open>rdy\<close> says which threads are ready.\<close>

locale thread_deque =
  fixes ok :: "'s \<Rightarrow> bool" and que :: "'s \<Rightarrow> nat list" and rdy :: "'s \<Rightarrow> nat \<Rightarrow> bool"
    and add_tail :: "nat \<Rightarrow> 's \<Rightarrow> 's option" and add_head :: "nat \<Rightarrow> 's \<Rightarrow> 's option" and take_head :: "'s \<Rightarrow> nat option \<times> 's"
  assumes refused: "rdy s t \<Longrightarrow> add_tail t s = None" "rdy s t \<Longrightarrow> add_head t s = None"
    and added: "ok s \<Longrightarrow> \<not> rdy s t \<Longrightarrow> \<exists>s'. add_tail t s = Some s' \<and> ok s' \<and> que s' = que s @ [t] \<and> rdy s' = (rdy s)(t := True)"
      "ok s \<Longrightarrow> \<not> rdy s t \<Longrightarrow> \<exists>s'. add_head t s = Some s' \<and> ok s' \<and> que s' = t # que s \<and> rdy s' = (rdy s)(t := True)"
    and taken: "ok s \<Longrightarrow> que s = [] \<Longrightarrow> \<exists>s'. take_head s = (None, s') \<and> ok s' \<and> que s' = [] \<and> rdy s' = rdy s"
      "ok s \<Longrightarrow> que s = t # ts \<Longrightarrow> \<exists>s'. take_head s = (Some t, s') \<and> ok s' \<and> que s' = ts \<and> rdy s' = (rdy s)(t := False)"

datatype deque_op = AddTail nat | AddHead nat | TakeHead

text \<open>A sequence of operations, with the threads taken; \<open>None\<close> once a thread is refused.\<close>

fun deque_ops :: "(nat \<Rightarrow> 's \<Rightarrow> 's option) \<Rightarrow> (nat \<Rightarrow> 's \<Rightarrow> 's option) \<Rightarrow> ('s \<Rightarrow> nat option \<times> 's) \<Rightarrow> deque_op list \<Rightarrow> 's \<Rightarrow> (nat option list \<times> 's) option"
where
  "deque_ops bt ah tk [] s = Some ([], s)"
| "deque_ops bt ah tk (AddTail t # ops) s = do { s \<leftarrow> bt t s; deque_ops bt ah tk ops s }"
| "deque_ops bt ah tk (AddHead t # ops) s = do { s \<leftarrow> ah t s; deque_ops bt ah tk ops s }"
| "deque_ops bt ah tk (TakeHead # ops) s =
     (let (t, s) = tk s in do { (out, s) \<leftarrow> deque_ops bt ah tk ops s; Some (t # out, s) })"

text \<open>The same on a list and the set of the threads that are ready.\<close>

definition seq_add_tail :: "nat \<Rightarrow> nat list \<times> (nat \<Rightarrow> bool) \<Rightarrow> (nat list \<times> (nat \<Rightarrow> bool)) option" where
  "seq_add_tail t = (\<lambda>(ts, rdy). if rdy t then None else Some (ts @ [t], rdy(t := True)))"

definition seq_add_head :: "nat \<Rightarrow> nat list \<times> (nat \<Rightarrow> bool) \<Rightarrow> (nat list \<times> (nat \<Rightarrow> bool)) option" where
  "seq_add_head t = (\<lambda>(ts, rdy). if rdy t then None else Some (t # ts, rdy(t := True)))"

fun seq_take_head :: "nat list \<times> (nat \<Rightarrow> bool) \<Rightarrow> nat option \<times> nat list \<times> (nat \<Rightarrow> bool)" where
  "seq_take_head ([], rdy) = (None, [], rdy)"
| "seq_take_head (t # ts, rdy) = (Some t, ts, rdy(t := False))"

abbreviation seq_ops :: "deque_op list \<Rightarrow> nat list \<times> (nat \<Rightarrow> bool) \<Rightarrow> (nat option list \<times> nat list \<times> (nat \<Rightarrow> bool)) option" where
  "seq_ops \<equiv> deque_ops seq_add_tail seq_add_head seq_take_head"

context thread_deque
begin

lemma ops_refine:
  assumes "ok s"
  shows "map_option (\<lambda>(out, s'). (out, que s', rdy s')) (deque_ops add_tail add_head take_head ops s) = seq_ops ops (que s, rdy s)"
  using assms
proof (induction ops arbitrary: s)
  case (Cons op ops)
  show ?case
  proof (cases op)
    case (AddTail t)
    then show ?thesis using refused(1) [of s t] added(1) [OF Cons.prems, of t] Cons.IH by (cases "rdy s t") (auto simp: seq_add_tail_def)
  next
    case (AddHead t)
    then show ?thesis using refused(2) [of s t] added(2) [OF Cons.prems, of t] Cons.IH by (cases "rdy s t") (auto simp: seq_add_head_def)
  next
    case TakeHead
    show ?thesis
    proof (cases "que s")
      case Nil
      then obtain s' where s': "take_head s = (None, s')" "ok s'" "que s' = []" "rdy s' = rdy s" using taken(1) [OF Cons.prems] by blast
      then show ?thesis using TakeHead Nil Cons.IH [OF s'(2), symmetric] by (cases "deque_ops add_tail add_head take_head ops s'") auto
    next
      case (Cons t ts)
      then obtain s' where s': "take_head s = (Some t, s')" "ok s'" "que s' = ts" "rdy s' = (rdy s)(t := False)" using taken(2) \<open>ok s\<close> by blast
      then show ?thesis using TakeHead Cons Cons.IH [OF s'(2), symmetric] by (cases "deque_ops add_tail add_head take_head ops s'") (auto simp del: fun_upd_apply)
    qed
  qed
qed simp

end

text \<open>What \<^verbatim>\<open>schedule\<close> does with the local queue: it empties the overflow list into the ring, and takes the head.\<close>

definition take_local :: "kth \<times> sthreads \<Rightarrow> nat option \<times> kth \<times> sthreads" where
  "take_local = (\<lambda>(k, ths).
     let k = (if kt_rq_overflow k \<noteq> [] then drain_overflow k else k)
     in if kt_rq_head k \<noteq> kt_rq_tail k
        then let (th, k) = rq_pop ths k in (Some th, k, ths(th := (ths th)\<lparr>th_thread_ready := False\<rparr>))
        else (None, k, ths))"

lemma drain_if_spec:
  assumes "rq_ok k" and "k1 = (if kt_rq_overflow k \<noteq> [] then drain_overflow k else k)"
  shows "rq_ok k1" and "drained k1" and "runq k1 = runq k"
  using assms drain_overflow_spec [OF assms(1)] by (auto simp: drained_def)

lemma ready_fun: "(\<lambda>t. th_thread_ready ((ths(th := (ths th)\<lparr>th_thread_ready := b, th_ready_tsc := c, th_enque_ts := d\<rparr>)) t)) = (\<lambda>t. th_thread_ready (ths t))(th := b)"
  by auto

interpretation rd: thread_deque "\<lambda>(k, ths). rq_ok k" "\<lambda>(k, ths). runq k" "\<lambda>(k, ths) t. th_thread_ready (ths t)"
  "thread_ready_locked t1 t2" "thread_ready_head_locked t1 t2" take_local for t1 t2
proof (unfold_locales, goal_cases)
  case (1 s t)
  then show ?case by (auto simp: thread_ready_locked_def thread_ready_prepare_def split: prod.splits)
next
  case (2 s t)
  then show ?case by (auto simp: thread_ready_head_locked_def thread_ready_prepare_def split: prod.splits)
next
  case (3 s t)
  obtain k ths where s: "s = (k, ths)" by fastforce
  note d = drain_if_spec [OF _ refl, of k]
  show ?case using 3 rq_add_tail_spec [OF d(1,2)] d(3)
    by (auto simp: s thread_ready_locked_def thread_ready_prepare_def Let_def)
next
  case (4 s t)
  obtain k ths where s: "s = (k, ths)" by fastforce
  let ?ths = "ths(t := (ths t)\<lparr>th_thread_ready := True, th_ready_tsc := t1, th_enque_ts := t2\<rparr>)"
  obtain k' ths' where r: "rq_add_head t (k, ?ths) = (k', ths')" by fastforce
  show ?case using 4 rq_add_head_spec(1,2,4) [OF _ r] r by (auto simp: s thread_ready_head_locked_def thread_ready_prepare_def)
next
  case (5 s)
  obtain k ths where s: "s = (k, ths)" by fastforce
  define k1 where "k1 = (if kt_rq_overflow k \<noteq> [] then drain_overflow k else k)"
  have k1: "rq_ok k1" "runq k1 = []" using drain_if_spec [OF _ k1_def] 5 by (simp_all add: s)
  then have "kt_rq_head k1 = kt_rq_tail k1" by (auto simp: runq_def rq_list_def ring_list_def rq_len_def unat_eq_0)
  then show ?case using k1 by (simp add: s take_local_def k1_def [symmetric] Let_def)
next
  case (6 s t ts)
  obtain k ths where s: "s = (k, ths)" by fastforce
  define k1 where "k1 = (if kt_rq_overflow k \<noteq> [] then drain_overflow k else k)"
  have k1: "rq_ok k1" "runq k1 = t # ts" "drained k1" using drain_if_spec [OF _ k1_def] 6 by (simp_all add: s)
  have ne: "rq_len k1 \<noteq> 0" using k1(2,3) by (cases "rq_len k1 = 0") (auto simp: drained_def runq_def rq_list_def ring_list_def)
  then have ht: "kt_rq_head k1 \<noteq> kt_rq_tail k1" by (auto simp: rq_len_def)
  obtain th k2 where pop: "rq_pop ths k1 = (th, k2)" by fastforce
  show ?case using rq_pop_spec [OF k1(1) ne pop] k1(2) ht pop by (auto simp: s take_local_def k1_def [symmetric] Let_def)
qed

section \<open>An example\<close>

text \<open>Two kthreads, with softirq threads 1 to 6; the main thread 0 has just been spawned on the first.\<close>

definition kth_boot :: "nat \<Rightarrow> kth" where
  "kth_boot k = \<lparr>kt_rq_head = 0, kt_rq_tail = 0, kt_rq_overflow = [],
     kt_q_ptrs = \<lparr>qp_rq_head = 0, qp_rq_tail = 0, qp_oldest_tsc = 0, qp_rcu_gen = 0, qp_run_start_tsc = 0\<rparr>,
     kt_rcu_gen = 0, kt_curr_cpu = 0, kt_rq = replicate 32 0, kt_iokernel_softirq = 3 * k + 1, kt_timer_softirq = 3 * k + 2,
     kt_storage_softirq = 3 * k + 3, kt_iokernel_busy = False, kt_timer_busy = False, kt_storage_busy = False, kt_last_softirq_tsc = 0\<rparr>"

definition sthread_boot :: sthread where
  "sthread_boot = \<lparr>th_ready_tsc = 0, th_enque_ts = 0, th_acc_qdel = 0, th_thread_ready = False, th_thread_running = False,
     th_last_cpu = 0, th_run_start_tsc = 0, th_main_thread = False, th_tlsvar = 0, th_rpc_ctx = 0\<rparr>"

definition before_boot :: sched where
  "before_boot = \<lparr>sc_maxks = 2, sc_k = \<lambda>k. sc_k (schedule_start k \<lparr>sc_maxks = 2, sc_k = kth_boot, sc_th = \<lambda>_. sthread_boot,
     sc_pc = \<lambda>_. KEnter None, sc_live = {}\<rparr>) k, sc_th = \<lambda>_. sthread_boot, sc_pc = \<lambda>_. KEnter None, sc_live = {1, 2, 3, 4, 5, 6}\<rparr>"

definition booted :: sched where
  "booted = the (thread_spawn_main False 0 True 5 5 0 0 before_boot)"

definition first_run :: sched where
  "first_run = the (schedule 0 False no_softirq None 0 booted)"

lemmas boot_defs = before_boot_def kth_boot_def sthread_boot_def schedule_start_def set_rcu_gen_def upd_k_def upd_th_def set_oldest_def
  set_pc_def thread_spawn_main_def thread_create_def on_k_def thread_ready_def thread_ready_prepare_def rq_put_def count_head_def Let_def RUNTIME_RQ_SIZE_def

lemma booted_k: "sc_k booted k = (let b = sc_k before_boot k in if k = 0 then count_head 1 (set_oldest 5 (rq_put 0 b)) else b)"
  by (simp add: booted_def boot_defs)

lemma booted_rest: "sc_maxks booted = 2" "sc_pc booted = (\<lambda>_. KEnter None)" "sc_live booted = {0, 1, 2, 3, 4, 5, 6}"
  "sc_th booted = (\<lambda>_. sthread_boot)(0 := sthread_boot\<lparr>th_main_thread := True, th_thread_ready := True, th_ready_tsc := 5, th_enque_ts := 5\<rparr>)"
  by (auto simp: booted_def boot_defs fun_eq_iff)

lemma booted_queue: "rq_ok (sc_k booted k) \<and> runq (sc_k booted k) = (if k = 0 then [0] else []) \<and>
    published (sc_k booted k) = of_nat (length (runq (sc_k booted k)))"
  by (simp add: booted_k Let_def rq_ok_def rq_len_def runq_def rq_list_def ring_list_def rq_at_def published_def boot_defs)

lemma boot_soft: "soft_th (sc_k booted k) i = 3 * k + (if i = 0 then 1 else if i = 1 then 2 else 3)" "\<not> soft_busy (sc_k booted k) i"
  by (cases "(sc_k booted k, i)" rule: soft_th.cases; simp add: booted_k boot_defs)
     (cases "(sc_k booted k, i)" rule: soft_busy.cases; simp add: booted_k boot_defs)

lemma boot_ok_booted: "boot_ok 0 booted"
proof -
  have inj: "inj_on (\<lambda>(k, i). soft_th (sc_k booted k) i) ({..<sc_maxks booted} \<times> {..<3})"
    by (auto simp: inj_on_def booted_rest boot_soft split: if_splits; presburger)
  have soft: "soft_th (sc_k booted k) i \<in> sc_live booted - {0}" if "k < 2" "i < 3" for k i
    using that by (auto simp: booted_rest boot_soft less_Suc_eq numeral_2_eq_2 numeral_3_eq_3)
  have rcu: "kt_rcu_gen (sc_k booted k) = 1" for k by (simp add: booted_k boot_defs)
  show ?thesis
    unfolding boot_ok_def using inj soft rcu booted_queue boot_soft(2)
    by (simp add: booted_rest sthread_boot_def RUNTIME_MAX_THREADS_def)
qed

lemma first_run_act: "schedule 0 False no_softirq None 0 booted = Some first_run" "sc_pc first_run 0 = KJump None 0"
proof -
  have l: "0 < sc_maxks booted" and pc: "sc_pc booted 0 = KEnter None" by (simp_all add: booted_rest)
  have rx: "rx_ok booted (si_rx no_softirq)" by (simp add: rx_ok_def no_softirq_def)
  show "schedule 0 False no_softirq None 0 booted = Some first_run"
    using schedule_spec [OF start_inv [OF boot_ok_booted] l pc rx, of 0 False] by (auto simp: first_run_def)
  show "sc_pc first_run 0 = KJump None 0"
    by (simp add: first_run_def schedule_def sched_done_def rq_pop_def booted_k rq_at_def boot_defs)
qed

lemma run_booted: "sched_run booted"
  by (rule sched_run.init [OF boot_ok_booted])

lemma run_first: "sched_run first_run"
proof (rule sched_run.step [OF run_booted])
  have "sched_act booted (schedule 0 False no_softirq None 0 booted)"
    by (rule sched_act.sched) (simp_all add: k_at_def booted_rest rx_ok_def no_softirq_def)
  then show "sched_act booted (Some first_run)" by (simp only: first_run_act)
qed

section \<open>Properties\<close>

lemma num_to_steal_half:
  assumes "ls < rs"
  shows "unat (num_to_steal ls rs) = min ((unat rs - unat ls + 1) div 2) 32"
proof -
  define d where "d = unat rs - unat ls"
  have d: "unat (rs - ls) = d" "0 < d" using assms by (auto simp: d_def unat_sub word_less_nat_alt less_imp_le)
  have "div_up d 2 = (d + 1) div 2" using d(2) by (simp add: div_up_def)
  moreover have "(d + 1) div 2 < 2 ^ 32" using unat_u32_less [of rs] by (simp add: d_def)
  ultimately have "unat (of_nat (div_up d 2) :: u32) = (d + 1) div 2" by (simp add: unsigned_of_nat take_bit_nat_eq_self)
  then show ?thesis using assms by (auto simp: num_to_steal_def d d_def [symmetric] min_def word_le_nat_alt RUNTIME_RQ_SIZE_def)
qed

lemma places_facts:
  assumes "places_ok q c st rdy run live"
  shows "\<forall>k k'. k = k' \<or> q k \<inter> q k' = {} \<and> c k \<inter> c k' = {} \<and> st k \<inter> st k' = {}" and "\<forall>k k'. q k \<inter> c k' = {}"
    and "{t \<in> live. rdy t} = (\<Union>k. q k)" and "{t \<in> live. run t} = (\<Union>k. st k)"
proof -
  have a: "alone q" "alone c" "alone st" "everywhere q \<subseteq> live" "everywhere st \<subseteq> live" "everywhere c \<inter> everywhere q = {}"
    "\<forall>t\<in>live. rdy t = (t \<in> everywhere q)" "\<forall>t\<in>live. run t = (t \<in> everywhere st)"
    using assms unfolding places_ok_def by blast+
  show "\<forall>k k'. k = k' \<or> q k \<inter> q k' = {} \<and> c k \<inter> c k' = {} \<and> st k \<inter> st k' = {}" using a(1-3) unfolding alone_def by blast
  show "\<forall>k k'. q k \<inter> c k' = {}" using a(6) unfolding everywhere_def by blast
  have "{t \<in> live. rdy t} = everywhere q" "{t \<in> live. run t} = everywhere st" using a(4,5,7,8) by auto
  then show "{t \<in> live. rdy t} = (\<Union>k. q k)" "{t \<in> live. run t} = (\<Union>k. st k)" by (simp_all only: everywhere_def)
qed

text \<open>C9. No thread is in two places: in every reachable state of the scheduler, with any number of kthreads making
  threads ready, stealing, yielding and switching, a queue holds no thread twice, two queues share no thread, two
  kthreads neither run the same thread nor use the same stack, and a queued thread is not run.  The flags of a thread
  are exact: it is marked ready just when it is queued, and running just when its stack is in use.\<close>

theorem sched_threads_once:
  assumes "sched_run s"
  shows "(\<forall>k. distinct (runqs s k)) \<and>
    (\<forall>k k'. k = k' \<or> set (runqs s k) \<inter> set (runqs s k') = {} \<and> claim (sc_pc s k) \<inter> claim (sc_pc s k') = {} \<and>
      stack (sc_pc s k) \<inter> stack (sc_pc s k') = {}) \<and>
    (\<forall>k k'. set (runqs s k) \<inter> claim (sc_pc s k') = {}) \<and>
    {t \<in> sc_live s. th_thread_ready (sc_th s t)} = (\<Union>k. set (runqs s k)) \<and>
    {t \<in> sc_live s. th_thread_running (sc_th s t)} = (\<Union>k. stack (sc_pc s k))"
proof -
  note inv = sched_run_inv [OF assms]
  have "\<forall>k. distinct (runqs s k)" using inv by (simp add: sched_inv_def queues_ok_def)
  then show ?thesis by (intro conjI places_facts [OF inv_parts(1) [OF inv]])
qed

theorem sched_threads_once_witness: "(\<forall>k. distinct (runqs booted k)) \<and> (\<forall>k k'. set (runqs booted k) \<inter> claim (sc_pc booted k') = {}) \<and>
    {t \<in> sc_live booted. th_thread_ready (sc_th booted t)} = (\<Union>k. set (runqs booted k))"
  using sched_threads_once [OF run_booted] by (elim conjE) (intro conjI)

text \<open>C9. No check of the scheduler fails in a reachable state: no thread that is ready is made ready again, and no
  kthread takes a thread from an empty ring after it has found work, stolen it or started a softirq.\<close>

theorem sched_checks_hold: "sched_run s \<Longrightarrow> sched_act s r \<Longrightarrow> r \<noteq> None"
  using sched_act_spec [of s r, OF _ sched_run_inv [of s]] by auto

theorem sched_checks_hold_witness: "schedule 0 False no_softirq None 0 booted \<noteq> None"
proof (rule sched_checks_hold [OF run_booted])
  show "sched_act booted (schedule 0 False no_softirq None 0 booted)"
    by (rule sched_act.sched) (simp_all add: k_at_def booted_rest rx_ok_def no_softirq_def)
qed

text \<open>C9. The wait for a stack ends: a kthread that switches to a thread waits while another kthread still uses the
  stack of that thread.  In every reachable state the kthreads that wait for one another form no circle, and the chain
  of waiting that starts at a switching kthread leads to one that can take its next step.\<close>

theorem stack_waits_end:
  assumes "sched_run s" and "sc_pc s l = KJump old t"
  shows "acyclic (waits_for s) \<and> (\<exists>k s'. (l, k) \<in> (waits_for s)\<^sup>* \<and> sched_act s (Some s') \<and> sc_pc s' k \<noteq> sc_pc s k)"
proof -
  note inv = sched_run_inv [OF assms(1)] sched_run_stacks [OF assms(1)]
  obtain k where "(l, k) \<in> (waits_for s)\<^sup>*" "can_move s k" using wait_chain [OF inv assms(2)] by blast
  then show ?thesis using waits_for_wf(1) [OF inv] unfolding can_move_def by blast
qed

theorem stack_waits_end_witness: "\<exists>k s'. (0, k) \<in> (waits_for first_run)\<^sup>* \<and> sched_act first_run (Some s') \<and> sc_pc s' k \<noteq> sc_pc first_run k"
  using stack_waits_end [OF run_first first_run_act(2)] by blast

text \<open>C9. The ring of 32 threads with its overflow list is a double-ended queue without bound: for every sequence of
  additions at both ends under the lock and of removals as the scheduler makes them, the threads taken, the threads
  left, the threads marked ready and the refusal of a thread that is ready already are those of a list.\<close>

theorem runq_refines_deque:
  assumes "rq_ok k"
  shows "map_option (\<lambda>(out, k', ths'). (out, runq k', \<lambda>t. th_thread_ready (ths' t)))
      (deque_ops (thread_ready_locked t1 t2) (thread_ready_head_locked t1 t2) take_local ops (k, ths)) =
    seq_ops ops (runq k, \<lambda>t. th_thread_ready (ths t))"
  using rd.ops_refine [of "(k, ths)" t1 t2 ops] assms by (simp add: case_prod_beta')

theorem runq_refines_deque_witness: "map_option (\<lambda>(out, k', ths'). (out, runq k', \<lambda>t. th_thread_ready (ths' t)))
      (deque_ops (thread_ready_locked 7 7) (thread_ready_head_locked 7 7) take_local [AddTail 4, AddHead 5, TakeHead, TakeHead]
        (sc_k booted 0, sc_th booted)) =
    seq_ops [AddTail 4, AddHead 5, TakeHead, TakeHead] (runq (sc_k booted 0), \<lambda>t. th_thread_ready (sc_th booted t))"
  by (rule runq_refines_deque) (simp add: booted_queue)

text \<open>C9. Stealing: a thief \<open>l\<close> that finds threads at kthread \<open>r\<close>, gets its lock and reads its counter as it is
  takes the threads that are next to run there, half of the surplus rounded up but at most 32; it merges them with
  its own by the time they became ready; and no other queue changes.\<close>

theorem steal_takes_half:
  assumes "sched_run s" and "l \<noteq> r" and "work_available (st_rq_tail e) (st_rq_head e) (st_pending e)" and "st_lock e"
    and "st_qp_rq_head e = qp_rq_head (kt_q_ptrs (sc_k s r))" and "length (runqs s l) < length (runqs s r)"
  shows "\<exists>s' ts. steal_work e l r s = Some (True, s') \<and> runqs s r = ts @ runqs s' r \<and>
    length ts = min ((length (runqs s r) - length (runqs s l) + 1) div 2) 32 \<and>
    runqs s' l = merge_by (\<lambda>t. th_ready_tsc (sc_th s t)) ts (runqs s l) \<and>
    (\<forall>k. k = l \<or> k = r \<or> sc_k s' k = sc_k s k) \<and> sc_th s' = sc_th s \<and> sc_pc s' = sc_pc s"
proof -
  note inv = sched_run_inv [OF assms(1)]
  define ls where "ls = published (sc_k s l)"
  define rs where "rs = published (sc_k s r)"
  define n where "n = num_to_steal ls rs"
  have u: "unat ls = length (runqs s l)" "unat rs = length (runqs s r)" "length (runqs s r) \<le> RUNTIME_MAX_THREADS"
    using queue_length [OF inv] by (simp_all add: ls_def rs_def)
  have lt: "ls < rs" using assms(6) by (simp add: word_less_nat_alt u)
  have n: "unat n = min ((length (runqs s r) - length (runqs s l) + 1) div 2) 32"
    using num_to_steal_half [OF lt] u by (simp add: n_def)
  obtain kl kr where m: "merge_runqueues (sc_th s) (sc_k s l) ls (sc_k s r) n = (kl, kr)" by fastforce
  note spec = merge_runqueues_spec [OF inv_queue [OF inv] inv_queue [OF inv] queue_length(1) [OF inv] m [unfolded ls_def]]
  have "n \<noteq> 0" using n assms(6) by (auto simp: unat_eq_0 [symmetric])
  then have run: "steal_work e l r s = Some (True, s\<lparr>sc_k := (sc_k s)(l := kl, r := kr)\<rparr>)"
    using assms(3-5) m by (simp add: steal_work_def Let_def n_def ls_def rs_def published_def)
  show ?thesis
    using run spec(1,2) n assms(2,6)
    by (intro exI [of _ "s\<lparr>sc_k := (sc_k s)(l := kl, r := kr)\<rparr>"] exI [of _ "take (unat n) (runqs s r)"]) auto
qed

theorem steal_takes_half_witness: "\<exists>s' ts. steal_work \<lparr>st_rq_tail = 0, st_rq_head = 1, st_pending = False, st_lock = True, st_qp_rq_head = 1, st_softirq = no_softirq\<rparr> 1 0 booted = Some (True, s') \<and>
    runqs booted 0 = ts @ runqs s' 0 \<and> length ts = 1 \<and> runqs s' 1 = merge_by (\<lambda>t. th_ready_tsc (sc_th booted t)) ts (runqs booted 1)"
proof -
  have "qp_rq_head (kt_q_ptrs (sc_k booted 0)) = 1" by (simp add: booted_k boot_defs)
  then show ?thesis
    using steal_takes_half [OF run_booted, of 1 0 "\<lparr>st_rq_tail = 0, st_rq_head = 1, st_pending = False, st_lock = True, st_qp_rq_head = 1, st_softirq = no_softirq\<rparr>"]
    by (simp add: work_available_def booted_queue) blast
qed

text \<open>C9. What a kthread publishes is exact: in every reachable state the difference of its published 32-bit counters
  is the number of threads in its queue, the overflow list included, however often the counters have wrapped, and its
  RCU generation is even just when it is in the scheduler.\<close>

theorem published_exact:
  assumes "sched_run s"
  shows "unat (qp_rq_head (kt_q_ptrs (sc_k s k)) - qp_rq_tail (kt_q_ptrs (sc_k s k))) = length (runqs s k) \<and>
    length (runqs s k) \<le> RUNTIME_MAX_THREADS \<and> even (kt_rcu_gen (sc_k s k)) = in_sched (sc_pc s k)"
  using queue_length [OF sched_run_inv [OF assms], of k] inv_parts(3) [OF sched_run_inv [OF assms]]
  by (simp add: published_def rcu_ok_def)

theorem published_exact_witness: "unat (qp_rq_head (kt_q_ptrs (sc_k first_run 0)) - qp_rq_tail (kt_q_ptrs (sc_k first_run 0))) = length (runqs first_run 0)"
  using published_exact [OF run_first] by blast

end
